(* ===== verification/Prelude.thy ===== *)
theory Prelude
  imports Main "HOL-Library.Multiset"
begin

text \<open>
  Shared vocabulary of the development: the values a Go operation of this program can
  end with, the stateful scan that every \<open>PopWhere\<close> of the queue package performs, the
  reads and swaps of slices, and the lemma collections the component theories extend.
\<close>

named_theorems config_simps \<open>unfolding rules for the configuration functions\<close>

section \<open>Results\<close>

text \<open>
  A Go function that returns \<open>(T, error)\<close> and may panic ends in one of three ways. The
  error constructors keep the arguments the message is formatted from.
\<close>

datatype go_error =
    UnknownScheduler string
  | UnknownAlgorithm string
  | UnknownUnit string
  | RateNotPositive
  | QueueSizeNotPositive int
  | QueueTimeoutNegative
  | TokensPerWindowMissing
  | WindowSecondsMissing
  | DefaultTokensTooLarge int int
  | PortOutOfRange int
  | InvalidPort string
  | UnknownOverride string
  | ReadFailed string
  | ParseFailed string

datatype 'a outcome = Ok 'a | Err go_error | Panic string

fun is_ok :: "'a outcome \<Rightarrow> bool" where
  "is_ok (Ok _) = True"
| "is_ok _ = False"

fun is_panic :: "'a outcome \<Rightarrow> bool" where
  "is_panic (Panic _) = True"
| "is_panic _ = False"

lemma is_ok_iff: "is_ok r \<longleftrightarrow> (\<exists>x. r = Ok x)"
  by (cases r) auto

lemma is_panic_iff: "is_panic r \<longleftrightarrow> (\<exists>m. r = Panic m)"
  by (cases r) auto

section \<open>A scan with a stateful predicate\<close>

text \<open>
  \<open>sfilter f s xs\<close> tests the elements of \<open>xs\<close> from left to right with a predicate that
  reads and writes a state (a Go closure such as \<open>TryConsume\<close>). It returns the accepted
  elements, the rejected ones, both in order, and the final state.
\<close>

fun sfilter :: "('s \<Rightarrow> 'a \<Rightarrow> bool \<times> 's) \<Rightarrow> 's \<Rightarrow> 'a list \<Rightarrow> 'a list \<times> 'a list \<times> 's" where
  "sfilter f s [] = ([], [], s)"
| "sfilter f s (x # xs) =
     (let (b, s1) = f s x; (m, r, s2) = sfilter f s1 xs
      in if b then (x # m, r, s2) else (m, x # r, s2))"

lemma mset_sfilter: "sfilter f s xs = (m, r, s') \<Longrightarrow> mset m + mset r = mset xs"
  by (induction f s xs arbitrary: m r s' rule: sfilter.induct)
    (auto simp: Let_def split: prod.splits if_splits)

lemma length_sfilter: "sfilter f s xs = (m, r, s') \<Longrightarrow> length m + length r = length xs"
  by (drule mset_sfilter) (metis size_mset size_union)

lemma set_sfilter: "sfilter f s xs = (m, r, s') \<Longrightarrow> set m \<union> set r = set xs"
  by (drule mset_sfilter) (metis set_mset_mset set_mset_union)

lemma sfilter_append:
  "sfilter f s (xs @ ys) =
     (let (m, r, s1) = sfilter f s xs; (m', r', s2) = sfilter f s1 ys in (m @ m', r @ r', s2))"
  by (induction f s xs rule: sfilter.induct) (auto simp: Let_def split: prod.splits)

lemma sfilter_pure: "sfilter (\<lambda>s x. (p x, s)) s xs = (filter p xs, filter (Not \<circ> p) xs, s)"
  by (induction xs) auto

text \<open>
  An invariant of the state that each test preserves holds at the end of the scan, and a
  quantity that accepted elements spend and rejected ones do not is accounted for.
\<close>

lemma sfilter_invariant:
  assumes "\<And>s x b s'. P s \<Longrightarrow> x \<in> set xs \<Longrightarrow> f s x = (b, s') \<Longrightarrow> P s'"
    and "P s" and "sfilter f s xs = (m, r, s')"
  shows "P s'"
  using assms
proof (induction xs arbitrary: s m r)
  case Nil
  then show ?case by simp
next
  case (Cons x xs)
  obtain b s1 where fx: "f s x = (b, s1)" by fastforce
  obtain m1 r1 s2 where rec: "sfilter f s1 xs = (m1, r1, s2)" by (cases "sfilter f s1 xs")
  have "P s1" using Cons.prems(1)[OF Cons.prems(2) _ fx] by simp
  moreover have "s2 = s'" using Cons.prems(3) fx rec by (auto split: if_splits)
  ultimately show ?case
    using Cons.IH[of s1 m1 r1] Cons.prems(1) rec by (meson list.set_intros(2))
qed

lemma sfilter_spend:
  fixes q :: "'s \<Rightarrow> int" and cost :: "'a \<Rightarrow> int"
  assumes "\<And>s x b s'. x \<in> set xs \<Longrightarrow> f s x = (b, s') \<Longrightarrow> q s' = (if b then q s - cost x else q s)"
    and "sfilter f s xs = (m, r, s')"
  shows "q s' = q s - sum_list (map cost m)"
  using assms
proof (induction xs arbitrary: s m r)
  case Nil
  then show ?case by simp
next
  case (Cons x xs)
  obtain b s1 where fx: "f s x = (b, s1)" by fastforce
  obtain m1 r1 s2 where rec: "sfilter f s1 xs = (m1, r1, s2)" by (cases "sfilter f s1 xs")
  have "q s2 = q s1 - sum_list (map cost m1)"
    using Cons.IH[of s1 m1 r1] Cons.prems(1) Cons.prems(2) fx rec
    by (auto split: if_splits)
  moreover have "q s1 = (if b then q s - cost x else q s)" using Cons.prems(1) fx by simp
  moreover have "s2 = s'" "m = (if b then x # m1 else m1)"
    using Cons.prems(2) fx rec by (auto split: if_splits)
  ultimately show ?case by simp
qed

section \<open>Slices\<close>

text \<open>The assignment \<open>h[i], h[j] = h[j], h[i]\<close>.\<close>

definition swap :: "'a list \<Rightarrow> nat \<Rightarrow> nat \<Rightarrow> 'a list" where
  "swap xs i j = xs[i := xs ! j, j := xs ! i]"

lemma length_swap [simp]: "length (swap xs i j) = length xs"
  by (simp add: swap_def)

lemma nth_swap:
  "i < length xs \<Longrightarrow> j < length xs \<Longrightarrow> k < length xs \<Longrightarrow>
   swap xs i j ! k = (if k = i then xs ! j else if k = j then xs ! i else xs ! k)"
  by (auto simp: swap_def nth_list_update)

lemma mset_swap_slice [simp]:
  "i < length xs \<Longrightarrow> j < length xs \<Longrightarrow> mset (swap xs i j) = mset xs"
  by (metis mset_swap swap_def list_update_swap)

lemma butlast_list_update_last:
  "i < length xs \<Longrightarrow> mset (take (length xs - 1) (xs[i := xs ! (length xs - 1)])) + {#xs ! i#} = mset xs"
proof -
  assume i: "i < length xs"
  define n where "n = length xs - 1"
  have n: "n < length xs" using i by (simp add: n_def)
  have "xs[i := xs ! n, n := xs ! i] = take n (xs[i := xs ! n]) @ [xs ! i]"
    using n i n_def
    by (metis (no_types, lifting) Suc_pred' drop_all length_list_update
        less_nat_zero_code linorder_neqE_nat upd_conv_take_nth_drop Suc_leI)
  moreover have "mset (xs[i := xs ! n, n := xs ! i]) = mset xs"
    using i n by (metis mset_swap)
  ultimately show ?thesis by (metis mset_append mset_single_iff_right n_def)
qed

end
