(* ===== verification/QTicket.thy ===== *)
theory QTicket
  imports Prelude
begin

text \<open>
  \<^verbatim>\<open>queue/queue.go\<close>: the \<open>Ticket\<close> and the \<open>Queue\<close> interface. A ticket in a queue is a
  pointer; the fields that are fixed before it is pushed (priority, time, cost) are a
  record with the pointer's identity \<open>tid\<close>, the two that handler and dispatcher share
  (\<open>Release\<close>, \<open>cancelled\<close>) are a cell of their own, kept per \<open>tid\<close> by the endpoint.
  The interface is the locale \<open>sched_queue\<close>, which the four schedulers and their sum
  interpret.
\<close>

section \<open>Tickets\<close>

record ticket =
  tid :: nat
  Priority :: int
  EnqueuedAt :: int
  Cost :: int

text \<open>
  \<open>Release\<close> is a channel of capacity 1: the number of values it holds. \<open>cancelled\<close> is the
  atomic \<open>int32\<close>.
\<close>

record ticket_cell =
  Release :: nat
  cancelled :: int

definition Cancel :: "ticket_cell \<Rightarrow> ticket_cell" where
  "Cancel c = c\<lparr>cancelled := 1\<rparr>"

definition IsCancelled :: "ticket_cell \<Rightarrow> bool" where
  "IsCancelled c = (cancelled c = 1)"

lemma IsCancelled_Cancel [simp]: "IsCancelled (Cancel c)"
  by (simp add: IsCancelled_def Cancel_def)

lemma Release_Cancel [simp]: "Release (Cancel c) = Release c"
  by (simp add: Cancel_def)

section \<open>The filter-in-place loop\<close>

text \<open>
  \<open>FIFOQueue\<close> and \<open>RandomQueue\<close> filter the slice into its own backing array:
  \<^verbatim>\<open>
  remaining := q.items[:0]
  for _, t := range q.items { if fn(t) { matched = append(matched, t) }
                              else     { remaining = append(remaining, t) } }
  \<close>
  Both slices share \<open>arr\<close>: the append writes \<open>arr[w]\<close> while the range reads \<open>arr[i]\<close>.
\<close>

function filter_in_place ::
  "('s \<Rightarrow> 'a \<Rightarrow> bool \<times> 's) \<Rightarrow> 's \<Rightarrow> 'a list \<Rightarrow> nat \<Rightarrow> nat \<Rightarrow> 'a list \<Rightarrow> 'a list \<times> 's \<times> 'a list" where
  "filter_in_place fn s arr w i matched =
     (if i < length arr
      then let t = arr ! i; (b, s') = fn s t
           in if b then filter_in_place fn s' arr w (i + 1) (matched @ [t])
              else filter_in_place fn s' (arr[w := t]) (w + 1) (i + 1) matched
      else (matched, s, take w arr))"
  by pat_completeness auto
termination
  by (relation "measure (\<lambda>(fn, s, arr, w, i, matched). length arr - i)") auto

declare filter_in_place.simps [simp del]

text \<open>The write position never passes the read position, so the loop is a filter.\<close>

lemma filter_in_place_general:
  "w \<le> i \<Longrightarrow> i \<le> length arr \<Longrightarrow>
   filter_in_place fn s arr w i matched =
     (let (m, r, s') = sfilter fn s (drop i arr) in (matched @ m, s', take w arr @ r))"
proof (induction fn s arr w i matched rule: filter_in_place.induct)
  case (1 fn s arr w i matched)
  show ?case
  proof (cases "i < length arr")
    case False
    then show ?thesis by (subst filter_in_place.simps) simp
  next
    case True
    obtain b s' where f: "fn s (arr ! i) = (b, s')" by fastforce
    have drop: "drop i arr = arr ! i # drop (Suc i) arr" using True by (simp add: Cons_nth_drop_Suc)
    have take: "take (Suc w) (arr[w := arr ! i]) = take w arr @ [arr ! i]"
      using True "1.prems" by (simp add: take_Suc_conv_app_nth)
    show ?thesis
    proof (cases b)
      case b: True
      show ?thesis
        using "1.IH"(1)[OF True refl f[symmetric] refl b] "1.prems" True f b
        by (subst filter_in_place.simps) (simp add: drop Let_def split: prod.splits)
    next
      case b: False
      have "drop (Suc i) (arr[w := arr ! i]) = drop (Suc i) arr" using "1.prems" by simp
      then show ?thesis
        using "1.IH"(2)[OF True refl f[symmetric] refl b] "1.prems" True f b take
        by (subst filter_in_place.simps) (simp add: drop Let_def split: prod.splits)
    qed
  qed
qed

lemma filter_in_place_sfilter:
  "filter_in_place fn s arr 0 0 [] = (let (m, r, s') = sfilter fn s arr in (m, s', r))"
  by (subst filter_in_place_general) (auto split: prod.splits)

section \<open>The interface\<close>

text \<open>
  \<open>serves q ts\<close> reads: the queue may serve its tickets in the order \<open>ts\<close>. A FIFO or LIFO
  queue has one serve order, a priority queue one for each way of breaking ties, a random
  queue any. The first argument of \<open>push\<close> and \<open>pop\<close> is what the source leaves to the
  runtime: the slack \<open>append\<close> allocates, the draw of \<open>rand.Intn\<close>.
\<close>

locale sched_queue =
  fixes push :: "nat \<Rightarrow> ticket \<Rightarrow> 'q \<Rightarrow> bool \<times> 'q"
    and pop :: "nat \<Rightarrow> 'q \<Rightarrow> ticket option \<times> 'q"
    and popwhere :: "('s \<Rightarrow> ticket \<Rightarrow> bool \<times> 's) \<Rightarrow> 's \<Rightarrow> 'q \<Rightarrow> ticket list \<times> 's \<times> 'q"
    and qlen :: "'q \<Rightarrow> nat"
    and maxsize :: "'q \<Rightarrow> int"
    and content :: "'q \<Rightarrow> ticket multiset"
    and serves :: "'q \<Rightarrow> ticket list \<Rightarrow> bool"
    and invar :: "'q \<Rightarrow> bool"
  assumes size_content: "invar q \<Longrightarrow> size (content q) = qlen q"
    and serves_content: "invar q \<Longrightarrow> serves q ts \<Longrightarrow> mset ts = content q"
    and push_full: "invar q \<Longrightarrow> maxsize q \<le> int (qlen q) \<Longrightarrow> push g t q = (False, q)"
    and push_room: "invar q \<Longrightarrow> int (qlen q) < maxsize q \<Longrightarrow>
      \<exists>q'. push g t q = (True, q') \<and> invar q' \<and> maxsize q' = maxsize q
        \<and> content q' = add_mset t (content q)"
    and pop_empty: "invar q \<Longrightarrow> qlen q = 0 \<Longrightarrow> pop r q = (None, q)"
    and pop_next: "invar q \<Longrightarrow> 0 < qlen q \<Longrightarrow>
      \<exists>t q' ts. pop r q = (Some t, q') \<and> invar q' \<and> maxsize q' = maxsize q
        \<and> serves q (t # ts) \<and> serves q' ts"
    and popwhere_scan: "invar q \<Longrightarrow>
      \<exists>ts m rest s' q'. serves q ts \<and> sfilter fn s ts = (m, rest, s')
        \<and> popwhere fn s q = (m, s', q') \<and> invar q' \<and> maxsize q' = maxsize q
        \<and> content q' = mset rest"
begin

lemma push_cases:
  assumes "invar q"
  obtains (full) "push g t q = (False, q)" "maxsize q \<le> int (qlen q)"
  | (room) q' where "push g t q = (True, q')" "int (qlen q) < maxsize q" "invar q'"
      "maxsize q' = maxsize q" "content q' = add_mset t (content q)" "qlen q' = Suc (qlen q)"
proof (cases "int (qlen q) < maxsize q")
  case True
  then obtain q' where q': "push g t q = (True, q')" "invar q'" "maxsize q' = maxsize q"
    "content q' = add_mset t (content q)"
    using push_room[OF assms] by blast
  moreover have "qlen q' = Suc (qlen q)"
    using size_content[OF q'(2)] size_content[OF assms] q'(4) by simp
  ultimately show ?thesis using room True by blast
next
  case False
  then show ?thesis using full push_full[OF assms] by simp
qed

lemma push_bounded:
  assumes "invar q" and "int (qlen q) \<le> maxsize q" and "push g t q = (b, q')"
  shows "invar q' \<and> int (qlen q') \<le> maxsize q' \<and> maxsize q' = maxsize q"
  using push_cases[OF assms(1), of g t] assms by fastforce

lemma pop_cases:
  assumes "invar q"
  obtains (empty) "pop r q = (None, q)" "content q = {#}" "qlen q = 0"
  | (some) t q' ts where "pop r q = (Some t, q')" "invar q'" "maxsize q' = maxsize q"
      "serves q (t # ts)" "serves q' ts" "content q = add_mset t (content q')"
      "qlen q = Suc (qlen q')"
proof (cases "qlen q = 0")
  case True
  then have "content q = {#}" using size_content[OF assms] by simp
  then show ?thesis using empty True pop_empty[OF assms] by simp
next
  case False
  then obtain t q' ts where p: "pop r q = (Some t, q')" "invar q'" "maxsize q' = maxsize q"
    "serves q (t # ts)" "serves q' ts"
    using pop_next[OF assms] by blast
  have c: "content q = add_mset t (content q')"
    using serves_content[OF assms p(4)] serves_content[OF p(2,5)] by simp
  moreover have "qlen q = Suc (qlen q')"
    using c size_content[OF assms] size_content[OF p(2)] by simp
  ultimately show ?thesis using some p by blast
qed

lemma pop_nil_iff: "invar q \<Longrightarrow> fst (pop r q) = None \<longleftrightarrow> qlen q = 0"
  by (cases rule: pop_cases[of q r]) auto

lemma popwhere_cases:
  assumes "invar q"
  obtains ts m rest s' q' where "popwhere fn s q = (m, s', q')" "serves q ts"
    "sfilter fn s ts = (m, rest, s')" "invar q'" "maxsize q' = maxsize q"
    "content q' = mset rest" "content q = mset m + content q'" "qlen q = length m + qlen q'"
proof -
  obtain ts m rest s' q' where p: "serves q ts" "sfilter fn s ts = (m, rest, s')"
    "popwhere fn s q = (m, s', q')" "invar q'" "maxsize q' = maxsize q" "content q' = mset rest"
    using popwhere_scan[OF assms] by blast
  have c: "content q = mset m + content q'"
    using mset_sfilter[OF p(2)] serves_content[OF assms p(1)] p(6) by simp
  moreover have "qlen q = length m + qlen q'"
    using arg_cong[OF c, of size] size_content[OF assms] size_content[OF p(4)] by simp
  ultimately show ?thesis using that p by blast
qed

end

end
