(* ===== verification/QFifo.thy ===== *)
theory QFifo
  imports QTicket
begin

text \<open>
  \<^verbatim>\<open>queue/fifo.go\<close>: the bounded first-in-first-out queue. The slice \<open>items\<close> is its elements
  and its capacity \<open>fcap\<close>, which \<open>Pop\<close> reads to decide whether to compact the backing array.
\<close>

record fifo =
  fitems :: "ticket list"
  fcap :: nat
  fmaxSize :: int

definition NewFIFO :: "int \<Rightarrow> fifo" where
  "NewFIFO maxSize = \<lparr>fitems = [], fcap = 0, fmaxSize = maxSize\<rparr>"

text \<open>
  \<open>append\<close> keeps the array while there is room and else allocates one at least as large as
  needed; how much larger is the runtime's choice \<open>slack\<close>.
\<close>

definition append_cap :: "nat \<Rightarrow> nat \<Rightarrow> nat \<Rightarrow> nat" where
  "append_cap slack n c = (if n < c then c else n + 1 + slack)"

definition fifo_Push :: "nat \<Rightarrow> ticket \<Rightarrow> fifo \<Rightarrow> bool \<times> fifo" where
  "fifo_Push slack t q =
     (if fmaxSize q \<le> int (length (fitems q)) then (False, q)
      else (True, q\<lparr>fitems := fitems q @ [t],
                    fcap := append_cap slack (length (fitems q)) (fcap q)\<rparr>))"

definition fifo_Pop :: "fifo \<Rightarrow> ticket option \<times> fifo" where
  "fifo_Pop q =
     (case fitems q of
        [] \<Rightarrow> (None, q)
      | t # rest \<Rightarrow>
          let c = fcap q - 1;
              q1 = q\<lparr>fitems := rest, fcap := c\<rparr>
          in if fmaxSize q < int c \<and> length rest < c div 4
             then (Some t, q1\<lparr>fitems := take (length rest) rest, fcap := length rest\<rparr>)
             else (Some t, q1))"

definition fifo_PopWhere :: "('s \<Rightarrow> ticket \<Rightarrow> bool \<times> 's) \<Rightarrow> 's \<Rightarrow> fifo \<Rightarrow> ticket list \<times> 's \<times> fifo" where
  "fifo_PopWhere fn s q =
     (let (matched, s', remaining) = filter_in_place fn s (fitems q) 0 0 []
      in (matched, s', q\<lparr>fitems := remaining\<rparr>))"

definition fifo_Len :: "fifo \<Rightarrow> nat" where
  "fifo_Len q = length (fitems q)"

text \<open>The slice never reaches past its array.\<close>

definition fifo_wf :: "fifo \<Rightarrow> bool" where
  "fifo_wf q \<longleftrightarrow> length (fitems q) \<le> fcap q"

lemma fifo_wf_New [simp]: "fifo_wf (NewFIFO n)"
  by (simp add: fifo_wf_def NewFIFO_def)

lemma fifo_Pop_Cons:
  "fitems q = t # rest \<Longrightarrow>
   \<exists>c. fifo_Pop q = (Some t, q\<lparr>fitems := rest, fcap := c\<rparr>)
     \<and> (c = length rest \<or> c = fcap q - 1) \<and> (int c \<le> fmaxSize q \<or> c < 4 * length rest + 4)"
  by (auto simp: fifo_Pop_def Let_def)

lemma fifo_PopWhere_sfilter:
  "sfilter fn s (fitems q) = (m, r, s') \<Longrightarrow> fifo_PopWhere fn s q = (m, s', q\<lparr>fitems := r\<rparr>)"
  by (simp add: fifo_PopWhere_def filter_in_place_sfilter)

interpretation fifoq: sched_queue fifo_Push "\<lambda>_. fifo_Pop" fifo_PopWhere fifo_Len fmaxSize
  "\<lambda>q. mset (fitems q)" "\<lambda>q ts. ts = fitems q" fifo_wf
proof (unfold_locales, goal_cases)
  case (4 q g t)
  then show ?case by (auto simp: fifo_Push_def fifo_Len_def fifo_wf_def append_cap_def)
next
  case (6 q r)
  then obtain t rest where q: "fitems q = t # rest" by (cases "fitems q") (auto simp: fifo_Len_def)
  show ?case
    using fifo_Pop_Cons[OF q] 6(1) q by (auto simp: fifo_wf_def)
next
  case (7 q fn s)
  obtain m r s' where scan: "sfilter fn s (fitems q) = (m, r, s')" by (cases "sfilter fn s (fitems q)")
  show ?case
    using 7 length_sfilter[OF scan] by (auto simp: scan fifo_PopWhere_sfilter[OF scan] fifo_wf_def)
qed (auto simp: fifo_Len_def fifo_Push_def fifo_Pop_def)

section \<open>Properties\<close>

text \<open>
  The in-place filter is a filter: although \<open>PopWhere\<close> writes the kept tickets into the
  array it is reading, it tests the tickets from front to back, returns the accepted ones in
  that order and leaves the others in theirs, with the capacity and the bound unchanged.
\<close>

lemma fifo_PopWhere_filters:
  "fifo_PopWhere fn s q =
     (let (matched, remaining, s') = sfilter fn s (fitems q) in (matched, s', q\<lparr>fitems := remaining\<rparr>))"
  by (cases "sfilter fn s (fitems q)") (simp add: fifo_PopWhere_sfilter)

text \<open>
  Compaction bounds the memory and is invisible: a \<open>Pop\<close> that returns a ticket returns the
  oldest one and keeps the others in order, and afterwards the backing array either fits
  \<open>maxSize\<close> or is less than four times (plus a constant) the number of queued tickets.
\<close>

lemma fifo_Pop_compacts:
  assumes "fitems q = t # rest"
  shows "\<exists>q'. fifo_Pop q = (Some t, q') \<and> fitems q' = rest \<and> fmaxSize q' = fmaxSize q
    \<and> (int (fcap q') \<le> fmaxSize q' \<or> fcap q' < 4 * length (fitems q') + 4)"
  using fifo_Pop_Cons[OF assms] by auto

end
