(* ===== verification/QLifo.thy ===== *)
theory QLifo
  imports QTicket
begin

text \<open>
  \<^verbatim>\<open>queue/lifo.go\<close>: the bounded stack. \<open>PopWhere\<close> scans from the back and then reverses what
  it kept with the two-index swap loop.
\<close>

record lifo =
  litems :: "ticket list"
  lmaxSize :: int

definition NewLIFO :: "int \<Rightarrow> lifo" where
  "NewLIFO maxSize = \<lparr>litems = [], lmaxSize = maxSize\<rparr>"

definition lifo_Push :: "ticket \<Rightarrow> lifo \<Rightarrow> bool \<times> lifo" where
  "lifo_Push t q =
     (if lmaxSize q \<le> int (length (litems q)) then (False, q)
      else (True, q\<lparr>litems := litems q @ [t]\<rparr>))"

definition lifo_Pop :: "lifo \<Rightarrow> ticket option \<times> lifo" where
  "lifo_Pop q =
     (let n = length (litems q)
      in if n = 0 then (None, q)
         else (Some (litems q ! (n - 1)), q\<lparr>litems := take (n - 1) (litems q)\<rparr>))"

text \<open>The scan \<open>for i := len(q.items) - 1; i >= 0; i--\<close>; the counter is \<open>i + 1\<close>.\<close>

fun lifo_scan ::
  "('s \<Rightarrow> 'a \<Rightarrow> bool \<times> 's) \<Rightarrow> 's \<Rightarrow> 'a list \<Rightarrow> nat \<Rightarrow> 'a list \<Rightarrow> 'a list \<Rightarrow> 'a list \<times> 's \<times> 'a list" where
  "lifo_scan fn s xs 0 matched remaining = (matched, s, remaining)"
| "lifo_scan fn s xs (Suc i) matched remaining =
     (let (b, s') = fn s (xs ! i)
      in if b then lifo_scan fn s' xs i (matched @ [xs ! i]) remaining
         else lifo_scan fn s' xs i matched (remaining @ [xs ! i]))"

text \<open>The loop \<open>for i, j := 0, len(remaining)-1; i < j; i, j = i+1, j-1\<close>.\<close>

function reverse_loop :: "'a list \<Rightarrow> int \<Rightarrow> int \<Rightarrow> 'a list" where
  "reverse_loop xs i j =
     (if i < j then reverse_loop (swap xs (nat i) (nat j)) (i + 1) (j - 1) else xs)"
  by pat_completeness auto
termination
  by (relation "measure (\<lambda>(xs, i, j). nat (j - i))") auto

declare reverse_loop.simps [simp del]

definition lifo_PopWhere :: "('s \<Rightarrow> ticket \<Rightarrow> bool \<times> 's) \<Rightarrow> 's \<Rightarrow> lifo \<Rightarrow> ticket list \<times> 's \<times> lifo" where
  "lifo_PopWhere fn s q =
     (let (matched, s', remaining) = lifo_scan fn s (litems q) (length (litems q)) [] []
      in (matched, s', q\<lparr>litems := reverse_loop remaining 0 (int (length remaining) - 1)\<rparr>))"

definition lifo_Len :: "lifo \<Rightarrow> nat" where
  "lifo_Len q = length (litems q)"

lemma length_reverse_loop [simp]: "length (reverse_loop xs i j) = length xs"
  by (induction xs i j rule: reverse_loop.induct) (subst reverse_loop.simps, simp)

lemma nth_reverse_loop:
  "0 \<le> i \<Longrightarrow> j < int (length xs) \<Longrightarrow> k < length xs \<Longrightarrow>
   reverse_loop xs i j ! k = (if i \<le> int k \<and> int k \<le> j then xs ! nat (i + j - int k) else xs ! k)"
proof (induction xs i j rule: reverse_loop.induct)
  case (1 xs i j)
  show ?case
  proof (cases "i < j")
    case False
    then have "nat (i + j - int k) = k" if "i \<le> int k" "int k \<le> j" using that by linarith
    then show ?thesis using False by (subst reverse_loop.simps) simp
  next
    case True
    have "reverse_loop xs i j = reverse_loop (swap xs (nat i) (nat j)) (i + 1) (j - 1)"
      using True by (subst reverse_loop.simps) simp
    also have "\<dots> ! k = (if i + 1 \<le> int k \<and> int k \<le> j - 1
        then swap xs (nat i) (nat j) ! nat (i + j - int k) else swap xs (nat i) (nat j) ! k)"
      using "1.IH"[OF True] "1.prems" by simp
    finally show ?thesis using "1.prems" True by (auto simp: nth_swap)
  qed
qed

lemma reverse_loop_rev: "reverse_loop xs 0 (int (length xs) - 1) = rev xs"
  by (rule nth_equalityI) (auto simp: nth_reverse_loop rev_nth intro!: arg_cong[of _ _ "nth xs"])

lemma lifo_scan_sfilter:
  "k \<le> length xs \<Longrightarrow>
   lifo_scan fn s xs k matched remaining =
     (let (m, r, s') = sfilter fn s (rev (take k xs)) in (matched @ m, s', remaining @ r))"
proof (induction fn s xs k matched remaining rule: lifo_scan.induct)
  case (2 fn s xs i matched remaining)
  obtain b s' where "fn s (xs ! i) = (b, s')" by fastforce
  with 2 show ?case by (cases b) (simp_all add: take_Suc_conv_app_nth Let_def split: prod.splits)
qed simp

lemma lifo_PopWhere_sfilter:
  "sfilter fn s (rev (litems q)) = (m, r, s') \<Longrightarrow> lifo_PopWhere fn s q = (m, s', q\<lparr>litems := rev r\<rparr>)"
  by (simp add: lifo_PopWhere_def lifo_scan_sfilter reverse_loop_rev)

lemma lifo_Pop_snoc: "litems q = rest @ [t] \<Longrightarrow> lifo_Pop q = (Some t, q\<lparr>litems := rest\<rparr>)"
  by (simp add: lifo_Pop_def)

interpretation lifoq: sched_queue "\<lambda>_. lifo_Push" "\<lambda>_. lifo_Pop" lifo_PopWhere lifo_Len lmaxSize
  "\<lambda>q. mset (litems q)" "\<lambda>q ts. ts = rev (litems q)" "\<lambda>_. True"
proof (unfold_locales, goal_cases)
  case (6 q r)
  then obtain rest t where "litems q = rest @ [t]"
    by (cases "litems q" rule: rev_cases) (auto simp: lifo_Len_def)
  then show ?case by (simp add: lifo_Pop_snoc)
next
  case (7 q fn s)
  obtain m r s' where scan: "sfilter fn s (rev (litems q)) = (m, r, s')"
    by (cases "sfilter fn s (rev (litems q))")
  show ?case by (auto simp: scan lifo_PopWhere_sfilter[OF scan])
qed (auto simp: lifo_Len_def lifo_Push_def lifo_Pop_def)

section \<open>Properties\<close>

text \<open>
  A stack: a ticket that \<open>Push\<close> accepts is the one the next \<open>Pop\<close> returns, and that \<open>Pop\<close>
  restores the queue as it was.
\<close>

lemma lifo_Pop_Push:
  assumes "lifo_Push t q = (True, q')"
  shows "lifo_Pop q' = (Some t, q)"
  using assms by (auto simp: lifo_Push_def lifo_Pop_snoc split: if_splits)

text \<open>
  The stack's selective pop: the downward scan followed by the two-index reversal tests the
  newest ticket first, hands out the accepted ones newest first and leaves the others in their
  original stack order.
\<close>

lemma lifo_PopWhere_filters:
  "lifo_PopWhere fn s q =
     (let (matched, kept, s') = sfilter fn s (rev (litems q)) in (matched, s', q\<lparr>litems := rev kept\<rparr>))"
  by (cases "sfilter fn s (rev (litems q))") (simp add: lifo_PopWhere_sfilter)

end
