(* ===== verification/QRandom.thy ===== *)
theory QRandom
  imports QTicket
begin

text \<open>
  \<^verbatim>\<open>queue/random.go\<close>: \<open>Pop\<close> removes the element at a drawn index by moving the last one into
  its place. \<open>rand.Intn(n)\<close> is a draw \<open>r\<close> reduced to the range: every index is possible and
  nothing else is.
\<close>

record randomq =
  ritems :: "ticket list"
  rmaxSize :: int

definition NewRandom :: "int \<Rightarrow> randomq" where
  "NewRandom maxSize = \<lparr>ritems = [], rmaxSize = maxSize\<rparr>"

definition Intn :: "nat \<Rightarrow> nat \<Rightarrow> nat" where
  "Intn r n = r mod n"

definition random_Push :: "ticket \<Rightarrow> randomq \<Rightarrow> bool \<times> randomq" where
  "random_Push t q =
     (if rmaxSize q \<le> int (length (ritems q)) then (False, q)
      else (True, q\<lparr>ritems := ritems q @ [t]\<rparr>))"

definition random_Pop :: "nat \<Rightarrow> randomq \<Rightarrow> ticket option \<times> randomq" where
  "random_Pop r q =
     (let n = length (ritems q)
      in if n = 0 then (None, q)
         else let i = Intn r n;
                  t = ritems q ! i;
                  moved = (ritems q)[i := ritems q ! (n - 1)]
              in (Some t, q\<lparr>ritems := take (n - 1) moved\<rparr>))"

definition random_PopWhere ::
  "('s \<Rightarrow> ticket \<Rightarrow> bool \<times> 's) \<Rightarrow> 's \<Rightarrow> randomq \<Rightarrow> ticket list \<times> 's \<times> randomq" where
  "random_PopWhere fn s q =
     (let (matched, s', remaining) = filter_in_place fn s (ritems q) 0 0 []
      in (matched, s', q\<lparr>ritems := remaining\<rparr>))"

definition random_Len :: "randomq \<Rightarrow> nat" where
  "random_Len q = length (ritems q)"

lemma Intn_less: "0 < n \<Longrightarrow> Intn r n < n"
  by (simp add: Intn_def)

lemma Intn_surj: "i < n \<Longrightarrow> Intn i n = i"
  by (simp add: Intn_def)

lemma random_Pop_mset:
  assumes "ritems q \<noteq> []"
  shows "\<exists>t q'. random_Pop r q = (Some t, q') \<and> rmaxSize q' = rmaxSize q
    \<and> mset (ritems q) = add_mset t (mset (ritems q'))"
  using butlast_list_update_last[of "Intn r (length (ritems q))" "ritems q"] assms
  by (auto simp: random_Pop_def Let_def Intn_less)

lemma random_PopWhere_sfilter:
  "sfilter fn s (ritems q) = (m, r, s') \<Longrightarrow> random_PopWhere fn s q = (m, s', q\<lparr>ritems := r\<rparr>)"
  by (simp add: random_PopWhere_def filter_in_place_sfilter)

interpretation randomq: sched_queue "\<lambda>_. random_Push" random_Pop random_PopWhere random_Len rmaxSize
  "\<lambda>q. mset (ritems q)" "\<lambda>q ts. mset ts = mset (ritems q)" "\<lambda>_. True"
proof (unfold_locales, goal_cases)
  case (6 q r)
  then have "ritems q \<noteq> []" by (auto simp: random_Len_def)
  then show ?case
    using random_Pop_mset[of q r] by (metis mset.simps(2))
next
  case (7 q fn s)
  obtain m r s' where scan: "sfilter fn s (ritems q) = (m, r, s')" by (cases "sfilter fn s (ritems q)")
  then show ?case using random_PopWhere_sfilter[OF scan] by fastforce
qed (auto simp: random_Len_def random_Push_def random_Pop_def)

section \<open>Properties\<close>

text \<open>
  Every queued ticket can be drawn, and swap-and-shrink removes the drawn one only: for each
  index there is a draw for which \<open>Pop\<close> returns the ticket at that index and keeps all others.
\<close>

lemma random_Pop_any:
  assumes "i < length (ritems q)"
  shows "\<exists>r q'. random_Pop r q = (Some (ritems q ! i), q')
    \<and> mset (ritems q) = add_mset (ritems q ! i) (mset (ritems q')) \<and> rmaxSize q' = rmaxSize q"
proof -
  have "fst (random_Pop i q) = Some (ritems q ! i)"
    using assms by (auto simp: random_Pop_def Let_def Intn_surj)
  then show ?thesis
    using random_Pop_mset[of q i] assms by (metis fst_conv length_0_conv not_less_zero option.inject)
qed

end
