(* ===== verification/GoHeap.thy ===== *)
theory GoHeap
  imports Prelude
begin

text \<open>
  Go's \<open>container/heap\<close>, the part the queue package calls: \<open>Init\<close>, \<open>Push\<close>, \<open>Pop\<close> and their
  loops \<open>up\<close> and \<open>down\<close>, over a slice with the caller's \<open>Less\<close>. The correctness lemmas hold
  for any \<open>Less\<close> that is asymmetric and negatively transitive (a strict weak order), the
  contract that the locale \<open>heap_less\<close> states.
\<close>

section \<open>The algorithms\<close>

text \<open>
  \<open>(j - 1) / 2\<close> is 0 at \<open>j = 0\<close> in Go (division truncates towards zero) and in HOL
  (subtraction stops at zero), so both stop there.
\<close>

function up :: "('a \<Rightarrow> 'a \<Rightarrow> bool) \<Rightarrow> 'a list \<Rightarrow> nat \<Rightarrow> 'a list" where
  "up lt h j =
     (let i = (j - 1) div 2
      in if i = j \<or> \<not> lt (h ! j) (h ! i) then h else up lt (swap h i j) i)"
  by pat_completeness auto
termination
  by (relation "measure (\<lambda>(lt, h, j). j)") auto

function down :: "('a \<Rightarrow> 'a \<Rightarrow> bool) \<Rightarrow> 'a list \<Rightarrow> nat \<Rightarrow> nat \<Rightarrow> 'a list" where
  "down lt h i n =
     (let j1 = 2 * i + 1
      in if n \<le> j1 then h
         else let j2 = j1 + 1;
                  j = (if j2 < n \<and> lt (h ! j2) (h ! j1) then j2 else j1)
              in if \<not> lt (h ! j) (h ! i) then h else down lt (swap h i j) j n)"
  by pat_completeness auto
termination
  by (relation "measure (\<lambda>(lt, h, i, n). n - i)") (auto simp: Let_def)

declare up.simps [simp del] down.simps [simp del]

fun init_loop :: "('a \<Rightarrow> 'a \<Rightarrow> bool) \<Rightarrow> nat \<Rightarrow> 'a list \<Rightarrow> 'a list" where
  "init_loop lt 0 h = h"
| "init_loop lt (Suc i) h = init_loop lt i (down lt h i (length h))"

definition heap_Init :: "('a \<Rightarrow> 'a \<Rightarrow> bool) \<Rightarrow> 'a list \<Rightarrow> 'a list" where
  "heap_Init lt h = init_loop lt (length h div 2) h"

definition heap_Push :: "('a \<Rightarrow> 'a \<Rightarrow> bool) \<Rightarrow> 'a \<Rightarrow> 'a list \<Rightarrow> 'a list" where
  "heap_Push lt x h = (let h1 = h @ [x] in up lt h1 (length h1 - 1))"

definition heap_Pop :: "('a \<Rightarrow> 'a \<Rightarrow> bool) \<Rightarrow> 'a list \<Rightarrow> 'a \<times> 'a list" where
  "heap_Pop lt h =
     (let n = length h - 1; h1 = down lt (swap h 0 n) 0 n in (h1 ! n, take n h1))"

section \<open>Length and contents\<close>

lemma length_up [simp]: "length (up lt h j) = length h"
  by (induction lt h j rule: up.induct) (subst up.simps, simp add: Let_def)

lemma length_down [simp]: "length (down lt h i n) = length h"
  by (induction lt h i n rule: down.induct) (subst down.simps, simp add: Let_def)

lemma mset_up [simp]: "j < length h \<Longrightarrow> mset (up lt h j) = mset h"
proof (induction lt h j rule: up.induct)
  case (1 lt h j)
  then show ?case by (subst up.simps) (auto simp: Let_def)
qed

lemma mset_down [simp]: "n \<le> length h \<Longrightarrow> mset (down lt h i n) = mset h"
proof (induction lt h i n rule: down.induct)
  case (1 lt h i n)
  then show ?case by (subst down.simps) (auto simp: Let_def)
qed

lemma down_beyond: "n \<le> k \<Longrightarrow> k < length h \<Longrightarrow> n \<le> length h \<Longrightarrow> down lt h i n ! k = h ! k"
proof (induction lt h i n rule: down.induct)
  case (1 lt h i n)
  then show ?case by (subst down.simps) (auto simp: Let_def nth_swap)
qed

lemma init_loop_length [simp]: "length (init_loop lt k h) = length h"
  by (induction k arbitrary: h) auto

lemma mset_init_loop [simp]: "mset (init_loop lt k h) = mset h"
  by (induction k arbitrary: h) auto

lemma mset_heap_Init [simp]: "mset (heap_Init lt h) = mset h"
  by (simp add: heap_Init_def)

lemma heap_Init_Nil [simp]: "heap_Init lt [] = []"
  by (simp add: heap_Init_def)

lemma mset_heap_Push [simp]: "mset (heap_Push lt x h) = add_mset x (mset h)"
  by (simp add: heap_Push_def)

lemma length_heap_Push [simp]: "length (heap_Push lt x h) = Suc (length h)"
  by (simp add: heap_Push_def)

lemma length_heap_Pop: "heap_Pop lt h = (x, h') \<Longrightarrow> h \<noteq> [] \<Longrightarrow> length h = Suc (length h')"
  by (auto simp: heap_Pop_def Let_def)

lemma mset_heap_Pop:
  assumes "heap_Pop lt h = (x, h')" and "h \<noteq> []"
  shows "mset h = add_mset x (mset h')"
proof -
  define n where "n = length h - 1"
  define h1 where "h1 = down lt (swap h 0 n) 0 n"
  have n: "n < length h" "0 < length h" using assms(2) by (auto simp: n_def)
  have len: "length h1 = Suc n" using n by (simp add: h1_def n_def)
  have "mset h1 = mset h" using n by (simp add: h1_def)
  moreover have "h1 = take n h1 @ [h1 ! n]" using len by (metis lessI take_Suc_conv_app_nth take_all order_refl)
  moreover have "x = h1 ! n" "h' = take n h1"
    using assms(1) by (auto simp: heap_Pop_def Let_def n_def h1_def)
  ultimately show ?thesis by (metis add_mset_add_single mset_append mset_single_iff_right)
qed

lemma heap_Pop_shorter: "(x, h') = heap_Pop lt h \<Longrightarrow> h \<noteq> [] \<Longrightarrow> length h' < length h"
  using length_heap_Pop[of lt h x h'] by simp

lemma heap_Pop_root: "heap_Pop lt h = (x, h') \<Longrightarrow> h \<noteq> [] \<Longrightarrow> x = h ! 0"
  by (auto simp: heap_Pop_def Let_def down_beyond nth_swap)

section \<open>Popping until empty\<close>

text \<open>The sequence of elements that repeated \<open>Pop\<close> calls return.\<close>

function pops :: "('a \<Rightarrow> 'a \<Rightarrow> bool) \<Rightarrow> 'a list \<Rightarrow> 'a list" where
  "pops lt h = (if h = [] then [] else let (x, h') = heap_Pop lt h in x # pops lt h')"
  by pat_completeness auto
termination
  by (relation "measure (\<lambda>(lt, h). length h)") (auto intro: heap_Pop_shorter)

declare pops.simps [simp del]

lemma pops_Nil [simp]: "pops lt [] = []"
  by (simp add: pops.simps)

lemma pops_Pop: "h \<noteq> [] \<Longrightarrow> heap_Pop lt h = (x, h') \<Longrightarrow> pops lt h = x # pops lt h'"
  by (subst pops.simps) simp

lemma mset_pops [simp]: "mset (pops lt h) = mset h"
proof (induction lt h rule: pops.induct)
  case (1 lt h)
  then show ?case
    by (cases "heap_Pop lt h") (auto simp: pops.simps[of lt h] mset_heap_Pop)
qed

lemma set_pops [simp]: "set (pops lt h) = set h"
  by (metis mset_pops set_mset_mset)

section \<open>The heap property\<close>

locale heap_less =
  fixes lt :: "'a \<Rightarrow> 'a \<Rightarrow> bool"
  assumes asym: "lt a b \<Longrightarrow> \<not> lt b a"
    and negtrans: "\<not> lt a b \<Longrightarrow> \<not> lt b c \<Longrightarrow> \<not> lt a c"
begin

lemma irrefl: "\<not> lt a a"
  using asym by blast

lemma less_trans: "lt a b \<Longrightarrow> lt b c \<Longrightarrow> lt a c"
  using asym negtrans by blast

lemma less_notless_trans: "lt a b \<Longrightarrow> \<not> lt c b \<Longrightarrow> lt a c"
  using negtrans by blast

end

text \<open>
  \<open>heap_from lt h lo n\<close>: among the first \<open>n\<close> elements, none whose parent is at or after
  \<open>lo\<close> is before that parent. The two variants leave out one place: \<open>heap_but_up\<close> the pair
  of \<open>j\<close> and its parent, \<open>heap_but_down\<close> the pairs of \<open>i\<close> and its children; both relate the
  children of the place to its parent.
\<close>

definition parent :: "nat \<Rightarrow> nat" where
  "parent k = (k - 1) div 2"

definition heap_from :: "('a \<Rightarrow> 'a \<Rightarrow> bool) \<Rightarrow> 'a list \<Rightarrow> nat \<Rightarrow> nat \<Rightarrow> bool" where
  "heap_from lt h lo n \<longleftrightarrow>
     (\<forall>k. 0 < k \<and> k < n \<and> lo \<le> parent k \<longrightarrow> \<not> lt (h ! k) (h ! parent k))"

definition is_heap :: "('a \<Rightarrow> 'a \<Rightarrow> bool) \<Rightarrow> 'a list \<Rightarrow> bool" where
  "is_heap lt h \<longleftrightarrow> heap_from lt h 0 (length h)"

definition heap_but_up :: "('a \<Rightarrow> 'a \<Rightarrow> bool) \<Rightarrow> 'a list \<Rightarrow> nat \<Rightarrow> bool" where
  "heap_but_up lt h j \<longleftrightarrow>
     (\<forall>k. 0 < k \<and> k < length h \<and> k \<noteq> j \<longrightarrow> \<not> lt (h ! k) (h ! parent k)) \<and>
     (\<forall>k. 0 < k \<and> k < length h \<and> parent k = j \<and> 0 < j \<longrightarrow> \<not> lt (h ! k) (h ! parent j))"

definition heap_but_down :: "('a \<Rightarrow> 'a \<Rightarrow> bool) \<Rightarrow> 'a list \<Rightarrow> nat \<Rightarrow> nat \<Rightarrow> nat \<Rightarrow> bool" where
  "heap_but_down lt h lo i n \<longleftrightarrow>
     (\<forall>k. 0 < k \<and> k < n \<and> lo \<le> parent k \<and> parent k \<noteq> i \<longrightarrow> \<not> lt (h ! k) (h ! parent k)) \<and>
     (\<forall>k. 0 < k \<and> k < n \<and> parent k = i \<and> 0 < i \<and> lo \<le> parent i \<longrightarrow> \<not> lt (h ! k) (h ! parent i))"

lemma parent_less: "0 < k \<Longrightarrow> parent k < k"
  by (auto simp: parent_def)

lemma parent_child: "0 < k \<Longrightarrow> parent k = i \<longleftrightarrow> k = 2 * i + 1 \<or> k = 2 * i + 2"
  by (auto simp: parent_def)

lemma heap_from_take: "heap_from lt (take n h) lo n = heap_from lt h lo n" if "n \<le> length h"
proof -
  have "k < n \<Longrightarrow> 0 < k \<Longrightarrow> parent k < n" for k using parent_less[of k] by linarith
  then show ?thesis by (auto simp: heap_from_def)
qed

lemma heap_Nil [simp]: "is_heap lt []"
  by (simp add: is_heap_def heap_from_def)

context heap_less
begin

lemma up_step:
  assumes "heap_but_up lt h j" and "0 < j" and "j < length h" and "lt (h ! j) (h ! parent j)"
  shows "heap_but_up lt (swap h (parent j) j) (parent j)"
proof -
  let ?i = "parent j" and ?h = "swap h (parent j) j"
  have ij: "?i < j" "?i < length h" using assms(2,3) parent_less[of j] by linarith+
  have p: "0 < k \<Longrightarrow> k < length h \<Longrightarrow> parent k < length h \<and> parent k \<noteq> k" for k
    using parent_less[of k] by linarith
  have ok: "0 < k \<Longrightarrow> k < length h \<Longrightarrow> k \<noteq> j \<Longrightarrow> \<not> lt (h ! k) (h ! parent k)" for k
    using assms(1) by (simp add: heap_but_up_def)
  have grand: "0 < k \<Longrightarrow> k < length h \<Longrightarrow> parent k = j \<Longrightarrow> \<not> lt (h ! k) (h ! ?i)" for k
    using assms(1,2) by (simp add: heap_but_up_def)
  have nth: "k < length h \<Longrightarrow> ?h ! k = (if k = ?i then h ! j else if k = j then h ! ?i else h ! k)" for k
    using ij assms(3) by (simp add: nth_swap)
  have one: "\<not> lt (?h ! k) (?h ! parent k)" if "0 < k" "k < length h" "k \<noteq> ?i" for k
  proof -
    consider "k = j" | "k \<noteq> j" "parent k = j" | "k \<noteq> j" "parent k = ?i" | "k \<noteq> j" "parent k \<noteq> j" "parent k \<noteq> ?i"
      by blast
    then show ?thesis
    proof cases
      case 1
      then show ?thesis using nth ij assms(3,4) asym by simp
    next
      case 2
      then show ?thesis using nth that p[OF that(1,2)] grand[OF that(1,2)] ij by simp
    next
      case 3
      have "\<not> lt (h ! k) (h ! parent k)" by (rule ok[OF that(1,2) 3(1)])
      then have "\<not> lt (h ! k) (h ! j)" using assms(4) less_trans 3(2) by metis
      with 3 show ?thesis using nth that ij by simp
    next
      case 4
      then show ?thesis using nth that p[OF that(1,2)] ok[OF that(1,2)] by simp
    qed
  qed
  have two: "\<not> lt (?h ! k) (?h ! parent ?i)" if "0 < k" "k < length h" "parent k = ?i" "0 < ?i" for k
  proof -
    have "parent ?i < ?i" using that(4) parent_less by blast
    then have pp: "?h ! parent ?i = h ! parent ?i" using ij nth by auto
    have ii: "\<not> lt (h ! ?i) (h ! parent ?i)" using ok[of ?i] ij that(4) by simp
    have "\<not> lt (h ! k) (h ! parent ?i)" if "k \<noteq> j"
      using ii ok[of k] negtrans \<open>parent k = ?i\<close> \<open>0 < k\<close> \<open>k < length h\<close> that by metis
    then show ?thesis using ii pp nth[of k] that p[of k] by auto
  qed
  show ?thesis using one two by (simp add: heap_but_up_def)
qed

lemma up_heap: "heap_but_up lt h j \<Longrightarrow> j < length h \<Longrightarrow> is_heap lt (up lt h j)"
proof (induction j arbitrary: h rule: less_induct)
  case (less j)
  show ?case
  proof (cases "parent j = j \<or> \<not> lt (h ! j) (h ! parent j)")
    case True
    then have "up lt h j = h" by (subst up.simps) (simp add: parent_def)
    moreover have "is_heap lt h"
      using True less.prems parent_less by (fastforce simp: heap_but_up_def is_heap_def heap_from_def)
    ultimately show ?thesis by simp
  next
    case False
    then have j: "0 < j" by (cases j) (auto simp: parent_def)
    have "up lt h j = up lt (swap h (parent j) j) (parent j)"
      using False by (subst up.simps) (simp add: parent_def Let_def)
    moreover have "is_heap lt (up lt (swap h (parent j) j) (parent j))"
      by (rule less.IH) (use False up_step[OF less.prems(1) j less.prems(2)]
          parent_less[OF j] less.prems(2) in auto)
    ultimately show ?thesis by simp
  qed
qed

lemma down_step:
  assumes "heap_but_down lt h lo i n" and "lo \<le> i" and "n \<le> length h"
    and j: "parent j = i" "0 < j" "j < n" and first: "lt (h ! j) (h ! i)"
    and best: "\<And>k. 0 < k \<Longrightarrow> k < n \<Longrightarrow> parent k = i \<Longrightarrow> \<not> lt (h ! k) (h ! j)"
  shows "heap_but_down lt (swap h i j) lo j n"
proof -
  let ?h = "swap h i j"
  have ij: "i < j" "j < length h" "i < length h"
    using j assms(3) parent_less[of j] by auto
  have p: "0 < k \<Longrightarrow> parent k < k" for k by (rule parent_less)
  have ok: "0 < k \<Longrightarrow> k < n \<Longrightarrow> lo \<le> parent k \<Longrightarrow> parent k \<noteq> i \<Longrightarrow> \<not> lt (h ! k) (h ! parent k)" for k
    using assms(1) by (simp add: heap_but_down_def)
  have grand: "0 < i \<Longrightarrow> lo \<le> parent i \<Longrightarrow> \<not> lt (h ! j) (h ! parent i)"
    using assms(1) j by (simp add: heap_but_down_def)
  have nth: "k < length h \<Longrightarrow> ?h ! k = (if k = i then h ! j else if k = j then h ! i else h ! k)" for k
    using ij by (simp add: nth_swap)
  have one: "\<not> lt (?h ! k) (?h ! parent k)" if k: "0 < k" "k < n" "lo \<le> parent k" "parent k \<noteq> j" for k
  proof -
    have kl: "k < length h" "parent k < length h" using k assms(3) p[of k] by linarith+
    consider "k = i" | "k = j" | "k \<noteq> j" "parent k = i" | "k \<noteq> i" "k \<noteq> j" "parent k \<noteq> i"
      by blast
    then show ?thesis
    proof cases
      case 1
      then show ?thesis using nth kl grand k p[of k] ij by simp
    next
      case 2
      then show ?thesis using nth kl j first asym ij by simp
    next
      case 3
      then show ?thesis using nth kl best[of k] k p[of k] ij by simp
    next
      case 4
      then show ?thesis using nth kl ok[of k] k by simp
    qed
  qed
  have two: "\<not> lt (?h ! k) (?h ! parent j)" if "0 < k" "k < n" "parent k = j" for k
  proof -
    have "\<not> lt (h ! k) (h ! j)" using ok[of k] that ij assms(2) by simp
    moreover have "j < k" "k < length h" using that p[of k] assms(3) by auto
    ultimately show ?thesis using nth[of k] nth[of i] ij j by simp
  qed
  show ?thesis using one two by (simp add: heap_but_down_def)
qed

lemma down_heap:
  "heap_but_down lt h lo i n \<Longrightarrow> lo \<le> i \<Longrightarrow> n \<le> length h \<Longrightarrow> heap_from lt (down lt h i n) lo n"
proof (induction "n - i" arbitrary: h i rule: less_induct)
  case less
  note but = less.prems(1) and lo = less.prems(2) and n = less.prems(3)
  have kids: "0 < k \<Longrightarrow> parent k = i \<Longrightarrow> k = 2 * i + 1 \<or> k = 2 * i + 2" for k
    using parent_child by blast
  have others: "0 < k \<Longrightarrow> k < n \<Longrightarrow> lo \<le> parent k \<Longrightarrow> parent k \<noteq> i \<Longrightarrow> \<not> lt (h ! k) (h ! parent k)" for k
    using but by (simp add: heap_but_down_def)
  show ?case
  proof (cases "n \<le> 2 * i + 1")
    case True
    then have "down lt h i n = h" by (subst down.simps) simp
    moreover have "heap_from lt h lo n"
      using others kids True unfolding heap_from_def
      by (metis add_2_eq_Suc' add.commute le_SucI leD plus_1_eq_Suc Suc_eq_plus1)
    ultimately show ?thesis by simp
  next
    case False
    define j where "j = (if 2 * i + 2 < n \<and> lt (h ! (2 * i + 2)) (h ! (2 * i + 1)) then 2 * i + 2 else 2 * i + 1)"
    have j: "0 < j" "j < n" "parent j = i" "i < j"
      using False by (auto simp: j_def parent_def)
    have best: "\<not> lt (h ! k) (h ! j)" if "0 < k" "k < n" "parent k = i" for k
      using kids[OF that(1,3)] that(2) by (auto simp: j_def irrefl dest: asym)
    have step: "down lt h i n = (if \<not> lt (h ! j) (h ! i) then h else down lt (swap h i j) j n)"
      using False by (subst down.simps) (simp add: Let_def j_def)
    show ?thesis
    proof (cases "lt (h ! j) (h ! i)")
      case True
      have "heap_but_down lt (swap h i j) lo j n"
        by (rule down_step[OF but lo n j(3,1,2) True best])
      moreover have "n - j < n - i" "lo \<le> j" "n \<le> length (swap h i j)" using j lo n by auto
      ultimately show ?thesis using less.hyps step True by simp
    next
      case False
      have "\<not> lt (h ! k) (h ! parent k)" if "0 < k" "k < n" "lo \<le> parent k" for k
        using others[of k] best[of k] False negtrans that by metis
      then show ?thesis using step False by (simp add: heap_from_def)
    qed
  qed
qed

lemma init_loop_heap: "heap_from lt h k (length h) \<Longrightarrow> is_heap lt (init_loop lt k h)"
proof (induction k arbitrary: h)
  case 0
  then show ?case by (simp add: is_heap_def)
next
  case (Suc k)
  have "heap_but_down lt h k k (length h)"
    using Suc.prems parent_less[of k]
    by (auto simp: heap_from_def heap_but_down_def dest: le_neq_implies_less)
  then have "heap_from lt (down lt h k (length h)) k (length h)" by (rule down_heap) auto
  then show ?case using Suc.IH[of "down lt h k (length h)"] by simp
qed

lemma heap_Init_heap: "is_heap lt (heap_Init lt h)"
  unfolding heap_Init_def
  by (rule init_loop_heap) (auto simp: heap_from_def parent_def)

lemma heap_Push_heap: "is_heap lt h \<Longrightarrow> is_heap lt (heap_Push lt x h)"
proof -
  assume "is_heap lt h"
  moreover have "k < Suc (length h) \<Longrightarrow> 0 < k \<Longrightarrow> k \<noteq> length h \<Longrightarrow> k < length h \<and> parent k < length h" for k
    using parent_less[of k] by linarith
  moreover have "0 < k \<Longrightarrow> k < Suc (length h) \<Longrightarrow> parent k \<noteq> length h" for k
    using parent_less[of k] by linarith
  ultimately have "heap_but_up lt (h @ [x]) (length h)"
    by (auto simp: is_heap_def heap_from_def heap_but_up_def nth_append)
  then have "is_heap lt (up lt (h @ [x]) (length h))" by (rule up_heap) simp
  then show ?thesis by (simp add: heap_Push_def)
qed

lemma heap_Pop_heap:
  assumes "is_heap lt h" and "heap_Pop lt h = (x, h')" and "h \<noteq> []"
  shows "is_heap lt h'"
proof -
  define n where "n = length h - 1"
  have n: "n < length h" "length h = Suc n" using assms(3) by (auto simp: n_def)
  have "\<not> lt (swap h 0 n ! k) (swap h 0 n ! parent k)" if "0 < k" "k < n" "parent k \<noteq> 0" for k
    using assms(1) n that parent_less[OF that(1)] by (simp add: is_heap_def heap_from_def nth_swap)
  then have "heap_but_down lt (swap h 0 n) 0 0 n" by (simp add: heap_but_down_def)
  then have "heap_from lt (down lt (swap h 0 n) 0 n) 0 n" by (rule down_heap) (use n in auto)
  then have "heap_from lt h' 0 n"
    using assms(2) n(2) by (auto simp: heap_Pop_def Let_def heap_from_take)
  moreover have "length h' = n" using length_heap_Pop[OF assms(2,3)] n by simp
  ultimately show ?thesis by (simp add: is_heap_def)
qed

lemma heap_root:
  assumes "is_heap lt h" and "k < length h"
  shows "\<not> lt (h ! k) (h ! 0)"
  using assms(2)
proof (induction k rule: less_induct)
  case (less k)
  show ?case
  proof (cases "k = 0")
    case True
    then show ?thesis by (simp add: irrefl)
  next
    case False
    then have k: "\<not> lt (h ! k) (h ! parent k)" "parent k < k"
      using assms(1) less.prems parent_less[of k] by (auto simp: is_heap_def heap_from_def)
    then have "\<not> lt (h ! parent k) (h ! 0)" using less.IH[of "parent k"] less.prems by simp
    with k(1) show ?thesis by (rule negtrans)
  qed
qed

lemma heap_Pop_least:
  assumes "is_heap lt h" and "heap_Pop lt h = (x, h')" and "h \<noteq> []" and "y \<in> set h"
  shows "\<not> lt y x"
  using heap_root[OF assms(1)] heap_Pop_root[OF assms(2,3)] assms(4)
  by (metis in_set_conv_nth)

lemma sorted_pops: "is_heap lt h \<Longrightarrow> sorted_wrt (\<lambda>a b. \<not> lt b a) (pops lt h)"
proof (induction "length h" arbitrary: h rule: less_induct)
  case less
  show ?case
  proof (cases "h = []")
    case False
    obtain x h' where pop: "heap_Pop lt h = (x, h')" by fastforce
    have "sorted_wrt (\<lambda>a b. \<not> lt b a) (pops lt h')"
      by (rule less.hyps) (use length_heap_Pop[OF pop False] heap_Pop_heap[OF less.prems pop False] in auto)
    moreover have "y \<in> set h' \<Longrightarrow> \<not> lt y x" for y
      using heap_Pop_least[OF less.prems pop False] mset_heap_Pop[OF pop False]
      by (metis insert_iff set_mset_add_mset_insert set_mset_mset)
    ultimately show ?thesis using pops_Pop[OF False pop] by simp
  qed simp
qed

end

end
