(* ===== verification/QPriority.thy ===== *)
theory QPriority
  imports QTicket GoHeap
begin

text \<open>
  \<^verbatim>\<open>queue/priority.go\<close>: the queue over \<open>container/heap\<close>. Higher \<open>Priority\<close> first, ties by the
  earlier \<open>EnqueuedAt\<close>. \<open>PopWhere\<close> pops everything in that order, tests each ticket and pushes
  the rejected ones back.
\<close>

record prioq =
  pheap :: "ticket list"
  pmaxSize :: int

definition ticket_Less :: "ticket \<Rightarrow> ticket \<Rightarrow> bool" where
  "ticket_Less a b =
     (if Priority a \<noteq> Priority b then Priority a > Priority b
      else EnqueuedAt a < EnqueuedAt b)"

text \<open>\<open>make(priorityHeap, 0, maxSize)\<close> panics on a negative capacity.\<close>

definition NewPriority :: "int \<Rightarrow> prioq outcome" where
  "NewPriority maxSize =
     (if maxSize < 0 then Panic ''makeslice: cap out of range''
      else Ok \<lparr>pheap = heap_Init ticket_Less [], pmaxSize = maxSize\<rparr>)"

definition prio_Push :: "ticket \<Rightarrow> prioq \<Rightarrow> bool \<times> prioq" where
  "prio_Push t q =
     (if pmaxSize q \<le> int (length (pheap q)) then (False, q)
      else (True, q\<lparr>pheap := heap_Push ticket_Less t (pheap q)\<rparr>))"

definition prio_Pop :: "prioq \<Rightarrow> ticket option \<times> prioq" where
  "prio_Pop q =
     (if length (pheap q) = 0 then (None, q)
      else let (t, h) = heap_Pop ticket_Less (pheap q) in (Some t, q\<lparr>pheap := h\<rparr>))"

function prio_drain ::
  "('s \<Rightarrow> ticket \<Rightarrow> bool \<times> 's) \<Rightarrow> 's \<Rightarrow> ticket list \<Rightarrow> ticket list \<Rightarrow> ticket list \<Rightarrow>
   ticket list \<times> ticket list \<times> 's" where
  "prio_drain fn s h matched keep =
     (if h = [] then (matched, keep, s)
      else let (t, h') = heap_Pop ticket_Less h; (b, s') = fn s t
           in if b then prio_drain fn s' h' (matched @ [t]) keep
              else prio_drain fn s' h' matched (keep @ [t]))"
  by pat_completeness auto
termination
  by (relation "measure (\<lambda>(fn, s, h, matched, keep). length h)") (auto intro: heap_Pop_shorter)

declare prio_drain.simps [simp del]

definition prio_PopWhere :: "('s \<Rightarrow> ticket \<Rightarrow> bool \<times> 's) \<Rightarrow> 's \<Rightarrow> prioq \<Rightarrow> ticket list \<times> 's \<times> prioq" where
  "prio_PopWhere fn s q =
     (let (matched, keep, s') = prio_drain fn s (pheap q) [] []
      in (matched, s', q\<lparr>pheap := fold (heap_Push ticket_Less) keep []\<rparr>))"

definition prio_Len :: "prioq \<Rightarrow> nat" where
  "prio_Len q = length (pheap q)"

interpretation tickets: heap_less ticket_Less
  by unfold_locales (auto simp: ticket_Less_def split: if_splits)

definition prio_wf :: "prioq \<Rightarrow> bool" where
  "prio_wf q \<longleftrightarrow> is_heap ticket_Less (pheap q)"

text \<open>A serve order: no ticket comes after one that is strictly less urgent.\<close>

definition by_urgency :: "ticket list \<Rightarrow> bool" where
  "by_urgency ts \<longleftrightarrow> sorted_wrt (\<lambda>a b. \<not> ticket_Less b a) ts"

definition prio_serves :: "prioq \<Rightarrow> ticket list \<Rightarrow> bool" where
  "prio_serves q ts \<longleftrightarrow> mset ts = mset (pheap q) \<and> by_urgency ts"

lemma prio_wf_New: "NewPriority n = Ok q \<Longrightarrow> prio_wf q"
  by (auto simp: NewPriority_def prio_wf_def tickets.heap_Init_heap split: if_splits)

lemma prio_drain_sfilter:
  "prio_drain fn s h matched keep =
     (let (m, r, s') = sfilter fn s (pops ticket_Less h) in (matched @ m, keep @ r, s'))"
proof (induction fn s h matched keep rule: prio_drain.induct)
  case (1 fn s h matched keep)
  show ?case
  proof (cases "h = []")
    case True
    then show ?thesis by (simp add: prio_drain.simps)
  next
    case False
    obtain t h' where pop: "heap_Pop ticket_Less h = (t, h')" by fastforce
    obtain b s' where fn: "fn s t = (b, s')" by fastforce
    show ?thesis
      using "1.IH"(1)[OF False pop[symmetric] refl fn[symmetric] refl]
        "1.IH"(2)[OF False pop[symmetric] refl fn[symmetric] refl] False
      by (subst prio_drain.simps) (simp add: pop fn pops_Pop[OF False pop] Let_def split: prod.splits)
  qed
qed

lemma fold_heap_Push:
  "is_heap ticket_Less h \<Longrightarrow>
   is_heap ticket_Less (fold (heap_Push ticket_Less) ts h)
   \<and> mset (fold (heap_Push ticket_Less) ts h) = mset ts + mset h"
  by (induction ts arbitrary: h) (auto simp: tickets.heap_Push_heap)

lemma prio_PopWhere_sfilter:
  "sfilter fn s (pops ticket_Less (pheap q)) = (m, r, s') \<Longrightarrow>
   prio_PopWhere fn s q = (m, s', q\<lparr>pheap := fold (heap_Push ticket_Less) r []\<rparr>)"
  by (simp add: prio_PopWhere_def prio_drain_sfilter)

lemma prio_serves_pops: "prio_wf q \<Longrightarrow> prio_serves q (pops ticket_Less (pheap q))"
  by (simp add: prio_serves_def prio_wf_def by_urgency_def tickets.sorted_pops)

lemma prio_Pop_next:
  assumes "prio_wf q" and "pheap q \<noteq> []"
  shows "\<exists>t q'. prio_Pop q = (Some t, q') \<and> prio_wf q' \<and> pmaxSize q' = pmaxSize q
    \<and> pops ticket_Less (pheap q) = t # pops ticket_Less (pheap q')"
proof -
  obtain t h' where pop: "heap_Pop ticket_Less (pheap q) = (t, h')" by fastforce
  then show ?thesis
    using assms tickets.heap_Pop_heap[OF _ pop assms(2)] pops_Pop[OF assms(2) pop]
    by (auto simp: prio_Pop_def prio_wf_def)
qed

interpretation prioq: sched_queue "\<lambda>_. prio_Push" "\<lambda>_. prio_Pop" prio_PopWhere prio_Len pmaxSize
  "\<lambda>q. mset (pheap q)" prio_serves prio_wf
proof (unfold_locales, goal_cases)
  case (2 q ts)
  then show ?case by (simp add: prio_serves_def)
next
  case (4 q g t)
  then show ?case by (auto simp: prio_Push_def prio_Len_def prio_wf_def tickets.heap_Push_heap)
next
  case (6 q r)
  then have "pheap q \<noteq> []" by (auto simp: prio_Len_def)
  then show ?case using prio_Pop_next[OF 6(1)] prio_serves_pops 6(1) by metis
next
  case (7 q fn s)
  obtain m r s' where scan: "sfilter fn s (pops ticket_Less (pheap q)) = (m, r, s')"
    by (cases "sfilter fn s (pops ticket_Less (pheap q))")
  have "is_heap ticket_Less (fold (heap_Push ticket_Less) r [])"
    "mset (fold (heap_Push ticket_Less) r []) = mset r"
    using fold_heap_Push[of "[]" r] by auto
  then show ?case
    using prio_PopWhere_sfilter[OF scan] prio_serves_pops[OF 7] scan
    by (fastforce simp: prio_wf_def)
qed (auto simp: prio_Len_def prio_Push_def prio_Pop_def)

end
