(* ===== verification/QScheduler.thy ===== *)
theory QScheduler
  imports QFifo QLifo QRandom QPriority
begin

text \<open>
  \<^verbatim>\<open>queue/queue.go\<close>: the factory \<open>New\<close> and the dynamic dispatch of the \<open>Queue\<close> interface, as
  a sum of the four schedulers. The sum interprets \<open>sched_queue\<close>, so everything the interface
  promises holds for whatever \<open>New\<close> returns; sequences of operations are runs over it.
\<close>

datatype queue =
    FIFOQueue fifo
  | LIFOQueue lifo
  | PriorityQueue prioq
  | RandomQueue randomq

definition queue_New :: "string \<Rightarrow> int \<Rightarrow> queue outcome" where
  "queue_New scheduler maxSize =
     (if scheduler = ''fifo'' then Ok (FIFOQueue (NewFIFO maxSize))
      else if scheduler = ''lifo'' then Ok (LIFOQueue (NewLIFO maxSize))
      else if scheduler = ''priority'' then
        (case NewPriority maxSize of Ok q \<Rightarrow> Ok (PriorityQueue q) | Err e \<Rightarrow> Err e | Panic m \<Rightarrow> Panic m)
      else if scheduler = ''random'' then Ok (RandomQueue (NewRandom maxSize))
      else Err (UnknownScheduler scheduler))"

fun q_Push :: "nat \<Rightarrow> ticket \<Rightarrow> queue \<Rightarrow> bool \<times> queue" where
  "q_Push slack t (FIFOQueue q) = apsnd FIFOQueue (fifo_Push slack t q)"
| "q_Push slack t (LIFOQueue q) = apsnd LIFOQueue (lifo_Push t q)"
| "q_Push slack t (PriorityQueue q) = apsnd PriorityQueue (prio_Push t q)"
| "q_Push slack t (RandomQueue q) = apsnd RandomQueue (random_Push t q)"

fun q_Pop :: "nat \<Rightarrow> queue \<Rightarrow> ticket option \<times> queue" where
  "q_Pop r (FIFOQueue q) = apsnd FIFOQueue (fifo_Pop q)"
| "q_Pop r (LIFOQueue q) = apsnd LIFOQueue (lifo_Pop q)"
| "q_Pop r (PriorityQueue q) = apsnd PriorityQueue (prio_Pop q)"
| "q_Pop r (RandomQueue q) = apsnd RandomQueue (random_Pop r q)"

fun q_PopWhere :: "('s \<Rightarrow> ticket \<Rightarrow> bool \<times> 's) \<Rightarrow> 's \<Rightarrow> queue \<Rightarrow> ticket list \<times> 's \<times> queue" where
  "q_PopWhere fn s (FIFOQueue q) = apsnd (apsnd FIFOQueue) (fifo_PopWhere fn s q)"
| "q_PopWhere fn s (LIFOQueue q) = apsnd (apsnd LIFOQueue) (lifo_PopWhere fn s q)"
| "q_PopWhere fn s (PriorityQueue q) = apsnd (apsnd PriorityQueue) (prio_PopWhere fn s q)"
| "q_PopWhere fn s (RandomQueue q) = apsnd (apsnd RandomQueue) (random_PopWhere fn s q)"

fun q_Len :: "queue \<Rightarrow> nat" where
  "q_Len (FIFOQueue q) = fifo_Len q"
| "q_Len (LIFOQueue q) = lifo_Len q"
| "q_Len (PriorityQueue q) = prio_Len q"
| "q_Len (RandomQueue q) = random_Len q"

fun q_maxSize :: "queue \<Rightarrow> int" where
  "q_maxSize (FIFOQueue q) = fmaxSize q"
| "q_maxSize (LIFOQueue q) = lmaxSize q"
| "q_maxSize (PriorityQueue q) = pmaxSize q"
| "q_maxSize (RandomQueue q) = rmaxSize q"

fun q_content :: "queue \<Rightarrow> ticket multiset" where
  "q_content (FIFOQueue q) = mset (fitems q)"
| "q_content (LIFOQueue q) = mset (litems q)"
| "q_content (PriorityQueue q) = mset (pheap q)"
| "q_content (RandomQueue q) = mset (ritems q)"

fun q_serves :: "queue \<Rightarrow> ticket list \<Rightarrow> bool" where
  "q_serves (FIFOQueue q) ts \<longleftrightarrow> ts = fitems q"
| "q_serves (LIFOQueue q) ts \<longleftrightarrow> ts = rev (litems q)"
| "q_serves (PriorityQueue q) ts \<longleftrightarrow> prio_serves q ts"
| "q_serves (RandomQueue q) ts \<longleftrightarrow> mset ts = mset (ritems q)"

fun q_wf :: "queue \<Rightarrow> bool" where
  "q_wf (FIFOQueue q) = fifo_wf q"
| "q_wf (LIFOQueue q) = True"
| "q_wf (PriorityQueue q) = prio_wf q"
| "q_wf (RandomQueue q) = True"

lemmas push_full_laws = fifoq.push_full lifoq.push_full prioq.push_full randomq.push_full
lemmas pop_empty_laws = fifoq.pop_empty lifoq.pop_empty prioq.pop_empty randomq.pop_empty

interpretation q: sched_queue q_Push q_Pop q_PopWhere q_Len q_maxSize q_content q_serves q_wf
proof (unfold_locales, goal_cases)
  case (1 q)
  then show ?case
    by (cases q) (auto simp: fifo_Len_def lifo_Len_def prio_Len_def random_Len_def)
next
  case (2 q ts)
  then show ?case
    by (cases q) (auto simp: prio_serves_def)
next
  case (3 q g t)
  then show ?case
    by (cases q) (auto simp: push_full_laws)
next
  case (4 q g t)
  show ?case
  proof (cases q)
    case (FIFOQueue x)
    then show ?thesis using fifoq.push_room[of x g t] 4 by auto
  next
    case (LIFOQueue x)
    then show ?thesis using lifoq.push_room[of x t] 4 by auto
  next
    case (PriorityQueue x)
    then show ?thesis using prioq.push_room[of x t] 4 by auto
  next
    case (RandomQueue x)
    then show ?thesis using randomq.push_room[of x t] 4 by auto
  qed
next
  case (5 q r)
  then show ?case
    by (cases q) (auto simp: pop_empty_laws)
next
  case (6 q r)
  show ?case
  proof (cases q)
    case (FIFOQueue x)
    then show ?thesis using fifoq.pop_next[of x] 6 by auto
  next
    case (LIFOQueue x)
    then show ?thesis using lifoq.pop_next[of x] 6 by auto
  next
    case (PriorityQueue x)
    then show ?thesis using prioq.pop_next[of x] 6 by auto
  next
    case (RandomQueue x)
    then show ?thesis using randomq.pop_next[of x r] 6 by auto
  qed
next
  case (7 q fn s)
  show ?case
  proof (cases q)
    case (FIFOQueue x)
    then show ?thesis using fifoq.popwhere_scan[of x fn s] 7 by fastforce
  next
    case (LIFOQueue x)
    then show ?thesis using lifoq.popwhere_scan[of x fn s] by fastforce
  next
    case (PriorityQueue x)
    then show ?thesis using prioq.popwhere_scan[of x fn s] 7 by fastforce
  next
    case (RandomQueue x)
    then show ?thesis using randomq.popwhere_scan[of x fn s] by fastforce
  qed
qed

lemma queue_New_Ok:
  assumes "queue_New scheduler n = Ok q"
  shows "q_wf q" "q_Len q = 0" "q_maxSize q = n" "q_content q = {#}"
  using assms
  by (auto simp: queue_New_def NewFIFO_def NewLIFO_def NewRandom_def NewPriority_def fifo_wf_def
      fifo_Len_def lifo_Len_def random_Len_def prio_Len_def prio_wf_def split: if_splits)

section \<open>Sequences of operations\<close>

text \<open>
  A run of operations as the handlers and the dispatcher issue them, the lock of the queue
  serialising them. It threads the state of the \<open>PopWhere\<close> predicate and records, in order,
  the tickets that \<open>Push\<close> accepted and the tickets that \<open>Pop\<close> and \<open>PopWhere\<close> handed out.
\<close>

datatype queue_op = OpPush nat ticket | OpPop nat | OpPopWhere

fun run_op ::
  "('s \<Rightarrow> ticket \<Rightarrow> bool \<times> 's) \<Rightarrow> queue_op \<Rightarrow> 's \<times> queue \<Rightarrow>
   ticket list \<times> ticket list \<times> 's \<times> queue" where
  "run_op fn (OpPush g t) (s, q) =
     (let (ok, q') = q_Push g t q in (if ok then [t] else [], [], s, q'))"
| "run_op fn (OpPop r) (s, q) =
     (let (x, q') = q_Pop r q in ([], case x of None \<Rightarrow> [] | Some t \<Rightarrow> [t], s, q'))"
| "run_op fn OpPopWhere (s, q) = (let (m, s', q') = q_PopWhere fn s q in ([], m, s', q'))"

fun run_ops ::
  "('s \<Rightarrow> ticket \<Rightarrow> bool \<times> 's) \<Rightarrow> queue_op list \<Rightarrow> 's \<times> queue \<Rightarrow>
   ticket list \<times> ticket list \<times> 's \<times> queue" where
  "run_ops fn [] (s, q) = ([], [], s, q)"
| "run_ops fn (x # xs) (s, q) =
     (let (acc, out, s1, q1) = run_op fn x (s, q);
          (acc', out', s2, q2) = run_ops fn xs (s1, q1)
      in (acc @ acc', out @ out', s2, q2))"

lemma run_op_step:
  assumes "run_op fn x (s, q) = (acc, out, s', q')" and "q_wf q"
  shows "q_wf q' \<and> q_maxSize q' = q_maxSize q
    \<and> q_content q + mset acc = mset out + q_content q'
    \<and> (int (q_Len q) \<le> q_maxSize q \<longrightarrow> int (q_Len q') \<le> q_maxSize q')"
proof (cases x)
  case (OpPush g t)
  show ?thesis
    by (rule q.push_cases[OF assms(2), of g t]) (use assms OpPush in auto)
next
  case (OpPop r)
  show ?thesis
    by (rule q.pop_cases[OF assms(2), of r]) (use assms OpPop in auto)
next
  case OpPopWhere
  show ?thesis
    by (rule q.popwhere_cases[OF assms(2), of fn s]) (use assms OpPopWhere in auto)
qed

lemma run_ops_invariant:
  assumes "run_ops fn xs (s, q) = (acc, out, s', q')" and "q_wf q"
  shows "q_wf q' \<and> q_maxSize q' = q_maxSize q
    \<and> q_content q + mset acc = mset out + q_content q'
    \<and> (int (q_Len q) \<le> q_maxSize q \<longrightarrow> int (q_Len q') \<le> q_maxSize q')"
  using assms
proof (induction fn xs "(s, q)" arbitrary: s q acc out rule: run_ops.induct)
  case (1 fn s q)
  then show ?case by simp
next
  case (2 fn x xs s q)
  obtain a o1 s1 q1 where one: "run_op fn x (s, q) = (a, o1, s1, q1)" by (metis prod_cases4)
  obtain a' o' s2 q2 where rest: "run_ops fn xs (s1, q1) = (a', o', s2, q2)" by (metis prod_cases4)
  have r: "acc = a @ a'" "out = o1 @ o'" "s' = s2" "q' = q2" using "2.prems"(1) one rest by auto
  note step = run_op_step[OF one "2.prems"(2)]
  have "q_wf q' \<and> q_maxSize q' = q_maxSize q1 \<and> q_content q1 + mset a' = mset o' + q_content q'
    \<and> (int (q_Len q1) \<le> q_maxSize q1 \<longrightarrow> int (q_Len q') \<le> q_maxSize q')"
    by (rule "2.hyps"[OF one[symmetric] refl refl refl]) (use step rest r in auto)
  with step show ?case by (auto simp: r algebra_simps)
qed

lemma run_ops_fifo:
  assumes "run_ops fn xs (s, FIFOQueue f) = (acc, out, s', q')" and "OpPopWhere \<notin> set xs"
  shows "\<exists>f'. q' = FIFOQueue f' \<and> fitems f @ acc = out @ fitems f'"
  using assms
proof (induction xs arbitrary: s f acc out)
  case Nil
  then show ?case by auto
next
  case (Cons x xs)
  obtain a o1 s1 q1 where one: "run_op fn x (s, FIFOQueue f) = (a, o1, s1, q1)" by (metis prod_cases4)
  have "\<exists>f1. q1 = FIFOQueue f1 \<and> fitems f @ a = o1 @ fitems f1"
    using one Cons.prems(2)
    by (cases x) (auto simp: fifo_Push_def fifo_Pop_def Let_def split: list.splits if_splits)
  then obtain f1 where f1: "q1 = FIFOQueue f1" "fitems f @ a = o1 @ fitems f1" by blast
  obtain a' o' s2 q2 where rest: "run_ops fn xs (s1, q1) = (a', o', s2, q2)" by (metis prod_cases4)
  then obtain f2 where "q2 = FIFOQueue f2" "fitems f1 @ a' = o' @ fitems f2"
    using Cons.IH[of s1 f1 a' o'] Cons.prems f1 one by auto
  then show ?case using Cons.prems(1) one rest f1(2) by auto (metis append.assoc)
qed

lemma run_ops_priority:
  "run_ops fn xs (s, PriorityQueue p) = (acc, out, s', q') \<Longrightarrow> \<exists>p'. q' = PriorityQueue p'"
proof (induction xs arbitrary: s p acc out)
  case Nil
  then show ?case by auto
next
  case (Cons x xs)
  obtain a o1 s1 q1 where one: "run_op fn x (s, PriorityQueue p) = (a, o1, s1, q1)" by (metis prod_cases4)
  then have "\<exists>p1. q1 = PriorityQueue p1" by (cases x) (auto simp: apsnd_def map_prod_def split: prod.splits)
  then show ?case
    using Cons.IH Cons.prems one by (auto split: prod.splits)
qed

section \<open>Properties\<close>

text \<open>
  C1. No ticket is lost, duplicated or invented, and the bound holds: after any sequence of
  Push, Pop and PopWhere on a queue made by \<open>New\<close>, with any scheduler, the accepted tickets are
  exactly those handed out and those still queued, and \<open>Len\<close> is at most \<open>maxSize\<close>.
\<close>

theorem queue_conserves_tickets:
  assumes "queue_New scheduler n = Ok q0" and "0 \<le> n"
    and "run_ops fn ops (s0, q0) = (accepted, served, s, q)"
  shows "mset accepted = mset served + q_content q \<and> int (q_Len q) \<le> n"
  using run_ops_invariant[OF assms(3)] queue_New_Ok[OF assms(1)] assms(2) by simp

definition demo_ticket :: "nat \<Rightarrow> int \<Rightarrow> int \<Rightarrow> ticket" where
  "demo_ticket i p c = \<lparr>tid = i, Priority = p, EnqueuedAt = int i, Cost = c\<rparr>"

theorem queue_conserves_tickets_witness:
  "mset [demo_ticket 1 0 1, demo_ticket 2 0 1]
     = mset [demo_ticket 2 0 1] + q_content (LIFOQueue \<lparr>litems = [demo_ticket 1 0 1], lmaxSize = 2\<rparr>)
   \<and> int (q_Len (LIFOQueue \<lparr>litems = [demo_ticket 1 0 1], lmaxSize = 2\<rparr>)) \<le> 2"
  by (rule queue_conserves_tickets[of "''lifo''" 2 "LIFOQueue (NewLIFO 2)" "\<lambda>(s::unit) t. (False, s)"
        "[OpPush 0 (demo_ticket 1 0 1), OpPush 0 (demo_ticket 2 0 1), OpPush 0 (demo_ticket 3 0 1), OpPop 0]"
        "()" _ _ "()"])
    (simp_all add: queue_New_def NewLIFO_def lifo_Push_def lifo_Pop_def)

text \<open>
  C31. FIFO order: over any interleaving of pushes and pops on a fresh FIFO queue, the tickets
  served so far followed by the tickets still queued are the accepted tickets in the order of
  their acceptance.
\<close>

theorem fifo_serves_in_arrival_order:
  assumes "OpPopWhere \<notin> set ops"
    and "run_ops fn ops (s0, FIFOQueue (NewFIFO n)) = (accepted, served, s, q)"
  shows "\<exists>f. q = FIFOQueue f \<and> accepted = served @ fitems f"
  using run_ops_fifo[OF assms(2,1)] by (simp add: NewFIFO_def)

theorem fifo_serves_in_arrival_order_witness:
  "\<exists>f. FIFOQueue \<lparr>fitems = [demo_ticket 2 0 0], fcap = 1, fmaxSize = 5\<rparr> = FIFOQueue f
     \<and> [demo_ticket 1 0 0, demo_ticket 2 0 0] = [demo_ticket 1 0 0] @ fitems f"
  by (rule fifo_serves_in_arrival_order[of
        "[OpPush 0 (demo_ticket 1 0 0), OpPush 0 (demo_ticket 2 0 0), OpPop 0]"
        "\<lambda>(s::unit) t. (False, s)" "()" 5 _ _ "()"])
    (simp_all add: NewFIFO_def fifo_Push_def fifo_Pop_def append_cap_def)

text \<open>
  C29. Priority order: whatever happened to a priority queue made by \<open>New\<close>, the ticket \<open>Pop\<close>
  returns is one than which no queued ticket is more urgent (a higher priority, or the same
  priority and an earlier enqueue time).
\<close>

theorem priority_pops_most_urgent:
  assumes "queue_New ''priority'' n = Ok q0"
    and "run_ops fn ops (s0, q0) = (accepted, served, s, q)"
    and "q_Pop r q = (Some t, q')" and "u \<in># q_content q"
  shows "\<not> ticket_Less u t"
proof -
  obtain p0 where "q0 = PriorityQueue p0"
    using assms(1) by (auto simp: queue_New_def split: outcome.splits)
  then obtain p where p: "q = PriorityQueue p" using run_ops_priority[of fn ops s0 p0] assms(2) by blast
  have wf: "q_wf q" using run_ops_invariant[OF assms(2)] queue_New_Ok[OF assms(1)] by simp
  obtain ts where "q_serves q (t # ts)"
    by (rule q.pop_cases[OF wf, of r]) (use assms(3) in auto)
  then have "by_urgency (t # ts)" "mset (t # ts) = q_content q" by (auto simp: p prio_serves_def)
  then show ?thesis
    using assms(4) by (auto simp: by_urgency_def tickets.irrefl simp flip: \<open>mset (t # ts) = q_content q\<close>)
qed

text \<open>
  C30. Selective pops decide in serve order: for every queue the operations keep well formed,
  \<open>PopWhere\<close> behaves as testing the tickets one by one in an order in which the queue may
  serve them, handing out the accepted ones in that order and keeping exactly the others.
\<close>

theorem popwhere_tests_in_serve_order:
  assumes "queue_New scheduler n = Ok q0"
    and "run_ops fn0 ops (s0, q0) = (accepted, served, s1, q)"
    and "q_PopWhere fn s q = (matched, s', q')"
  shows "\<exists>ts rest. q_serves q ts \<and> sfilter fn s ts = (matched, rest, s') \<and> q_content q' = mset rest"
proof -
  have wf: "q_wf q" using run_ops_invariant[OF assms(2)] queue_New_Ok[OF assms(1)] by simp
  show ?thesis by (rule q.popwhere_cases[OF wf, of fn s]) (use assms(3) in auto)
qed

text \<open>Witnesses of C3 and C4: three tickets pushed on a fresh priority queue.\<close>

definition demo_ops :: "queue_op list" where
  "demo_ops = [OpPush 0 (demo_ticket 1 0 5), OpPush 0 (demo_ticket 2 7 9), OpPush 0 (demo_ticket 3 7 1)]"

definition demo_prio :: queue where
  "demo_prio = PriorityQueue
     \<lparr>pheap = [demo_ticket 2 7 9, demo_ticket 1 0 5, demo_ticket 3 7 1], pmaxSize = 3\<rparr>"

definition demo_spend :: "int \<Rightarrow> ticket \<Rightarrow> bool \<times> int" where
  "demo_spend budget t = (if Cost t \<le> budget then (True, budget - Cost t) else (False, budget))"

lemma demo_New: "queue_New ''priority'' 3 = Ok (PriorityQueue \<lparr>pheap = [], pmaxSize = 3\<rparr>)"
  by (simp add: queue_New_def NewPriority_def)

lemma demo_run:
  "run_ops demo_spend demo_ops (0, PriorityQueue \<lparr>pheap = [], pmaxSize = 3\<rparr>)
     = ([demo_ticket 1 0 5, demo_ticket 2 7 9, demo_ticket 3 7 1], [], 0, demo_prio)"
  by code_simp

lemma demo_Pop:
  "q_Pop 0 demo_prio = (Some (demo_ticket 2 7 9),
     PriorityQueue \<lparr>pheap = [demo_ticket 3 7 1, demo_ticket 1 0 5], pmaxSize = 3\<rparr>)"
  by code_simp

lemma demo_PopWhere:
  "q_PopWhere demo_spend 9 demo_prio = ([demo_ticket 2 7 9], 0,
     PriorityQueue \<lparr>pheap = [demo_ticket 3 7 1, demo_ticket 1 0 5], pmaxSize = 3\<rparr>)"
  by code_simp

theorem priority_pops_most_urgent_witness:
  "\<not> ticket_Less (demo_ticket 1 0 5) (demo_ticket 2 7 9)"
  by (rule priority_pops_most_urgent[OF demo_New demo_run demo_Pop]) (simp add: demo_prio_def)

theorem popwhere_tests_in_serve_order_witness:
  "\<exists>ts rest. q_serves demo_prio ts
     \<and> sfilter demo_spend 9 ts = ([demo_ticket 2 7 9], rest, 0)
     \<and> q_content (PriorityQueue \<lparr>pheap = [demo_ticket 3 7 1, demo_ticket 1 0 5], pmaxSize = 3\<rparr>) = mset rest"
  by (rule popwhere_tests_in_serve_order[OF demo_New demo_run demo_PopWhere])

end
