(* ===== verification/GoNum.thy ===== *)
theory GoNum
  imports Complex_Main Prelude "HOL-Library.Word"
begin

text \<open>
  The machine numbers of the Go code. \<open>int\<close>, \<open>int64\<close> and \<open>time.Duration\<close> are 64-bit two's
  complement: values are HOL integers and \<open>i64\<close> is the wrap-around of an operation that may
  leave the range. \<open>float64\<close> is IEEE binary64 with rounding to nearest, ties to even,
  subnormals and overflow; the sign of a zero, which the program never observes (it divides
  by positive numbers only), is not kept.
\<close>

section \<open>64-bit integers\<close>

definition i64 :: "int \<Rightarrow> int" where
  "i64 x = (x + 2 ^ 63) mod 2 ^ 64 - 2 ^ 63"

definition is_i64 :: "int \<Rightarrow> bool" where
  "is_i64 x \<longleftrightarrow> - (2 ^ 63) \<le> x \<and> x < 2 ^ 63"

lemma i64_sint: "i64 x = sint (word_of_int x :: 64 word)"
  by (simp add: i64_def signed_take_bit_eq_take_bit_shift take_bit_eq_mod sint_sbintrunc')

lemma i64_id: "is_i64 x \<Longrightarrow> i64 x = x"
  by (simp add: i64_def is_i64_def)

lemma is_i64_i64 [simp]: "is_i64 (i64 x)"
  by (simp add: i64_def is_i64_def)

definition min_i64 :: int where
  "min_i64 = - (2 ^ 63)"

text \<open>Division truncates towards zero.\<close>

definition go_div :: "int \<Rightarrow> int \<Rightarrow> int" where
  "go_div a b = sgn a * sgn b * (\<bar>a\<bar> div \<bar>b\<bar>)"

definition go_mod :: "int \<Rightarrow> int \<Rightarrow> int" where
  "go_mod a b = a - b * go_div a b"

lemma go_div_nonneg: "0 \<le> a \<Longrightarrow> 0 < b \<Longrightarrow> go_div a b = a div b"
  by (cases "a = 0") (simp_all add: go_div_def)

lemma go_mod_nonneg: "0 \<le> a \<Longrightarrow> 0 < b \<Longrightarrow> go_mod a b = a mod b"
  by (simp add: go_mod_def go_div_nonneg minus_mult_div_eq_mod)

section \<open>Binary64\<close>

datatype float64 = NaN | Inf bool \<comment> \<open>\<open>Inf True\<close> is minus infinity\<close> | Fin rat

text \<open>The number of binary digits of a natural number given as an integer.\<close>

function bits :: "int \<Rightarrow> int" where
  "bits n = (if n \<le> 0 then 0 else 1 + bits (n div 2))"
  by pat_completeness auto
termination
  by (relation "measure nat") auto

declare bits.simps [simp del]

text \<open>\<open>p / q\<close> rounded to the nearest integer, ties to even.\<close>

definition rne_div :: "int \<Rightarrow> int \<Rightarrow> int" where
  "rne_div p q =
     (let k = p div q; r = p mod q
      in if 2 * r < q \<or> (2 * r = q \<and> even k) then k else k + 1)"

definition pow2 :: "int \<Rightarrow> int" where
  "pow2 e = 2 ^ nat e"

text \<open>
  \<open>round_frac n d\<close> rounds the positive fraction \<open>n / d\<close>: \<open>k\<close> is the floor of its binary
  logarithm, \<open>e\<close> the exponent of the last place (at least -1074), and the result is
  \<open>m * 2 ^ e\<close>, which overflows from \<open>2 ^ 1024\<close> on.
\<close>

definition log2_floor :: "int \<Rightarrow> int \<Rightarrow> int" where
  "log2_floor n d =
     (let k = bits n - bits d in if d * pow2 k \<le> n * pow2 (- k) then k else k - 1)"

definition ulp_exp :: "int \<Rightarrow> int \<Rightarrow> int" where
  "ulp_exp n d = max (log2_floor n d - 52) (- 1074)"

definition round_frac :: "int \<Rightarrow> int \<Rightarrow> rat option" where
  "round_frac n d =
     (let e = ulp_exp n d; m = rne_div (n * pow2 (- e)) (d * pow2 e)
      in if pow2 1024 * pow2 (- e) \<le> m * pow2 e then None else Some (Fract (m * pow2 e) (pow2 (- e))))"

definition round64 :: "rat \<Rightarrow> float64" where
  "round64 x =
     (case quotient_of x of (n, d) \<Rightarrow>
        if n = 0 then Fin 0
        else case round_frac \<bar>n\<bar> d of
               None \<Rightarrow> Inf (n < 0)
             | Some y \<Rightarrow> Fin (if n < 0 then - y else y))"

fun f_of_int :: "int \<Rightarrow> float64" where
  "f_of_int n = round64 (of_int n)"

fun f_neg :: "float64 \<Rightarrow> float64" where
  "f_neg NaN = NaN"
| "f_neg (Inf s) = Inf (\<not> s)"
| "f_neg (Fin a) = Fin (- a)"

fun f_add :: "float64 \<Rightarrow> float64 \<Rightarrow> float64" where
  "f_add (Fin a) (Fin b) = round64 (a + b)"
| "f_add NaN _ = NaN"
| "f_add _ NaN = NaN"
| "f_add (Inf s) (Inf t) = (if s = t then Inf s else NaN)"
| "f_add (Inf s) (Fin _) = Inf s"
| "f_add (Fin _) (Inf t) = Inf t"

definition f_sub :: "float64 \<Rightarrow> float64 \<Rightarrow> float64" where
  "f_sub x y = f_add x (f_neg y)"

fun f_mul :: "float64 \<Rightarrow> float64 \<Rightarrow> float64" where
  "f_mul (Fin a) (Fin b) = round64 (a * b)"
| "f_mul NaN _ = NaN"
| "f_mul _ NaN = NaN"
| "f_mul (Inf s) (Inf t) = Inf (s \<noteq> t)"
| "f_mul (Inf s) (Fin b) = (if b = 0 then NaN else Inf (s \<noteq> (b < 0)))"
| "f_mul (Fin a) (Inf t) = (if a = 0 then NaN else Inf ((a < 0) \<noteq> t))"

fun f_div :: "float64 \<Rightarrow> float64 \<Rightarrow> float64" where
  "f_div (Fin a) (Fin b) =
     (if b = 0 then (if a = 0 then NaN else Inf (a < 0)) else round64 (a / b))"
| "f_div NaN _ = NaN"
| "f_div _ NaN = NaN"
| "f_div (Inf s) (Inf t) = NaN"
| "f_div (Inf s) (Fin b) = Inf (s \<noteq> (b < 0))"
| "f_div (Fin a) (Inf t) = Fin 0"

fun f_less :: "float64 \<Rightarrow> float64 \<Rightarrow> bool" where
  "f_less (Fin a) (Fin b) \<longleftrightarrow> a < b"
| "f_less NaN _ \<longleftrightarrow> False"
| "f_less _ NaN \<longleftrightarrow> False"
| "f_less (Inf s) (Inf t) \<longleftrightarrow> s \<and> \<not> t"
| "f_less (Inf s) (Fin _) \<longleftrightarrow> s"
| "f_less (Fin _) (Inf t) \<longleftrightarrow> \<not> t"

fun f_eq :: "float64 \<Rightarrow> float64 \<Rightarrow> bool" where
  "f_eq NaN _ \<longleftrightarrow> False"
| "f_eq _ NaN \<longleftrightarrow> False"
| "f_eq x y \<longleftrightarrow> x = y"

definition f_le :: "float64 \<Rightarrow> float64 \<Rightarrow> bool" where
  "f_le x y \<longleftrightarrow> f_less x y \<or> f_eq x y"

text \<open>\<open>math.Max\<close>: positive infinity wins over NaN, NaN over the rest.\<close>

definition f_max :: "float64 \<Rightarrow> float64 \<Rightarrow> float64" where
  "f_max x y =
     (if x = Inf False \<or> y = Inf False then Inf False
      else if x = NaN \<or> y = NaN then NaN
      else if f_less y x then x else y)"

fun f_ceil :: "float64 \<Rightarrow> float64" where
  "f_ceil (Fin a) = Fin (of_int \<lceil>a\<rceil>)"
| "f_ceil x = x"

text \<open>
  Conversion to a 64-bit integer drops the fraction. The language leaves the result open when
  it does not fit (NaN, infinities, large values): the argument \<open>oor\<close> is the platform's
  choice, on amd64 the least integer.
\<close>

definition trunc_rat :: "rat \<Rightarrow> int" where
  "trunc_rat a = (if a < 0 then \<lceil>a\<rceil> else \<lfloor>a\<rfloor>)"

fun to_i64 :: "(float64 \<Rightarrow> int) \<Rightarrow> float64 \<Rightarrow> int" where
  "to_i64 oor (Fin a) = (if is_i64 (trunc_rat a) then trunc_rat a else oor (Fin a))"
| "to_i64 oor x = oor x"

definition amd64 :: "float64 \<Rightarrow> int" where
  "amd64 x = min_i64"

section \<open>Facts\<close>

lemma f_less_irrefl [simp]: "\<not> f_less x x"
  by (cases x) auto

lemma f_le_iff: "f_le (Fin a) (Fin b) \<longleftrightarrow> a \<le> b"
  by (auto simp: f_le_def)

lemma round64_0 [simp]: "round64 0 = Fin 0"
  by (simp add: round64_def)

lemma trunc_rat_of_int [simp]: "trunc_rat (of_int z) = z"
  by (simp add: trunc_rat_def)

lemma pow2_pos [simp]: "0 < pow2 e"
  by (simp add: pow2_def)

end
