(* ===== verification/GoRound.thy ===== *)
theory GoRound
  imports GoNum
begin

text \<open>
  Facts about the rounding of \<open>GoNum\<close>: it is exact on integers below \<open>2 ^ 53\<close>, it keeps the
  sign, and it is monotone. They carry the properties of the rates, waits and timeouts that
  the program computes in \<open>float64\<close>.
\<close>

section \<open>Rounding to an integer\<close>

definition rne :: "rat \<Rightarrow> int" where
  "rne x = (if x - of_int \<lfloor>x\<rfloor> < 1 / 2 \<or> (x - of_int \<lfloor>x\<rfloor> = 1 / 2 \<and> even \<lfloor>x\<rfloor>) then \<lfloor>x\<rfloor> else \<lfloor>x\<rfloor> + 1)"

lemma rne_of_int [simp]: "rne (of_int z) = z"
  by (simp add: rne_def)

lemma rne_bounds: "\<lfloor>x\<rfloor> \<le> rne x \<and> rne x \<le> \<lfloor>x\<rfloor> + 1"
  by (simp add: rne_def)

lemma rne_mono: "x \<le> y \<Longrightarrow> rne x \<le> rne y"
proof -
  assume le: "x \<le> y"
  have fl: "\<lfloor>x\<rfloor> \<le> \<lfloor>y\<rfloor>" using le by (rule floor_mono)
  show ?thesis
  proof (cases "\<lfloor>x\<rfloor> = \<lfloor>y\<rfloor>")
    case True
    then show ?thesis using le by (auto simp: rne_def)
  next
    case False
    then show ?thesis using fl rne_bounds[of x] rne_bounds[of y] by linarith
  qed
qed

lemma rne_div_rne: "0 < q \<Longrightarrow> rne_div p q = rne (of_int p / of_int q)"
proof -
  assume q: "0 < q"
  have fl: "\<lfloor>(of_int p :: rat) / of_int q\<rfloor> = p div q" by (rule floor_divide_of_int_eq)
  have p: "p = q * (p div q) + p mod q" by simp
  have "(of_int p :: rat) / of_int q = of_int (p div q) + of_int (p mod q) / of_int q"
    using q by (subst p) (simp only: of_int_add of_int_mult add_divide_distrib, simp)
  then have fr: "(of_int p :: rat) / of_int q - of_int (p div q) = of_int (p mod q) / of_int q" by simp
  have "(of_int (p mod q) / of_int q < (1 / 2 :: rat)) = (of_int (2 * (p mod q)) < (of_int q :: rat))"
    using q by (simp add: divide_less_eq mult.commute)
  moreover have "(of_int (p mod q) / of_int q = (1 / 2 :: rat)) = (of_int (2 * (p mod q)) = (of_int q :: rat))"
    using q by (simp add: divide_eq_eq mult.commute)
  ultimately have half: "(of_int (p mod q) / of_int q < (1 / 2 :: rat)) = (2 * (p mod q) < q)"
    "(of_int (p mod q) / of_int q = (1 / 2 :: rat)) = (2 * (p mod q) = q)"
    by (simp_all only: of_int_less_iff of_int_eq_iff)
  show ?thesis
    unfolding rne_div_def rne_def fl fr half Let_def by simp
qed

section \<open>Binary magnitude\<close>

lemma bits_nonneg: "0 \<le> bits n"
proof (induction n rule: bits.induct)
  case (1 n)
  then show ?case by (cases "n \<le> 0") (simp_all add: bits.simps[of n])
qed

lemma bits_pos: "0 < n \<Longrightarrow> 0 < bits n"
  using bits_nonneg[of "n div 2"] by (simp add: bits.simps[of n])

lemma bits_bounds: "0 < n \<Longrightarrow> pow2 (bits n - 1) \<le> n \<and> n < pow2 (bits n)"
proof (induction n rule: bits.induct)
  case (1 n)
  show ?case
  proof (cases "n = 1")
    case True
    then show ?thesis by (simp add: bits.simps[of 1] bits.simps[of 0] pow2_def)
  next
    case False
    define m where "m = n div 2"
    have m: "0 < m" "2 * m \<le> n" "n < 2 * m + 2" using False "1.prems" by (auto simp: m_def)
    have b: "bits n = 1 + bits m" using "1.prems" by (subst bits.simps) (simp add: m_def)
    have pos: "0 < bits m" by (rule bits_pos) (rule m(1))
    then have "pow2 (bits m) = 2 * pow2 (bits m - 1)" "pow2 (bits n) = 2 * pow2 (bits m)"
      using b by (simp_all add: pow2_def nat_add_distrib nat_diff_distrib' flip: power_Suc)
    moreover have "pow2 (bits m - 1) \<le> m \<and> m < pow2 (bits m)"
      using "1.IH" "1.prems" m(1) by (simp add: m_def)
    ultimately show ?thesis using m b by auto
  qed
qed

lemma pow2_ratio: "(of_int (pow2 e) :: rat) / of_int (pow2 (- e)) = 2 powi e"
  by (simp add: pow2_def power_int_def field_simps)

lemma powi_less_exp: "(2 powi a :: rat) < 2 powi b \<Longrightarrow> a < b"
  using power_int_increasing[of b a "2 :: rat"] by linarith

lemma log2_floor_bounds:
  assumes "0 < n" and "0 < d"
  shows "2 powi log2_floor n d \<le> (of_int n / of_int d :: rat)
    \<and> (of_int n / of_int d :: rat) < 2 powi (log2_floor n d + 1)"
proof -
  let ?x = "of_int n / of_int d :: rat"
  define k where "k = bits n - bits d"
  have powi: "(of_int (pow2 e) :: rat) = 2 powi e" if "0 \<le> e" for e
    using that by (simp add: pow2_def power_int_def)
  have n: "2 powi (bits n - 1) \<le> (of_int n :: rat)" "(of_int n :: rat) < 2 powi bits n"
    using bits_bounds[OF assms(1)] bits_pos[OF assms(1)] powi[of "bits n - 1"] powi[of "bits n"]
    by (metis int_one_le_iff_zero_less le_iff_diff_le_0 diff_ge_0_iff_ge of_int_le_iff less_imp_le,
        metis less_imp_le of_int_less_iff)
  have d: "2 powi (bits d - 1) \<le> (of_int d :: rat)" "(of_int d :: rat) < 2 powi bits d"
    using bits_bounds[OF assms(2)] bits_pos[OF assms(2)] powi[of "bits d - 1"] powi[of "bits d"]
    by (metis int_one_le_iff_zero_less diff_ge_0_iff_ge of_int_le_iff,
        metis less_imp_le of_int_less_iff)
  have up: "?x < 2 powi (k + 1)"
  proof -
    have "(of_int n :: rat) < 2 powi bits n" by (rule n(2))
    also have "\<dots> = 2 powi (k + 1) * 2 powi (bits d - 1)"
      by (simp add: k_def flip: power_int_add)
    also have "\<dots> \<le> 2 powi (k + 1) * of_int d" by (intro mult_left_mono d(1)) simp
    finally show ?thesis using assms(2) by (simp add: field_simps)
  qed
  have low: "2 powi (k - 1) < ?x"
  proof -
    have "2 powi (k - 1) * (of_int d :: rat) < 2 powi (k - 1) * 2 powi bits d"
      by (intro mult_strict_left_mono d(2)) simp
    also have "\<dots> = 2 powi (bits n - 1)" by (simp add: k_def flip: power_int_add)
    also have "\<dots> \<le> of_int n" by (rule n(1))
    finally show ?thesis using assms(2) by (simp add: field_simps)
  qed
  have test: "d * pow2 k \<le> n * pow2 (- k) \<longleftrightarrow> 2 powi k \<le> ?x"
  proof -
    have "2 powi k \<le> ?x \<longleftrightarrow> (of_int (pow2 k) :: rat) / of_int (pow2 (- k)) \<le> ?x"
      by (simp add: pow2_ratio)
    also have "\<dots> \<longleftrightarrow> (of_int d * of_int (pow2 k) :: rat) \<le> of_int n * of_int (pow2 (- k))"
      using assms(2) by (simp add: field_simps)
    also have "\<dots> \<longleftrightarrow> d * pow2 k \<le> n * pow2 (- k)" by (simp flip: of_int_mult)
    finally show ?thesis by simp
  qed
  show ?thesis
    using up low test by (auto simp: log2_floor_def Let_def k_def[symmetric])
qed

section \<open>The rounded value\<close>

definition place :: "int \<Rightarrow> int \<Rightarrow> rat" where
  "place n d = 2 powi ulp_exp n d"

definition rounded :: "int \<Rightarrow> int \<Rightarrow> rat" where
  "rounded n d = of_int (rne (of_int n / of_int d / place n d)) * place n d"

lemma place_pos [simp]: "0 < place n d"
  by (simp add: place_def)

lemma round_frac_rounded:
  assumes "0 < n" and "0 < d"
  shows "round_frac n d = (if 2 ^ 1024 \<le> rounded n d then None else Some (rounded n d))"
proof -
  define e where "e = ulp_exp n d"
  define m where "m = rne_div (n * pow2 (- e)) (d * pow2 e)"
  have ratio: "(of_int (pow2 e) :: rat) / of_int (pow2 (- e)) = place n d"
    by (simp add: pow2_ratio place_def e_def)
  have "m = rne (of_int (n * pow2 (- e)) / of_int (d * pow2 e))"
    unfolding m_def using assms(2) by (intro rne_div_rne) simp
  also have "of_int (n * pow2 (- e)) / of_int (d * pow2 e) = of_int n / of_int d / place n d"
    by (simp flip: ratio)
  finally have m: "rounded n d = of_int m * place n d" by (simp add: rounded_def)
  have val: "Fract (m * pow2 e) (pow2 (- e)) = rounded n d"
    by (simp add: Fract_of_int_quotient m flip: ratio)
  have "pow2 1024 * pow2 (- e) \<le> m * pow2 e \<longleftrightarrow> (of_int (pow2 1024 * pow2 (- e)) :: rat) \<le> of_int (m * pow2 e)"
    by (simp only: of_int_le_iff)
  also have "\<dots> \<longleftrightarrow> of_int (pow2 1024) \<le> (of_int (m * pow2 e) / of_int (pow2 (- e)) :: rat)"
    by (simp add: le_divide_eq)
  also have "\<dots> \<longleftrightarrow> 2 ^ 1024 \<le> rounded n d"
    by (simp add: pow2_def m flip: ratio)
  finally show ?thesis
    unfolding round_frac_def Let_def e_def[symmetric] m_def[symmetric] val by simp
qed

lemma rounded_nonneg: "0 < n \<Longrightarrow> 0 < d \<Longrightarrow> 0 \<le> rounded n d"
proof -
  assume "0 < n" "0 < d"
  then have "rne (of_int 0) \<le> rne (of_int n / of_int d / place n d)"
    by (intro rne_mono) (simp add: less_imp_le)
  then have "0 \<le> rne (of_int n / of_int d / place n d)" by (simp only: rne_of_int)
  then show ?thesis unfolding rounded_def by (intro mult_nonneg_nonneg) (simp_all only: of_int_0_le_iff less_imp_le place_pos)
qed

text \<open>A power of two at or above the last place is a multiple of it, so rounding respects it.\<close>

lemma power_place:
  assumes "ulp_exp n d \<le> j"
  shows "(2 powi j :: rat) = of_int (2 ^ nat (j - ulp_exp n d)) * place n d"
proof -
  have "(of_int (2 ^ nat (j - ulp_exp n d)) :: rat) = 2 powi (j - ulp_exp n d)"
    using assms by (simp add: power_int_def)
  then show ?thesis by (simp add: place_def flip: power_int_add)
qed

lemma rounded_le_power:
  assumes "of_int n / of_int d \<le> (2 powi j :: rat)" and "ulp_exp n d \<le> j"
  shows "rounded n d \<le> 2 powi j"
proof -
  let ?m = "2 ^ nat (j - ulp_exp n d) :: int"
  have "of_int n / of_int d / place n d \<le> 2 powi j / place n d"
    by (rule divide_right_mono[OF assms(1)]) (simp add: less_imp_le)
  also have "\<dots> = of_int ?m" by (simp add: power_place[OF assms(2)] less_imp_neq[OF place_pos, symmetric])
  finally have "rne (of_int n / of_int d / place n d) \<le> ?m"
    using rne_mono rne_of_int by metis
  then have "rounded n d \<le> of_int ?m * place n d"
    unfolding rounded_def by (intro mult_right_mono) (simp_all only: of_int_le_iff less_imp_le place_pos)
  then show ?thesis by (simp only: power_place[OF assms(2)])
qed

lemma rounded_ge_power:
  assumes "(2 powi j :: rat) \<le> of_int n / of_int d" and "ulp_exp n d \<le> j"
  shows "2 powi j \<le> rounded n d"
proof -
  let ?m = "2 ^ nat (j - ulp_exp n d) :: int"
  have "2 powi j / place n d = of_int ?m"
    by (simp add: power_place[OF assms(2)] less_imp_neq[OF place_pos, symmetric])
  moreover have "2 powi j / place n d \<le> of_int n / of_int d / place n d"
    by (rule divide_right_mono[OF assms(1)]) (simp add: less_imp_le)
  ultimately have "?m \<le> rne (of_int n / of_int d / place n d)"
    using rne_mono rne_of_int by metis
  then have "of_int ?m * place n d \<le> rounded n d"
    unfolding rounded_def by (intro mult_right_mono) (simp_all only: of_int_le_iff less_imp_le place_pos)
  then show ?thesis by (simp only: power_place[OF assms(2)])
qed

lemma rounded_mono:
  assumes "0 < n" "0 < d" "0 < n'" "0 < d'" and le: "of_int n / of_int d \<le> (of_int n' / of_int d' :: rat)"
  shows "rounded n d \<le> rounded n' d'"
proof -
  let ?x = "of_int n / of_int d :: rat" and ?y = "of_int n' / of_int d' :: rat"
  let ?k = "log2_floor n d" and ?k' = "log2_floor n' d'"
  let ?e = "ulp_exp n d" and ?e' = "ulp_exp n' d'"
  note x = log2_floor_bounds[OF assms(1,2)] and y = log2_floor_bounds[OF assms(3,4)]
  have "(2 powi ?k :: rat) < 2 powi (?k' + 1)" using x y le by linarith
  then have k: "?k \<le> ?k'" using powi_less_exp[of ?k "?k' + 1"] by simp
  then have "?e \<le> ?e'" by (simp add: ulp_exp_def)
  then consider "?e = ?e'" | "?e < ?e'" by linarith
  then show ?thesis
  proof cases
    case 1
    then have p: "place n' d' = place n d" by (simp add: place_def)
    have "rne (?x / place n d) \<le> rne (?y / place n d)"
      by (rule rne_mono, rule divide_right_mono[OF le]) (simp add: less_imp_le)
    then show ?thesis
      unfolding rounded_def p by (intro mult_right_mono) (simp_all only: of_int_le_iff less_imp_le place_pos)
  next
    case 2
    define j where "j = ?e' + 52"
    have j: "?k' = j" "?k + 1 \<le> j" "?e \<le> j" "?e' \<le> j"
      using 2 by (auto simp: j_def ulp_exp_def max_def split: if_splits)
    have "?x \<le> 2 powi j"
      using x j(2) power_int_increasing[of "?k + 1" j "2 :: rat"] by simp
    then have "rounded n d \<le> 2 powi j" using j(3) by (rule rounded_le_power)
    also have "2 powi j \<le> rounded n' d'" by (rule rounded_ge_power) (use y j in auto)
    finally show ?thesis .
  qed
qed

section \<open>Rounding of rationals\<close>

lemma quotient_of_parts:
  assumes "quotient_of x = (n, d)"
  shows "0 < d" "x = of_int n / of_int d" "0 < x \<longleftrightarrow> 0 < n" "x < 0 \<longleftrightarrow> n < 0" "x = 0 \<longleftrightarrow> n = 0"
  using quotient_of_denom_pos[OF assms] quotient_of_div[OF assms]
  by (auto simp: zero_less_divide_iff divide_less_0_iff)

lemma round64_pos:
  "0 < x \<Longrightarrow> quotient_of x = (n, d) \<Longrightarrow>
   round64 x = (if 2 ^ 1024 \<le> rounded n d then Inf False else Fin (rounded n d))"
  using quotient_of_parts[of x n d] by (simp add: round64_def round_frac_rounded)

lemma round64_neg:
  "x < 0 \<Longrightarrow> quotient_of x = (n, d) \<Longrightarrow>
   round64 x = (if 2 ^ 1024 \<le> rounded (- n) d then Inf True else Fin (- rounded (- n) d))"
  using quotient_of_parts[of x n d] by (simp add: round64_def round_frac_rounded)

lemma round64_nonneg:
  assumes "0 \<le> x"
  shows "round64 x = Inf False \<or> (\<exists>y\<ge>0. round64 x = Fin y)"
proof (cases "x = 0")
  case False
  obtain n d where q: "quotient_of x = (n, d)" by fastforce
  then show ?thesis
    using assms False round64_pos[OF _ q] quotient_of_parts[OF q] rounded_nonneg[of n d] by auto
qed simp

lemma round64_not_NaN [simp]: "round64 x \<noteq> NaN"
  by (auto simp: round64_def split: prod.splits option.splits)

lemma round64_mono: "x \<le> y \<Longrightarrow> f_le (round64 x) (round64 y)"
proof -
  assume le: "x \<le> y"
  obtain n d where qx: "quotient_of x = (n, d)" by fastforce
  obtain n' d' where qy: "quotient_of y = (n', d')" by fastforce
  note px = quotient_of_parts[OF qx] and py = quotient_of_parts[OF qy]
  consider "0 < x" | "x = 0" | "x < 0" "0 \<le> y" | "x < 0" "y < 0" by linarith
  then show ?thesis
  proof cases
    case 1
    then have "0 < n" "0 < n'" "0 < y" using px py le by linarith+
    then have "rounded n d \<le> rounded n' d'" using px py le rounded_mono[of n d n' d'] by simp
    then show ?thesis using round64_pos[OF 1 qx] round64_pos[OF \<open>0 < y\<close> qy] by (auto simp: f_le_def)
  next
    case 2
    then show ?thesis using round64_nonneg[of y] le by (auto simp: f_le_def)
  next
    case 3
    have "0 \<le> rounded (- n) d" using 3 px rounded_nonneg[of "- n" d] by simp
    then show ?thesis using 3 round64_neg[OF 3(1) qx] round64_nonneg[OF 3(2)] by (auto simp: f_le_def)
  next
    case 4
    have "of_int (- n') / of_int d' \<le> (of_int (- n) / of_int d :: rat)" using px(2) py(2) le by simp
    then have "rounded (- n') d' \<le> rounded (- n) d"
      using 4 px py rounded_mono[of "- n'" d' "- n" d] by simp
    then show ?thesis using round64_neg[OF 4(1) qx] round64_neg[OF 4(2) qy] by (auto simp: f_le_def)
  qed
qed

lemma round64_int:
  assumes "0 \<le> n" and "n < 2 ^ 53"
  shows "round64 (of_int n) = Fin (of_int n)"
proof (cases "n = 0")
  case False
  then have n: "0 < n" using assms by simp
  have q: "quotient_of (of_int n) = (n, 1)" by simp
  have "(2 powi log2_floor n 1 :: rat) \<le> of_int n" using log2_floor_bounds[OF n, of 1] by simp
  also have "\<dots> < 2 powi 53" using assms(2) by (simp add: power_int_def)
  finally have "log2_floor n 1 < 53" by (rule powi_less_exp)
  then have e: "ulp_exp n 1 \<le> 0" by (simp add: ulp_exp_def)
  have "(1 :: rat) = of_int (2 ^ nat (- ulp_exp n 1)) * place n 1"
    using power_place[OF e] by simp
  then have "1 / place n 1 = of_int (2 ^ nat (- ulp_exp n 1))" by (metis nonzero_mult_div_cancel_right place_pos less_irrefl)
  then have "of_int n / of_int 1 / place n 1 = of_int (n * 2 ^ nat (- ulp_exp n 1))"
    by (metis of_int_mult of_int_1 div_by_1 times_divide_eq_right mult.right_neutral)
  then have "rounded n 1 = of_int n"
    unfolding rounded_def by (metis rne_of_int nonzero_divide_eq_eq place_pos less_irrefl of_int_1 div_by_1)
  moreover have "(of_int n :: rat) < 2 ^ 1024"
  proof -
    have "n < 2 ^ 1024" using assms(2) by (rule less_le_trans) simp
    then show ?thesis by (metis of_int_less_iff of_int_numeral of_int_power)
  qed
  ultimately show ?thesis using round64_pos[OF _ q] n by simp
qed simp

end
