(* ===== verification/LimStrict.thy ===== *)
theory LimStrict
  imports GoRound
begin

text \<open>
  \<^verbatim>\<open>limiter/strict.go\<close>: the limiter over \<open>time.Ticker\<close>. The ticker fires on a fixed grid and
  sends to a channel that holds one tick; a tick that finds it full is dropped. The clock is
  idealised: a tick is available at its grid point.
\<close>

record strict =
  period :: int
  next_fire :: int
  pending :: bool

definition strict_interval :: "(float64 \<Rightarrow> int) \<Rightarrow> float64 \<Rightarrow> int" where
  "strict_interval oor r = to_i64 oor (f_div (f_of_int 1000000000) r)"

definition NewStrict :: "(float64 \<Rightarrow> int) \<Rightarrow> int \<Rightarrow> float64 \<Rightarrow> strict outcome" where
  "NewStrict oor now r =
     (let interval = strict_interval oor r
      in if interval \<le> 0 then Panic ''non-positive interval for NewTicker''
         else Ok \<lparr>period = interval, next_fire = now + interval, pending = False\<rparr>)"

text \<open>The ticks up to and including \<open>now\<close>: at most one stays in the channel.\<close>

definition tick_until :: "int \<Rightarrow> strict \<Rightarrow> strict" where
  "tick_until now l =
     (if next_fire l \<le> now
      then l\<lparr>pending := True,
             next_fire := next_fire l + ((now - next_fire l) div period l + 1) * period l\<rparr>
      else l)"

text \<open>
  \<open>Wait\<close> called at \<open>now\<close>: it takes the buffered tick at once, or the next one when it fires;
  \<open>cancel\<close> is the time at which the context is done, if it is. With both ready the select
  may take either; the argument \<open>prefer_done\<close> is its choice.
\<close>

datatype strict_result = Slot int | StrictCancelled

definition strict_Wait :: "bool \<Rightarrow> int option \<Rightarrow> int \<Rightarrow> strict \<Rightarrow> strict_result \<times> strict" where
  "strict_Wait prefer_done cancel now l =
     (let l1 = tick_until now l;
          ready = (if pending l1 then now else next_fire l1);
          stop = (case cancel of None \<Rightarrow> False
                  | Some c \<Rightarrow> max now c < ready \<or> (max now c = ready \<and> prefer_done))
      in if stop then (StrictCancelled, l1)
         else if pending l1 then (Slot now, l1\<lparr>pending := False\<rparr>)
         else (Slot ready, l1\<lparr>next_fire := next_fire l1 + period l1\<rparr>))"

section \<open>Runs\<close>

text \<open>
  The dispatcher calls \<open>Wait\<close> when a ticket is there and the previous slot has been used: at
  the later of the arrival and the previous grant.
\<close>

fun strict_run :: "int \<Rightarrow> int list \<Rightarrow> strict \<Rightarrow> int list" where
  "strict_run free [] l = []"
| "strict_run free (arrival # arrivals) l =
     (case strict_Wait False None (max free arrival) l of
        (Slot g, l') \<Rightarrow> g # strict_run g arrivals l'
      | (StrictCancelled, l') \<Rightarrow> [])"

definition strict_ok :: "int \<Rightarrow> strict \<Rightarrow> bool" where
  "strict_ok g l \<longleftrightarrow> 0 < period l \<and> \<not> pending l \<and> g < next_fire l \<and> next_fire l \<le> g + period l"

lemma grid_step:
  assumes "0 < p" and "n \<le> (now :: int)"
  shows "now < n + ((now - n) div p + 1) * p \<and> n + ((now - n) div p + 1) * p \<le> now + p"
proof -
  define k where "k = (now - n) div p"
  have "now - n = k * p + (now - n) mod p" by (simp add: k_def)
  moreover have "0 \<le> (now - n) mod p" "(now - n) mod p < p" using assms(1) by auto
  ultimately have "now < n + (k * p + p) \<and> n + (k * p + p) \<le> now + p" by linarith
  then show ?thesis by (simp add: k_def distrib_right)
qed

text \<open>
  One wait after the channel was emptied at \<open>g\<close>: the grant comes no earlier than the next grid
  point after \<open>g\<close>, at once if that point has passed, and empties the channel again.
\<close>

lemma strict_Wait_step:
  assumes "strict_ok g l" and "g \<le> now"
  shows "\<exists>g' l'. strict_Wait False None now l = (Slot g', l') \<and> strict_ok g' l'
    \<and> period l' = period l \<and> g' = max now (next_fire l) \<and> next_fire l + period l \<le> next_fire l'"
proof (cases "next_fire l \<le> now")
  case True
  have "0 \<le> (now - next_fire l) div period l"
    using assms(1) True by (simp add: strict_ok_def pos_imp_zdiv_nonneg_iff)
  then have "next_fire l + period l \<le> next_fire l + ((now - next_fire l) div period l + 1) * period l"
    using assms(1) by (simp add: strict_ok_def mult_le_cancel_right1)
  then show ?thesis
    using True assms grid_step[of "period l" "next_fire l" now]
    by (auto simp: strict_Wait_def tick_until_def strict_ok_def Let_def)
next
  case False
  then show ?thesis
    using assms by (auto simp: strict_Wait_def tick_until_def strict_ok_def Let_def)
qed

lemma strict_run_spacing:
  assumes "strict_ok g l" and "strict_run g arrivals l = gs"
  shows "length gs = length arrivals
    \<and> (\<forall>i<length gs. next_fire l + int i * period l \<le> gs ! i)
    \<and> (\<forall>i j. i < j \<and> j < length gs \<longrightarrow> (int j - int i - 1) * period l < gs ! j - gs ! i)"
  using assms
proof (induction arrivals arbitrary: g l gs)
  case Nil
  then show ?case by simp
next
  case (Cons a as)
  obtain g1 l1 where w: "strict_Wait False None (max g a) l = (Slot g1, l1)" "strict_ok g1 l1"
    "period l1 = period l" "g1 = max (max g a) (next_fire l)" "next_fire l + period l \<le> next_fire l1"
    using strict_Wait_step[OF Cons.prems(1), of "max g a"] by auto
  obtain rest where rest: "strict_run g1 as l1 = rest" by simp
  note IH = Cons.IH[OF w(2) rest]
  have gs: "gs = g1 # rest" using Cons.prems(2) w(1) rest by simp
  have late: "next_fire l + int (Suc i) * period l \<le> rest ! i" if "i < length rest" for i
    using IH that w(3,5) by (fastforce simp: algebra_simps)
  have first: "(int j - 1) * period l < rest ! (j - 1) - g1" if "0 < j" "j \<le> length rest" for j
  proof -
    have "j - 1 < length rest" using that by simp
    then have "next_fire l1 + int (j - 1) * period l1 \<le> rest ! (j - 1)" using IH by blast
    moreover have "g1 < next_fire l1" using w(2) by (simp add: strict_ok_def)
    ultimately show ?thesis using that w(3) by (simp add: of_nat_diff)
  qed
  have "next_fire l + int i * period l \<le> gs ! i" if "i < length gs" for i
    using that late[of "i - 1"] w(4) gs by (cases i) auto
  moreover have "(int j - int i - 1) * period l < gs ! j - gs ! i" if "i < j" "j < length gs" for i j
  proof (cases i)
    case 0
    then show ?thesis using first[of j] that gs by (cases j) auto
  next
    case (Suc k)
    then show ?thesis using IH[THEN conjunct2, THEN conjunct2] that gs w(3) by (cases j) auto
  qed
  ultimately show ?case using IH gs by auto
qed

section \<open>Properties\<close>


lemma demo_strict:
  "NewStrict amd64 0 (Fin 10) = Ok \<lparr>period = 100000000, next_fire = 100000000, pending = False\<rparr>"
  by code_simp


text \<open>
  The spacing is not always a full interval: the tick buffered during an idle period is
  taken at once and the next one fires on the grid, so at 10 requests per second two requests
  that arrive together after 350 ms get their slots 50 ms apart.
\<close>

lemma strict_slots_closer_than_interval:
  "\<exists>l. NewStrict oor 0 (Fin 10) = Ok l \<and> strict_interval oor (Fin 10) = 100000000
     \<and> strict_run 0 [350000000, 350000000] l = [350000000, 400000000]"
proof -
  have "f_div (f_of_int 1000000000) (Fin 10) = Fin 100000000" by code_simp
  moreover have "trunc_rat 100000000 = 100000000" using trunc_rat_of_int[of 100000000] by simp
  ultimately have "strict_interval oor (Fin 10) = 100000000" by (simp add: strict_interval_def is_i64_def)
  then show ?thesis
    by (simp add: NewStrict_def strict_Wait_def tick_until_def)
qed

end
