(* ===== verification/LimSliding.thy ===== *)
theory LimSliding
  imports GoRound
begin

text \<open>
  \<^verbatim>\<open>limiter/sliding_window.go\<close>: the limiter that keeps the grant times of the last window.
  Times and durations are nanoseconds; the instants handed to \<open>tryGrant\<close> come from the
  monotonic clock.
\<close>

record sliding =
  rps :: float64
  window :: int
  times :: "int list"

definition second :: int where
  "second = 1000000000"

definition NewSlidingWindow :: "float64 \<Rightarrow> int \<Rightarrow> sliding" where
  "NewSlidingWindow r windowSeconds =
     \<lparr>rps = r, window = i64 (windowSeconds * second), times = []\<rparr>"

text \<open>\<open>Duration.Seconds\<close>: whole seconds plus the rest, each converted.\<close>

definition Seconds :: "int \<Rightarrow> float64" where
  "Seconds d =
     f_add (f_of_int (go_div d second)) (f_div (f_of_int (go_mod d second)) (f_of_int second))"

fun drop_stale :: "int \<Rightarrow> int list \<Rightarrow> int list" where
  "drop_stale cutoff [] = []"
| "drop_stale cutoff (t # ts) = (if t < cutoff then drop_stale cutoff ts else t # ts)"

definition allowed :: "(float64 \<Rightarrow> int) \<Rightarrow> sliding \<Rightarrow> int" where
  "allowed oor l =
     (let a = to_i64 oor (f_mul (rps l) (Seconds (window l))) in if a < 1 then 1 else a)"

definition tryGrant :: "(float64 \<Rightarrow> int) \<Rightarrow> int \<Rightarrow> sliding \<Rightarrow> bool \<times> sliding" where
  "tryGrant oor now l =
     (let cutoff = now - window l;
          l1 = l\<lparr>times := drop_stale cutoff (times l)\<rparr>
      in if int (length (times l1)) < allowed oor l1
         then (True, l1\<lparr>times := times l1 @ [now]\<rparr>)
         else (False, l1))"

text \<open>
  \<open>Wait\<close> polls: each turn of its loop tries at the current time and, when refused, waits for
  the 1 ms timer or the cancellation. \<open>polls\<close> lists the turns: the time read, and whether the
  select that follows sees the context done. \<open>None\<close>: still waiting.
\<close>

datatype wait_result = Granted int | WaitCancelled

fun sliding_Wait ::
  "(float64 \<Rightarrow> int) \<Rightarrow> (int \<times> bool) list \<Rightarrow> sliding \<Rightarrow> wait_result option \<times> sliding" where
  "sliding_Wait oor [] l = (None, l)"
| "sliding_Wait oor ((now, done) # polls) l =
     (let (ok, l') = tryGrant oor now l
      in if ok then (Some (Granted now), l')
         else if done then (Some WaitCancelled, l')
         else sliding_Wait oor polls l')"

section \<open>Runs and the hist of all grants\<close>

fun sliding_run :: "(float64 \<Rightarrow> int) \<Rightarrow> int list \<Rightarrow> sliding \<Rightarrow> int list \<times> sliding" where
  "sliding_run oor [] l = ([], l)"
| "sliding_run oor (now # nows) l =
     (let (ok, l1) = tryGrant oor now l; (gs, l2) = sliding_run oor nows l1
      in (if ok then now # gs else gs, l2))"

text \<open>The grants of a hist at or after \<open>a\<close> and at or before \<open>b\<close>.\<close>

definition grants_in :: "int \<Rightarrow> int \<Rightarrow> int list \<Rightarrow> nat" where
  "grants_in a b hist = length (filter (\<lambda>t. a \<le> t \<and> t \<le> b) hist)"

lemma drop_stale_sorted: "sorted ts \<Longrightarrow> drop_stale c ts = filter (\<lambda>t. c \<le> t) ts"
proof (induction ts)
  case (Cons t ts)
  have "c \<le> t \<Longrightarrow> filter (\<lambda>t. c \<le> t) ts = ts"
    using Cons.prems by (auto intro!: filter_True)
  then show ?case using Cons by auto
qed simp

text \<open>
  The kept times are the part of the hist since some instant not later than any future cutoff;
  every window of the hist's own length holds at most \<open>n\<close> grants.
\<close>

definition log_inv :: "int \<Rightarrow> int \<Rightarrow> int list \<Rightarrow> int \<Rightarrow> int list \<Rightarrow> bool" where
  "log_inv w n hist upto_t ts \<longleftrightarrow>
     0 \<le> w \<and> sorted hist \<and> (\<forall>t\<in>set hist. t \<le> upto_t)
     \<and> (\<exists>c\<le>upto_t - w. ts = filter (\<lambda>t. c \<le> t) hist)
     \<and> (\<forall>t\<in>set hist. int (grants_in (t - w) t hist) \<le> n)"

lemma log_inv_kept:
  assumes "log_inv w n hist upto_t ts" and "upto_t \<le> now"
  shows "drop_stale (now - w) ts = filter (\<lambda>t. now - w \<le> t) hist"
    and "int (length (drop_stale (now - w) ts)) = int (grants_in (now - w) now hist)"
proof -
  obtain c where c: "c \<le> upto_t - w" "ts = filter (\<lambda>t. c \<le> t) hist" and s: "sorted hist"
    using assms(1) by (auto simp: log_inv_def)
  have "c \<le> now - w" using c(1) assms(2) by simp
  have "sorted ts" unfolding c(2) by (rule sorted_wrt_filter[OF s])
  then show "drop_stale (now - w) ts = filter (\<lambda>t. now - w \<le> t) hist"
    using \<open>c \<le> now - w\<close> by (auto simp: drop_stale_sorted c(2) intro!: filter_cong)
  moreover have "filter (\<lambda>t. now - w \<le> t \<and> t \<le> now) hist = filter (\<lambda>t. now - w \<le> t) hist"
    using assms by (intro filter_cong) (auto simp: log_inv_def)
  ultimately show "int (length (drop_stale (now - w) ts)) = int (grants_in (now - w) now hist)"
    by (simp add: grants_in_def)
qed

lemma tryGrant_frame: "tryGrant oor now l = (ok, l') \<Longrightarrow> rps l' = rps l \<and> window l' = window l"
  by (auto simp: tryGrant_def Let_def split: if_splits)

lemma allowed_frame: "rps l' = rps l \<Longrightarrow> window l' = window l \<Longrightarrow> allowed oor l' = allowed oor l"
  by (simp add: allowed_def)

lemma allowed_pos: "1 \<le> allowed oor l"
  by (simp add: allowed_def Let_def)

lemma tryGrant_log:
  assumes "log_inv (window l) (allowed oor l) hist upto_t (times l)" and "upto_t \<le> now"
    and "tryGrant oor now l = (ok, l')"
  shows "ok \<longleftrightarrow> int (grants_in (now - window l) now hist) < allowed oor l"
    and "log_inv (window l) (allowed oor l) (hist @ (if ok then [now] else [])) now (times l')"
proof -
  let ?w = "window l" and ?n = "allowed oor l"
  note kept = log_inv_kept[OF assms(1,2)]
  have al: "allowed oor (l\<lparr>times := ts\<rparr>) = ?n" for ts by (rule allowed_frame) auto
  show ok: "ok \<longleftrightarrow> int (grants_in (now - ?w) now hist) < ?n"
    using assms(3) kept(2) by (auto simp: tryGrant_def Let_def al split: if_splits)
  have ts: "times l' = drop_stale (now - ?w) (times l) @ (if ok then [now] else [])"
    using assms(3) by (auto simp: tryGrant_def Let_def al split: if_splits)
  have w: "0 \<le> ?w" using assms(1) by (simp add: log_inv_def)
  have hist: "sorted hist" "\<forall>t\<in>set hist. t \<le> now" "\<forall>t\<in>set hist. int (grants_in (t - ?w) t hist) \<le> ?n"
    using assms(1,2) by (auto simp: log_inv_def)
  show "log_inv ?w ?n (hist @ (if ok then [now] else [])) now (times l')"
  proof (cases ok)
    case False
    then show ?thesis using w hist kept(1) ts by (auto simp: log_inv_def)
  next
    case True
    have "grants_in (t - ?w) t (hist @ [now]) = grants_in (t - ?w) t hist + (if t = now then 1 else 0)"
      if "t \<le> now" for t
      using that w by (auto simp: grants_in_def)
    moreover have "int (grants_in (now - ?w) now hist) + 1 \<le> ?n" using ok True by simp
    ultimately have "\<forall>t\<in>set (hist @ [now]). int (grants_in (t - ?w) t (hist @ [now])) \<le> ?n"
      using hist(2,3) by auto
    moreover have "sorted (hist @ [now])" using hist(1,2) by (simp add: sorted_append)
    moreover have "times l' = filter (\<lambda>t. now - ?w \<le> t) (hist @ [now])" using kept(1) ts True w by simp
    ultimately show ?thesis using True hist(2) w by (auto simp: log_inv_def)
  qed
qed

lemma log_inv_later:
  assumes "log_inv w n hist t0 ts" and "t0 \<le> t1"
  shows "log_inv w n hist t1 ts"
proof -
  obtain c where "c \<le> t0 - w" "ts = filter (\<lambda>t. c \<le> t) hist"
    using assms(1) by (auto simp: log_inv_def)
  moreover from this(1) have "c \<le> t1 - w" using assms(2) by simp
  ultimately have "\<exists>c\<le>t1 - w. ts = filter (\<lambda>t. c \<le> t) hist" by blast
  then show ?thesis using assms by (auto simp: log_inv_def)
qed

lemma sliding_run_log:
  assumes "log_inv w n hist t0 (times l)" and "w = window l" and "n = allowed oor l"
    and "sorted nows" and "\<forall>t\<in>set nows. t0 \<le> t" and "\<forall>t\<in>set nows. t \<le> t1" and "t0 \<le> t1"
    and "sliding_run oor nows l = (gs, l')"
  shows "log_inv w n (hist @ gs) t1 (times l') \<and> window l' = w \<and> allowed oor l' = n"
  using assms
proof (induction nows arbitrary: l hist t0 gs)
  case Nil
  then show ?case using log_inv_later by auto
next
  case (Cons now nows)
  obtain ok l1 where tg: "tryGrant oor now l = (ok, l1)" by fastforce
  obtain gs1 l2 where rest: "sliding_run oor nows l1 = (gs1, l2)" by fastforce
  have frame: "window l1 = w" "allowed oor l1 = n"
    using tryGrant_frame[OF tg] allowed_frame[of l1 l oor] Cons.prems(2,3) by auto
  have "log_inv w n (hist @ (if ok then [now] else [])) now (times l1)"
    using tryGrant_log(2)[of l oor hist t0 now ok l1] tg Cons.prems by simp
  moreover have gs: "gs = (if ok then [now] else []) @ gs1" "l' = l2"
    using Cons.prems(8) tg rest by (auto split: if_splits)
  ultimately have "log_inv w n ((hist @ (if ok then [now] else [])) @ gs1) t1 (times l')
      \<and> window l' = w \<and> allowed oor l' = n"
    by (intro Cons.IH) (use frame rest Cons.prems in auto)
  then show ?case using gs(1) by simp
qed

lemma log_inv_window:
  assumes "log_inv w n hist t0 ts" and "0 \<le> n"
  shows "int (grants_in a (a + w) hist) \<le> n"
proof (cases "filter (\<lambda>t. a \<le> t \<and> t \<le> a + w) hist")
  case Nil
  then show ?thesis using assms(2) by (simp add: grants_in_def)
next
  case (Cons x xs)
  let ?win = "filter (\<lambda>t. a \<le> t \<and> t \<le> a + w) hist"
  define g where "g = Max (set ?win)"
  have "g \<in> set ?win" unfolding g_def using Cons by (intro Max_in) auto
  then have g: "g \<in> set hist" "g \<le> a + w" by auto
  have "t \<le> g" if "t \<in> set ?win" for t unfolding g_def using that by (intro Max_ge) auto
  then have "?win = filter (\<lambda>t. a \<le> t \<and> t \<le> a + w) (filter (\<lambda>t. g - w \<le> t \<and> t \<le> g) hist)"
    using g(2) by (auto simp: conj_commute intro!: filter_cong)
  then have "length ?win \<le> length (filter (\<lambda>t. g - w \<le> t \<and> t \<le> g) hist)"
    by (metis length_filter_le)
  then show ?thesis using assms(1) g(1) by (fastforce simp: grants_in_def log_inv_def)
qed

lemma window_New: "is_i64 (ws * second) \<Longrightarrow> window (NewSlidingWindow r ws) = ws * second"
  by (simp add: NewSlidingWindow_def i64_id)

lemma log_inv_New:
  "0 \<le> ws \<Longrightarrow> is_i64 (ws * second) \<Longrightarrow>
   log_inv (ws * second) n [] t0 (times (NewSlidingWindow r ws))"
  by (auto simp: log_inv_def NewSlidingWindow_def second_def)

lemma sliding_run_New:
  assumes "0 \<le> ws" and "is_i64 (ws * second)" and "sorted nows" and "\<forall>t\<in>set nows. t \<le> t1"
    and "sliding_run oor nows (NewSlidingWindow r ws) = (gs, l)"
  shows "log_inv (ws * second) (allowed oor (NewSlidingWindow r ws)) gs t1 (times l)
    \<and> window l = ws * second \<and> allowed oor l = allowed oor (NewSlidingWindow r ws)"
proof -
  define t0 where "t0 = (case nows of [] \<Rightarrow> t1 | t # _ \<Rightarrow> t)"
  have t0: "\<forall>t\<in>set nows. t0 \<le> t" "t0 \<le> t1" using assms(3,4) by (auto simp: t0_def split: list.splits)
  show ?thesis
    using sliding_run_log[OF log_inv_New[OF assms(1,2)] _ refl assms(3) t0(1) assms(4) t0(2) assms(5)]
      window_New[OF assms(2)] by simp
qed

section \<open>Properties\<close>

text \<open>
  C25. The rate bound: for any sequence of instants the clock may give, the grants that fall
  into any interval as long as the window, ends included, are at most \<open>allowed\<close>.
\<close>

theorem sliding_window_bound:
  assumes "0 \<le> ws" and "ws * second < 2 ^ 63" and "sorted nows"
    and "sliding_run oor nows (NewSlidingWindow r ws) = (gs, l)"
  shows "int (grants_in a (a + ws * second) gs) \<le> allowed oor (NewSlidingWindow r ws)"
proof -
  have ok: "is_i64 (ws * second)" using assms(1,2) by (simp add: is_i64_def second_def)
  have "\<forall>t\<in>set nows. t \<le> Max (insert 0 (set nows))" by auto
  from sliding_run_New[OF assms(1) ok assms(3) this assms(4)] show ?thesis
    using log_inv_window allowed_pos[of oor "NewSlidingWindow r ws"] by (meson order_trans zero_le_one)
qed

lemma demo_sliding:
  "sliding_run amd64 [0, 1, 5, 1000000001, 1000000002] (NewSlidingWindow (Fin 2) 1)
     = ([0, 1, 1000000001, 1000000002], \<lparr>rps = Fin 2, window = 1000000000, times = [1000000001, 1000000002]\<rparr>)"
  by code_simp

theorem sliding_window_bound_witness:
  "int (grants_in 1 (1 + 1 * second) [0, 1, 1000000001, 1000000002])
     \<le> allowed amd64 (NewSlidingWindow (Fin 2) 1)"
  by (rule sliding_window_bound[OF _ _ _ demo_sliding]) (simp_all add: second_def)

text \<open>
  No slot is withheld: at any later instant \<open>tryGrant\<close> succeeds exactly when fewer than
  \<open>allowed\<close> of all grants so far are at most one window old.
\<close>

lemma sliding_window_grants_iff:
  assumes "0 \<le> ws" and "ws * second < 2 ^ 63" and "sorted (nows @ [now])"
    and "sliding_run oor nows (NewSlidingWindow r ws) = (gs, l)"
  shows "fst (tryGrant oor now l) \<longleftrightarrow>
    int (grants_in (now - ws * second) now gs) < allowed oor (NewSlidingWindow r ws)"
proof -
  have ok: "is_i64 (ws * second)" using assms(1,2) by (simp add: is_i64_def second_def)
  have "sorted nows" "\<forall>t\<in>set nows. t \<le> now" using assms(3) by (auto simp: sorted_append)
  from sliding_run_New[OF assms(1) ok this assms(4)] show ?thesis
    using tryGrant_log(1)[of l oor gs now now] by (cases "tryGrant oor now l") simp
qed

text \<open>
  The budget of a window is exact for a whole number of requests per second: \<open>rate\<close>
  times the window's seconds, at least one, as long as the product is below \<open>2 ^ 53\<close>.
\<close>

lemma sliding_allowed_exact:
  assumes "0 \<le> n" and "n < 2 ^ 53" and "0 \<le> ws" and "ws < 2 ^ 33" and "n * ws < 2 ^ 53"
  shows "allowed oor (NewSlidingWindow (Fin (of_int n)) ws) = max 1 (n * ws)"
proof -
  have w: "i64 (ws * second) = ws * second"
    using assms(3,4) by (intro i64_id) (simp add: is_i64_def second_def)
  have ws: "round64 (of_int ws) = Fin (of_int ws)" by (rule round64_int) (use assms(3,4) in auto)
  have "go_div (ws * second) second = ws" "go_mod (ws * second) second = 0"
    using assms(3) by (simp_all add: go_div_nonneg go_mod_nonneg second_def)
  moreover have "round64 (of_int second) = Fin (of_int second)" by (rule round64_int) (auto simp: second_def)
  ultimately have "Seconds (ws * second) = Fin (of_int ws)"
    by (simp add: Seconds_def ws second_def)
  moreover have "round64 (of_int n * of_int ws) = Fin (of_int (n * ws))"
    using round64_int[of "n * ws"] assms by simp
  moreover have "trunc_rat (of_int n * of_int ws) = n * ws"
    by (simp only: of_int_mult[symmetric] trunc_rat_of_int)
  moreover have "is_i64 (n * ws)" 
  proof -
    have "0 \<le> n * ws" using assms(1,3) by simp
    then show ?thesis using assms(5) by (simp add: is_i64_def)
  qed
  ultimately show ?thesis
    by (auto simp: allowed_def Let_def w NewSlidingWindow_def)
qed

text \<open>
  For rates given per minute the truncation of the floating-point product loses a request:
  at 123 requests per minute, 123 / 60 * 60 is just below 123 in \<open>float64\<close>, and a window of
  60 seconds grants 122.
\<close>

lemma sliding_123_rpm_allows_122:
  "allowed oor (NewSlidingWindow (f_div (f_of_int 123) (f_of_int 60)) 60) = 122"
proof -
  have "f_mul (f_div (f_of_int 123) (f_of_int 60)) (Seconds (i64 (60 * second)))
    = Fin (Fract 8655355533852671 70368744177664)" by code_simp
  moreover have "trunc_rat (Fract 8655355533852671 70368744177664) = 122" by code_simp
  ultimately show ?thesis by (simp add: allowed_def NewSlidingWindow_def is_i64_def)
qed

end
