(* ===== verification/LimTokenWindow.thy ===== *)
theory LimTokenWindow
  imports GoNum
begin

text \<open>
  \<^verbatim>\<open>limiter/token_window.go\<close>: the token budget that a ticker refills every window. The state
  is the struct: the two counters, the window, the number of signals buffered in \<open>resetCh\<close>
  (capacity 1) and whether \<open>Stop\<close> has cancelled the context and stopped the ticker.
\<close>

record token_window =
  capacity :: int
  remaining :: int
  windowSize :: int
  resetCh :: nat
  tw_stopped :: bool

text \<open>\<open>time.NewTicker\<close> panics unless the interval is positive.\<close>

definition NewTokenWindow :: "int \<Rightarrow> int \<Rightarrow> token_window outcome" where
  "NewTokenWindow c w =
     (if w \<le> 0 then Panic ''non-positive interval for NewTicker''
      else Ok \<lparr>capacity = c, remaining = c, windowSize = w, resetCh = 0, tw_stopped = False\<rparr>)"

definition TryConsume :: "int \<Rightarrow> token_window \<Rightarrow> bool \<times> token_window" where
  "TryConsume cost tw =
     (if cost \<le> remaining tw then (True, tw\<lparr>remaining := i64 (remaining tw - cost)\<rparr>)
      else (False, tw))"

text \<open>\<open>Reset\<close>: refill, then a non-blocking send to the channel of capacity 1.\<close>

definition tw_Reset :: "token_window \<Rightarrow> token_window" where
  "tw_Reset tw =
     (let tw1 = tw\<lparr>remaining := capacity tw\<rparr>
      in if resetCh tw1 < 1 then tw1\<lparr>resetCh := resetCh tw1 + 1\<rparr> else tw1)"

text \<open>One turn of the goroutine \<open>loop\<close>: it has returned once the context is done.\<close>

definition tw_tick :: "token_window \<Rightarrow> token_window" where
  "tw_tick tw = (if tw_stopped tw then tw else tw_Reset tw)"

definition tw_Capacity :: "token_window \<Rightarrow> int" where
  "tw_Capacity tw = capacity tw"

definition tw_Remaining :: "token_window \<Rightarrow> int" where
  "tw_Remaining tw = remaining tw"

text \<open>Receiving from \<open>ResetCh()\<close>: possible when a signal is buffered.\<close>

definition tw_RecvReset :: "token_window \<Rightarrow> token_window option" where
  "tw_RecvReset tw = (if resetCh tw = 0 then None else Some (tw\<lparr>resetCh := resetCh tw - 1\<rparr>))"

definition tw_Stop :: "token_window \<Rightarrow> token_window" where
  "tw_Stop tw = tw\<lparr>tw_stopped := True\<rparr>"

section \<open>Runs\<close>

text \<open>
  What can happen to a window: an attempt to consume, a tick, a receive by the dispatcher,
  \<open>Stop\<close>. The run carries the tokens granted since the last refill.
\<close>

datatype tw_event = Consume int | Tick | Recv | StopTW

fun tw_step :: "tw_event \<Rightarrow> int \<times> token_window \<Rightarrow> int \<times> token_window" where
  "tw_step (Consume cost) (spent, tw) =
     (let (ok, tw') = TryConsume cost tw in (if ok then spent + cost else spent, tw'))"
| "tw_step Tick (spent, tw) = (if tw_stopped tw then spent else 0, tw_tick tw)"
| "tw_step Recv (spent, tw) = (spent, case tw_RecvReset tw of None \<Rightarrow> tw | Some tw' \<Rightarrow> tw')"
| "tw_step StopTW (spent, tw) = (spent, tw_Stop tw)"

definition tw_run :: "tw_event list \<Rightarrow> int \<times> token_window \<Rightarrow> int \<times> token_window" where
  "tw_run es st = fold tw_step es st"

definition tw_inv :: "int \<times> token_window \<Rightarrow> bool" where
  "tw_inv st = (case st of (spent, tw) \<Rightarrow>
     0 \<le> spent \<and> 0 \<le> remaining tw \<and> spent + remaining tw = capacity tw \<and> capacity tw < 2 ^ 63
     \<and> resetCh tw \<le> 1)"

lemma TryConsume_inv:
  assumes "tw_inv (spent, tw)" and "0 \<le> cost" and "TryConsume cost tw = (ok, tw')"
  shows "remaining tw' = (if ok then remaining tw - cost else remaining tw)
    \<and> capacity tw' = capacity tw \<and> (ok \<longleftrightarrow> cost \<le> remaining tw)"
proof -
  have "is_i64 (remaining tw - cost)" if "cost \<le> remaining tw"
    using assms(1,2) that by (auto simp: tw_inv_def is_i64_def)
  then show ?thesis using assms(3) by (auto simp: TryConsume_def i64_id split: if_splits)
qed

lemma tw_step_inv:
  assumes "tw_inv st" and "\<And>c. e = Consume c \<Longrightarrow> 0 \<le> c"
  shows "tw_inv (tw_step e st) \<and> capacity (snd (tw_step e st)) = capacity (snd st)"
proof (cases st)
  case (Pair spent tw)
  show ?thesis
  proof (cases e)
    case (Consume c)
    obtain ok tw' where t: "TryConsume c tw = (ok, tw')" by fastforce
    have "resetCh tw' = resetCh tw" using t by (auto simp: TryConsume_def split: if_splits)
    then show ?thesis
      using TryConsume_inv[OF _ _ t, of spent] assms Consume Pair t by (auto simp: tw_inv_def)
  qed (use assms Pair in \<open>auto simp: tw_inv_def tw_tick_def tw_Reset_def tw_RecvReset_def tw_Stop_def Let_def\<close>)
qed

lemma tw_run_inv:
  "tw_inv st \<Longrightarrow> (\<And>c. Consume c \<in> set es \<Longrightarrow> 0 \<le> c) \<Longrightarrow>
   tw_inv (tw_run es st) \<and> capacity (snd (tw_run es st)) = capacity (snd st)"
proof (induction es arbitrary: st)
  case Nil
  then show ?case by (simp add: tw_run_def)
next
  case (Cons e es)
  have "tw_inv (tw_step e st) \<and> capacity (snd (tw_step e st)) = capacity (snd st)"
    by (rule tw_step_inv) (use Cons.prems in auto)
  then show ?case using Cons.IH[of "tw_step e st"] Cons.prems(2) by (simp add: tw_run_def)
qed

section \<open>Properties\<close>

text \<open>
  The budget holds: with non-negative costs, whatever is consumed, ticks, is received or
  stops after construction, the tokens granted since the last refill plus the remaining ones
  are the capacity and neither is negative, so no window grants more than its capacity; and at
  most one reset signal is ever buffered.
\<close>

lemma token_window_budget:
  assumes "NewTokenWindow c w = Ok tw0" and "0 \<le> c" and "c < 2 ^ 63"
    and "\<forall>cost. Consume cost \<in> set es \<longrightarrow> 0 \<le> cost"
    and "tw_run es (0, tw0) = (spent, tw)"
  shows "spent + tw_Remaining tw = c \<and> 0 \<le> tw_Remaining tw \<and> spent \<le> c \<and> resetCh tw \<le> 1"
proof -
  have "tw_inv (0, tw0)" "capacity tw0 = c"
    using assms(1-3) by (auto simp: NewTokenWindow_def tw_inv_def split: if_splits)
  then show ?thesis using tw_run_inv[of "(0, tw0)" es] assms(4,5) by (auto simp: tw_inv_def tw_Remaining_def)
qed

text \<open>
  The budget depends on the costs being non-negative: one request of cost -5, which the
  configuration accepts as \<open>default_tokens\<close>, raises what is left above the capacity, and a
  window of capacity 10 then grants 15 tokens to the next request without a refill.
\<close>

lemma token_window_negative_cost:
  "let tw0 = \<lparr>capacity = 10, remaining = 10, windowSize = 1, resetCh = 0, tw_stopped = False\<rparr>;
       (ok1, tw1) = TryConsume (-5) tw0; (ok2, tw2) = TryConsume 15 tw1
   in NewTokenWindow 10 1 = Ok tw0 \<and> ok1 \<and> tw_Remaining tw1 = 15 \<and> ok2 \<and> tw_Remaining tw2 = 0"
  by (simp add: NewTokenWindow_def TryConsume_def tw_Remaining_def i64_def)

end
