(* ===== verification/Limiter.thy ===== *)
theory Limiter
  imports LimStrict LimSliding LimTokenWindow
begin

text \<open>
  \<^verbatim>\<open>limiter/limiter.go\<close> and \<^verbatim>\<open>limiter/token_bucket.go\<close>: the options, the factory and the unit
  conversion. \<open>golang.org/x/time/rate\<close> is not part of the program: its limiter is a type
  parameter \<open>'tb\<close> and its functions are arguments.
\<close>

record limiter_options =
  lo_BurstSize :: int
  lo_WindowSeconds :: int
  lo_CompensationMs :: float64

datatype 'tb limiter =
    StrictLimiter strict
  | TokenBucketLimiter 'tb
  | SlidingWindowLimiter sliding

definition toRPS :: "float64 \<Rightarrow> string \<Rightarrow> float64" where
  "toRPS rate unit = (if unit = ''rpm'' then f_div rate (f_of_int 60) else rate)"

text \<open>The rate after latency compensation, with the constant \<open>0.001\<close> rounded as Go rounds it.\<close>

definition milli :: float64 where
  "milli = round64 (1 / 1000)"

definition compensate :: "float64 \<Rightarrow> float64 \<Rightarrow> float64" where
  "compensate r ms =
     (if f_less (Fin 0) ms
      then let interval = f_sub (f_div (f_of_int 1) r) (f_div ms (f_of_int 1000))
           in f_div (f_of_int 1) (f_max milli interval)
      else r)"

definition NewTokenBucket :: "(float64 \<Rightarrow> int \<Rightarrow> 'tb) \<Rightarrow> float64 \<Rightarrow> int \<Rightarrow> 'tb" where
  "NewTokenBucket NewLimiter r burst = NewLimiter r burst"

text \<open>\<open>TokensAvailable\<close> truncates the float that the library reports.\<close>

definition TokensAvailable :: "(float64 \<Rightarrow> int) \<Rightarrow> ('tb \<Rightarrow> float64) \<Rightarrow> 'tb \<Rightarrow> int" where
  "TokensAvailable oor Tokens rl = to_i64 oor (Tokens rl)"

definition limiter_New ::
  "(float64 \<Rightarrow> int) \<Rightarrow> (float64 \<Rightarrow> int \<Rightarrow> 'tb) \<Rightarrow> int \<Rightarrow>
   string \<Rightarrow> float64 \<Rightarrow> string \<Rightarrow> limiter_options \<Rightarrow> 'tb limiter outcome" where
  "limiter_New oor NewLimiter now algorithm rate unit opts =
     (let r0 = toRPS rate unit
      in if f_le r0 (Fin 0) then Err RateNotPositive
         else let r = compensate r0 (lo_CompensationMs opts)
              in if algorithm = ''strict'' then
                   (case NewStrict oor now r of
                      Ok l \<Rightarrow> Ok (StrictLimiter l) | Err e \<Rightarrow> Err e | Panic m \<Rightarrow> Panic m)
                 else if algorithm = ''token_bucket'' then
                   (let burst = (if lo_BurstSize opts \<le> 0 then 1 else lo_BurstSize opts)
                    in Ok (TokenBucketLimiter (NewTokenBucket NewLimiter r burst)))
                 else if algorithm = ''sliding_window'' then
                   (let win = (if lo_WindowSeconds opts \<le> 0 then 1 else lo_WindowSeconds opts)
                    in Ok (SlidingWindowLimiter (NewSlidingWindow r win)))
                 else Err (UnknownAlgorithm algorithm))"

section \<open>The \<open>Limiter\<close> interface\<close>

text \<open>
  \<open>Wait\<close> of the interface when it returns without an error: the limiter after the grant, or
  \<open>None\<close> while none has come. The strict limiter is asked at \<open>now\<close>, the sliding window polls
  at the times of \<open>polls\<close>, the library's bucket is the argument \<open>tbWait\<close>.
\<close>

fun lim_Wait ::
  "(float64 \<Rightarrow> int) \<Rightarrow> (int \<Rightarrow> 'tb \<Rightarrow> 'tb option) \<Rightarrow> int \<Rightarrow> (int \<times> bool) list \<Rightarrow> 'tb limiter \<Rightarrow> 'tb limiter option" where
  "lim_Wait oor tbWait now polls (StrictLimiter l) =
     (case strict_Wait False None now l of
        (Slot g, l') \<Rightarrow> Some (StrictLimiter l') | (StrictCancelled, l') \<Rightarrow> None)"
| "lim_Wait oor tbWait now polls (SlidingWindowLimiter l) =
     (case sliding_Wait oor polls l of
        (Some (Granted g), l') \<Rightarrow> Some (SlidingWindowLimiter l') | _ \<Rightarrow> None)"
| "lim_Wait oor tbWait now polls (TokenBucketLimiter tb) =
     map_option TokenBucketLimiter (tbWait now tb)"

section \<open>Compensation\<close>

lemma milli_value: "milli = Fin (Fract 1152921504606847 1152921504606846976)"
  by code_simp

lemma inverse_milli: "f_div (f_of_int 1) milli = Fin 1000"
  by code_simp

lemma f_max_milli:
  obtains "f_max milli x = Inf False" | "f_max milli x = NaN"
  | y where "f_max milli x = Fin y" "Fract 1152921504606847 1152921504606846976 \<le> y"
proof (cases x)
  case NaN
  then show ?thesis using that(2) by (simp add: f_max_def milli_value)
next
  case (Inf s)
  then show ?thesis using that by (cases s) (simp_all add: f_max_def milli_value)
next
  case (Fin y)
  then show ?thesis
    using that(3)[of y] that(3)[of "Fract 1152921504606847 1152921504606846976"]
    by (cases "y < Fract 1152921504606847 1152921504606846976") (simp_all add: f_max_def milli_value)
qed

section \<open>Properties\<close>

text \<open>
  Latency compensation cannot run away: however large the compensation, the effective
  rate is between 0 and 1000 per second (an interval of at least a millisecond), unless the
  configured rate is not a number.
\<close>

lemma compensate_bounded:
  assumes "f_less (Fin 0) ms"
  shows "compensate r ms = NaN
    \<or> (f_le (Fin 0) (compensate r ms) \<and> f_le (compensate r ms) (Fin 1000))"
proof -
  have c: "compensate r ms = f_div (f_of_int 1)
      (f_max milli (f_sub (f_div (f_of_int 1) r) (f_div ms (f_of_int 1000))))"
    using assms by (simp add: compensate_def)
  have one: "f_of_int 1 = Fin 1" using round64_int[of 1] by simp
  show ?thesis
  proof (rule f_max_milli[of "f_sub (f_div (f_of_int 1) r) (f_div ms (f_of_int 1000))"], goal_cases)
    case 1
    then show ?thesis unfolding c one by (simp add: f_le_def)
  next
    case 2
    then show ?thesis unfolding c one by simp
  next
    case (3 y)
    let ?m = "Fract 1152921504606847 1152921504606846976"
    have m: "0 < ?m" by code_simp
    then have y: "0 < y" using 3(2) by linarith
    have "1 / y \<le> 1 / ?m" using 3(2) m by (simp add: frac_le)
    then have le: "f_le (round64 (1 / y)) (round64 (1 / ?m))" by (rule round64_mono)
    have top: "round64 (1 / ?m) = Fin 1000" by code_simp
    have ge: "f_le (Fin 0) (round64 (1 / y))" using round64_mono[of 0 "1 / y"] y by simp
    have "compensate r ms = f_div (Fin 1) (Fin y)" 
      unfolding c 3(1) by (simp only: one)
    then have "compensate r ms = round64 (1 / y)" using y by simp
    then show ?thesis using le ge unfolding top by simp
  qed
qed

text \<open>
  What the factory refuses: an error exactly when the rate per second is not positive or
  the algorithm is none of the three it builds, and a panic only for the strict algorithm,
  exactly when the interval truncates to nothing.
\<close>

lemma limiter_New_outcome:
  "((\<exists>e. limiter_New oor NewLimiter now algorithm rate unit opts = Err e) \<longleftrightarrow>
     f_le (toRPS rate unit) (Fin 0) \<or> algorithm \<notin> {''strict'', ''token_bucket'', ''sliding_window''})
   \<and> (is_panic (limiter_New oor NewLimiter now algorithm rate unit opts) \<longleftrightarrow>
     \<not> f_le (toRPS rate unit) (Fin 0) \<and> algorithm = ''strict''
     \<and> strict_interval oor (compensate (toRPS rate unit) (lo_CompensationMs opts)) \<le> 0)"
  by (auto simp: limiter_New_def NewStrict_def Let_def)

end
