(* ===== verification/GoStrconv.thy ===== *)
theory GoStrconv
  imports GoNum
begin

text \<open>
  Go's \<open>strconv\<close> as the program calls it: \<open>Atoi\<close> and \<open>ParseInt(s, 10, 64)\<close>, \<open>Itoa\<close> (and the
  verb \<open>%d\<close>), \<open>ParseFloat(s, 64)\<close>. A string is its bytes; \<open>None\<close> is a non-nil error.
\<close>

section \<open>Decimal integers\<close>

definition is_digit :: "char \<Rightarrow> bool" where
  "is_digit c \<longleftrightarrow> 48 \<le> (of_char c :: int) \<and> (of_char c :: int) \<le> 57"

definition digit_val :: "char \<Rightarrow> int" where
  "digit_val c = of_char c - 48"

fun parse_digits :: "int \<Rightarrow> string \<Rightarrow> int option" where
  "parse_digits acc [] = Some acc"
| "parse_digits acc (c # cs) =
     (if is_digit c then parse_digits (acc * 10 + digit_val c) cs else None)"

definition Atoi :: "string \<Rightarrow> int option" where
  "Atoi s =
     (case s of
        [] \<Rightarrow> None
      | c # cs \<Rightarrow>
          let body = (if c = CHR ''-'' \<or> c = CHR ''+'' then cs else s)
          in if body = [] then None
             else case parse_digits 0 body of
                    None \<Rightarrow> None
                  | Some v \<Rightarrow>
                      let x = (if c = CHR ''-'' then - v else v)
                      in if is_i64 x then Some x else None)"

definition digit_char :: "int \<Rightarrow> char" where
  "digit_char n = char_of (48 + n)"

function show_digits :: "int \<Rightarrow> string" where
  "show_digits n = (if n < 10 then [digit_char n] else show_digits (n div 10) @ [digit_char (n mod 10)])"
  by pat_completeness auto
termination
  by (relation "measure nat") auto

declare show_digits.simps [simp del]

definition Itoa :: "int \<Rightarrow> string" where
  "Itoa n = (if n < 0 then CHR ''-'' # show_digits (- n) else show_digits n)"

section \<open>Floating point\<close>

definition lower :: "char \<Rightarrow> char" where
  "lower c = (if 65 \<le> (of_char c :: int) \<and> (of_char c :: int) \<le> 90 then char_of (of_char c + 32 :: int) else c)"

definition is_hex_letter :: "char \<Rightarrow> bool" where
  "is_hex_letter c \<longleftrightarrow> 97 \<le> (of_char (lower c) :: int) \<and> (of_char (lower c) :: int) \<le> 102"

text \<open>\<open>underscoreOK\<close>: an underscore stands between digits or after a base prefix.\<close>

datatype saw = SawStart | SawDigit | SawUnderscore | SawOther

fun underscore_scan :: "bool \<Rightarrow> saw \<Rightarrow> string \<Rightarrow> bool" where
  "underscore_scan hex saw [] \<longleftrightarrow> saw \<noteq> SawUnderscore"
| "underscore_scan hex saw (c # cs) \<longleftrightarrow>
     (if is_digit c \<or> (hex \<and> is_hex_letter c) then underscore_scan hex SawDigit cs
      else if c = CHR ''_'' then saw = SawDigit \<and> underscore_scan hex SawUnderscore cs
      else saw \<noteq> SawUnderscore \<and> underscore_scan hex SawOther cs)"

definition strip_sign :: "string \<Rightarrow> bool \<times> string" where
  "strip_sign s =
     (case s of
        [] \<Rightarrow> (False, s)
      | c # cs \<Rightarrow> if c = CHR ''-'' then (True, cs) else if c = CHR ''+'' then (False, cs) else (False, s))"

definition underscoreOK :: "string \<Rightarrow> bool" where
  "underscoreOK s =
     (case snd (strip_sign s) of
        a # b # rest \<Rightarrow>
          if a = CHR ''0'' \<and> lower b \<in> {CHR ''b'', CHR ''o'', CHR ''x''}
          then underscore_scan (lower b = CHR ''x'') SawDigit rest
          else underscore_scan False SawStart (a # b # rest)
      | t \<Rightarrow> underscore_scan False SawStart t)"

text \<open>
  The mantissa loop of \<open>readFloat\<close>: digits, at most one dot, underscores. The state is the
  mantissa read as one integer, the number of digits after the dot, and the flags \<open>sawdot\<close>,
  \<open>sawdigits\<close>, \<open>underscores\<close>.
\<close>

record mant_state =
  mant :: int
  frac :: int
  sawdot :: bool
  sawdigits :: bool
  underscores :: bool

fun scan_mant :: "bool \<Rightarrow> mant_state \<Rightarrow> string \<Rightarrow> mant_state \<times> string" where
  "scan_mant hex st [] = (st, [])"
| "scan_mant hex st (c # cs) =
     (if c = CHR ''_'' then scan_mant hex (st\<lparr>underscores := True\<rparr>) cs
      else if c = CHR ''.'' then
        (if sawdot st then (st, c # cs) else scan_mant hex (st\<lparr>sawdot := True\<rparr>) cs)
      else if is_digit c \<or> (hex \<and> is_hex_letter c) then
        (let v = (if is_digit c then digit_val c else of_char (lower c) - 87)
         in scan_mant hex
              (st\<lparr>mant := mant st * (if hex then 16 else 10) + v,
                  frac := (if sawdot st then frac st + 1 else frac st), sawdigits := True\<rparr>) cs)
      else (st, c # cs))"

text \<open>The exponent's digits; the accumulation stops growing at 10000.\<close>

fun scan_exp :: "int \<Rightarrow> bool \<Rightarrow> string \<Rightarrow> int \<times> bool \<times> string" where
  "scan_exp e us [] = (e, us, [])"
| "scan_exp e us (c # cs) =
     (if c = CHR ''_'' then scan_exp e True cs
      else if is_digit c then scan_exp (if e < 10000 then e * 10 + digit_val c else e) us cs
      else (e, us, c # cs))"

definition ratpow :: "int \<Rightarrow> int \<Rightarrow> rat" where
  "ratpow b e = (if 0 \<le> e then of_int (b ^ nat e) else Fract 1 (b ^ nat (- e)))"

definition finish_float :: "bool \<Rightarrow> bool \<Rightarrow> mant_state \<Rightarrow> int \<Rightarrow> float64 option" where
  "finish_float neg hex st e =
     (let m = of_int (if neg then - mant st else mant st) :: rat;
          x = (if mant st = 0 then 0
               else if hex then m * ratpow 2 (e - 4 * frac st) else m * ratpow 10 (e - frac st))
      in case round64 x of Fin a \<Rightarrow> Some (Fin a) | _ \<Rightarrow> None)"

definition readFloat :: "string \<Rightarrow> float64 option" where
  "readFloat s =
     (let (neg, body) = strip_sign s;
          hex = (case body of a # b # _ # _ \<Rightarrow> a = CHR ''0'' \<and> lower b = CHR ''x'' | _ \<Rightarrow> False);
          (st, rest) = scan_mant hex
             \<lparr>mant = 0, frac = 0, sawdot = False, sawdigits = False, underscores = False\<rparr>
             (if hex then drop 2 body else body)
      in if \<not> sawdigits st then None
         else case rest of
           [] \<Rightarrow> if hex \<or> (underscores st \<and> \<not> underscoreOK s) then None else finish_float neg hex st 0
         | c # cs \<Rightarrow>
             if lower c \<noteq> (if hex then CHR ''p'' else CHR ''e'') then None
             else let (eneg, ds) = strip_sign cs
                  in case ds of
                       [] \<Rightarrow> None
                     | d # _ \<Rightarrow>
                         if \<not> is_digit d then None
                         else let (e, us, rest') = scan_exp 0 (underscores st) ds
                              in if rest' \<noteq> [] \<or> (us \<and> \<not> underscoreOK s) then None
                                 else finish_float neg hex st (if eneg then - e else e))"

text \<open>
  \<open>special\<close> recognises the infinities and NaN in any letter case. A result that overflows is an
  error (\<open>ErrRange\<close>), although the infinities themselves parse.
\<close>

definition ParseFloat :: "string \<Rightarrow> float64 option" where
  "ParseFloat s =
     (let (neg, body) = strip_sign s; word = map lower body
      in if word = ''inf'' \<or> word = ''infinity'' then Some (Inf neg)
         else if map lower s = ''nan'' then Some NaN
         else readFloat s)"

section \<open>Itoa and Atoi\<close>

lemma digit_char: "0 \<le> n \<Longrightarrow> n < 10 \<Longrightarrow> is_digit (digit_char n) \<and> digit_val (digit_char n) = n"
  by (simp add: is_digit_def digit_val_def digit_char_def)

lemma parse_digits_append:
  "parse_digits acc (xs @ ys) = Option.bind (parse_digits acc xs) (\<lambda>v. parse_digits v ys)"
  by (induction acc xs rule: parse_digits.induct) auto

lemma parse_show_digits: "0 \<le> n \<Longrightarrow> parse_digits 0 (show_digits n) = Some n"
proof (induction n rule: show_digits.induct)
  case (1 n)
  show ?case
  proof (cases "n < 10")
    case True
    then show ?thesis using 1 digit_char[of n] by (subst show_digits.simps) simp
  next
    case False
    then show ?thesis
      using 1 digit_char[of "n mod 10"] by (subst show_digits.simps) (simp add: parse_digits_append)
  qed
qed

lemma show_digits_Cons: "0 \<le> n \<Longrightarrow> \<exists>c cs. show_digits n = c # cs \<and> is_digit c"
proof (induction n rule: show_digits.induct)
  case (1 n)
  show ?case
  proof (cases "n < 10")
    case True
    then show ?thesis using 1 digit_char[of n] by (simp add: show_digits.simps[of n])
  next
    case False
    then obtain c cs where "show_digits (n div 10) = c # cs" "is_digit c"
      using 1 by force
    then show ?thesis using False by (simp add: show_digits.simps[of n])
  qed
qed

lemma Atoi_Itoa: "is_i64 n \<Longrightarrow> Atoi (Itoa n) = Some n"
proof -
  assume n: "is_i64 n"
  obtain c cs where c: "show_digits \<bar>n\<bar> = c # cs" "is_digit c"
    using show_digits_Cons[of "\<bar>n\<bar>"] by auto
  have "c \<noteq> CHR ''-''" "c \<noteq> CHR ''+''" using c(2) by (auto simp: is_digit_def)
  then show ?thesis
    using parse_show_digits[of "\<bar>n\<bar>"] c(1) n
    by (cases "n < 0") (simp_all add: Itoa_def Atoi_def)
qed

end
