(* ===== verification/Config.thy ===== *)
theory Config
  imports GoRound GoStrconv
begin

text \<open>
  \<^verbatim>\<open>config/config.go\<close>, \<^verbatim>\<open>config/merge.go\<close> and the configuration part of \<^verbatim>\<open>main.go\<close>: the
  structs as records, the defaults, the inheritance, the validation and the overrides. The
  YAML decoder, the file system and the flag package are arguments. A float field is unset
  when it compares equal to zero.
\<close>

section \<open>Data\<close>

record server_config =
  Host :: string
  Port :: int

record defaults =
  d_Scheduler :: string
  d_Algorithm :: string
  d_Unit :: string
  d_MaxQueueSize :: int
  d_Overflow :: string
  d_QueueTimeout :: float64
  d_LatencyCompensation :: float64
  MaxDynamicEndpoints :: int
  d_TokensPerWindow :: int
  d_DefaultTokens :: int

record endpoint_config =
  Path :: string
  Rate :: float64
  Unit :: string
  Scheduler :: string
  Algorithm :: string
  MaxQueueSize :: int
  Overflow :: string
  BurstSize :: int
  WindowSeconds :: int
  QueueTimeout :: float64
  LatencyCompensation :: float64
  TokensPerWindow :: int
  DefaultTokens :: int
  Dynamic :: bool

record config =
  Server :: server_config
  Defaults :: defaults
  Endpoints :: "endpoint_config list"

text \<open>The zero value of the struct, from which Go's composite literals start.\<close>

definition zero_endpoint :: endpoint_config where
  "zero_endpoint =
     \<lparr>Path = '''', Rate = Fin 0, Unit = '''', Scheduler = '''', Algorithm = '''', MaxQueueSize = 0,
      Overflow = '''', BurstSize = 0, WindowSeconds = 0, QueueTimeout = Fin 0,
      LatencyCompensation = Fin 0, TokensPerWindow = 0, DefaultTokens = 0, Dynamic = False\<rparr>"

definition zero_defaults :: defaults where
  "zero_defaults =
     \<lparr>d_Scheduler = '''', d_Algorithm = '''', d_Unit = '''', d_MaxQueueSize = 0, d_Overflow = '''',
      d_QueueTimeout = Fin 0, d_LatencyCompensation = Fin 0, MaxDynamicEndpoints = 0,
      d_TokensPerWindow = 0, d_DefaultTokens = 0\<rparr>"

definition zero_config :: config where
  "zero_config = \<lparr>Server = \<lparr>Host = '''', Port = 0\<rparr>, Defaults = zero_defaults, Endpoints = []\<rparr>"

definition systemDefaults :: defaults where
  "systemDefaults = zero_defaults
     \<lparr>d_Scheduler := ''fifo'', d_Algorithm := ''strict'', d_Unit := ''rps'', d_MaxQueueSize := 1000,
      d_Overflow := ''reject''\<rparr>"

section \<open>Filling unset fields\<close>

text \<open>\<open>if x == zero { x = y }\<close> at each field type.\<close>

definition or_str :: "string \<Rightarrow> string \<Rightarrow> string" where
  "or_str x y = (if x = '''' then y else x)"

definition or_int :: "int \<Rightarrow> int \<Rightarrow> int" where
  "or_int x y = (if x = 0 then y else x)"

definition or_float :: "float64 \<Rightarrow> float64 \<Rightarrow> float64" where
  "or_float x y = (if f_eq x (Fin 0) then y else x)"

definition mergeWithSystem :: "defaults \<Rightarrow> defaults" where
  "mergeWithSystem d = d
     \<lparr>d_Scheduler := or_str (d_Scheduler d) (d_Scheduler systemDefaults),
      d_Algorithm := or_str (d_Algorithm d) (d_Algorithm systemDefaults),
      d_Unit := or_str (d_Unit d) (d_Unit systemDefaults),
      d_MaxQueueSize := or_int (d_MaxQueueSize d) (d_MaxQueueSize systemDefaults),
      d_Overflow := or_str (d_Overflow d) (d_Overflow systemDefaults)\<rparr>"

definition root_endpoint :: "defaults \<Rightarrow> endpoint_config" where
  "root_endpoint d = zero_endpoint
     \<lparr>Path := ''/'', Rate := Fin 1, Unit := d_Unit d, Scheduler := d_Scheduler d,
      Algorithm := d_Algorithm d, MaxQueueSize := d_MaxQueueSize d, Overflow := d_Overflow d\<rparr>"

definition fill_endpoint :: "defaults \<Rightarrow> endpoint_config \<Rightarrow> endpoint_config" where
  "fill_endpoint d e =
     (let e1 = e
        \<lparr>Rate := or_float (Rate e) (Fin 1),
         Unit := or_str (Unit e) (d_Unit d),
         Scheduler := or_str (Scheduler e) (d_Scheduler d),
         Algorithm := or_str (Algorithm e) (d_Algorithm d),
         MaxQueueSize := or_int (MaxQueueSize e) (d_MaxQueueSize d),
         Overflow := or_str (Overflow e) (d_Overflow d),
         QueueTimeout := or_float (QueueTimeout e) (d_QueueTimeout d),
         LatencyCompensation := or_float (LatencyCompensation e) (d_LatencyCompensation d),
         TokensPerWindow := or_int (TokensPerWindow e) (d_TokensPerWindow d),
         DefaultTokens := or_int (DefaultTokens e) (d_DefaultTokens d)\<rparr>
      in if Algorithm e1 = ''token_window'' \<and> DefaultTokens e1 = 0
         then e1\<lparr>DefaultTokens := 1\<rparr> else e1)"

definition hasRoot :: "endpoint_config list \<Rightarrow> bool" where
  "hasRoot es = list_ex (\<lambda>e. Path e = ''/'') es"

definition ApplyDefaults :: "config \<Rightarrow> config" where
  "ApplyDefaults cfg =
     (let d = mergeWithSystem (Defaults cfg);
          es = (if hasRoot (Endpoints cfg) then Endpoints cfg
                else root_endpoint d # Endpoints cfg)
      in cfg\<lparr>Endpoints := List.map (fill_endpoint d) es\<rparr>)"

definition InheritFrom :: "endpoint_config \<Rightarrow> endpoint_config \<Rightarrow> endpoint_config" where
  "InheritFrom child parent = child
     \<lparr>Rate := or_float (Rate child) (Rate parent),
      Unit := or_str (Unit child) (Unit parent),
      Scheduler := or_str (Scheduler child) (Scheduler parent),
      Algorithm := or_str (Algorithm child) (Algorithm parent),
      MaxQueueSize := or_int (MaxQueueSize child) (MaxQueueSize parent),
      Overflow := or_str (Overflow child) (Overflow parent),
      BurstSize := or_int (BurstSize child) (BurstSize parent),
      WindowSeconds := or_int (WindowSeconds child) (WindowSeconds parent),
      QueueTimeout := or_float (QueueTimeout child) (QueueTimeout parent),
      LatencyCompensation := or_float (LatencyCompensation child) (LatencyCompensation parent),
      TokensPerWindow := or_int (TokensPerWindow child) (TokensPerWindow parent),
      DefaultTokens := or_int (DefaultTokens child) (DefaultTokens parent)\<rparr>"

section \<open>Validation\<close>

definition validAlgorithm :: "string \<Rightarrow> bool" where
  "validAlgorithm s = List.member [''strict'', ''token_bucket'', ''sliding_window'', ''token_window''] s"

definition validScheduler :: "string \<Rightarrow> bool" where
  "validScheduler s = List.member [''fifo'', ''lifo'', ''priority'', ''random''] s"

definition validUnit :: "string \<Rightarrow> bool" where
  "validUnit s = List.member [''rps'', ''rpm''] s"

text \<open>The loop body, in the order of its checks; \<open>None\<close> when the endpoint passes them all.\<close>

definition check_endpoint :: "endpoint_config \<Rightarrow> go_error option" where
  "check_endpoint e =
     (if \<not> validAlgorithm (Algorithm e) then Some (UnknownAlgorithm (Algorithm e))
      else if \<not> validScheduler (Scheduler e) then Some (UnknownScheduler (Scheduler e))
      else if \<not> validUnit (Unit e) then Some (UnknownUnit (Unit e))
      else if Algorithm e \<noteq> ''token_window'' \<and> f_le (Rate e) (Fin 0) then Some RateNotPositive
      else if MaxQueueSize e \<le> 0 then Some (QueueSizeNotPositive (MaxQueueSize e))
      else if f_less (QueueTimeout e) (Fin 0) then Some QueueTimeoutNegative
      else if Algorithm e = ''token_window'' then
        (if TokensPerWindow e \<le> 0 then Some TokensPerWindowMissing
         else if WindowSeconds e \<le> 0 then Some WindowSecondsMissing
         else if DefaultTokens e > TokensPerWindow e
           then Some (DefaultTokensTooLarge (DefaultTokens e) (TokensPerWindow e))
         else None)
      else None)"

fun validateEndpoints :: "endpoint_config list \<Rightarrow> (string \<times> go_error) option" where
  "validateEndpoints [] = None"
| "validateEndpoints (e # es) =
     (case check_endpoint e of Some err \<Rightarrow> Some (Path e, err) | None \<Rightarrow> validateEndpoints es)"

definition applyServerDefaults :: "config \<Rightarrow> config outcome" where
  "applyServerDefaults cfg =
     (let cfg1 = cfg\<lparr>Server := \<lparr>Host = or_str (Host (Server cfg)) ''0.0.0.0'',
                               Port = or_int (Port (Server cfg)) 8080\<rparr>\<rparr>;
          p = Port (Server cfg1)
      in if p < 1 \<or> p > 65535 then Err (PortOutOfRange p) else Ok cfg1)"

section \<open>Loading\<close>

text \<open>\<open>ReadFile\<close> and \<open>Unmarshal\<close> return the library's error text on the left.\<close>

definition Load ::
  "(string \<Rightarrow> string + 'b) \<Rightarrow> ('b \<Rightarrow> string + config) \<Rightarrow> string \<Rightarrow> config outcome" where
  "Load ReadFile Unmarshal path =
     (case ReadFile path of
        Inl err \<Rightarrow> Err (ReadFailed err)
      | Inr data \<Rightarrow>
          (case Unmarshal data of
             Inl err \<Rightarrow> Err (ParseFailed err)
           | Inr cfg \<Rightarrow>
               (case applyServerDefaults cfg of
                  Err e \<Rightarrow> Err e
                | Panic m \<Rightarrow> Panic m
                | Ok cfg1 \<Rightarrow>
                    (let cfg2 = ApplyDefaults cfg1
                     in case validateEndpoints (Endpoints cfg2) of
                          Some (p, e) \<Rightarrow> Err e
                        | None \<Rightarrow> Ok cfg2))))"

text \<open>
  \<open>MergeOverrides\<close> ranges over a map: the list is the map in the order the iteration takes.
  The configuration is changed in place, so it is returned with the error too.
\<close>

fun MergeOverrides :: "config \<Rightarrow> (string \<times> string) list \<Rightarrow> config \<times> go_error option" where
  "MergeOverrides cfg [] = (cfg, None)"
| "MergeOverrides cfg ((k, v) # rest) =
     (if k = ''port'' then
        (case Atoi v of
           None \<Rightarrow> (cfg, Some (InvalidPort v))
         | Some p \<Rightarrow> MergeOverrides (cfg\<lparr>Server := (Server cfg)\<lparr>Port := p\<rparr>\<rparr>) rest)
      else if k = ''host'' then MergeOverrides (cfg\<lparr>Server := (Server cfg)\<lparr>Host := v\<rparr>\<rparr>) rest
      else (cfg, Some (UnknownOverride k)))"

text \<open>\<open>ParseFlags\<close>: the flag set parses to the values of \<open>config\<close>, \<open>port\<close> and \<open>host\<close>, or fails.\<close>

definition flag_overrides :: "int \<Rightarrow> string \<Rightarrow> (string \<times> string) list" where
  "flag_overrides port host =
     (if port \<noteq> 0 then [(''port'', Itoa port)] else []) @ (if host \<noteq> '''' then [(''host'', host)] else [])"

definition ParseFlags ::
  "(string list \<Rightarrow> string + (string \<times> int \<times> string)) \<Rightarrow> string list
   \<Rightarrow> (string \<times> (string \<times> string) list) outcome" where
  "ParseFlags parse argv =
     (case parse argv of
        Inl err \<Rightarrow> Err (ParseFailed err)
      | Inr (cfgPath, port, host) \<Rightarrow> Ok (cfgPath, flag_overrides port host))"

definition loadConfig ::
  "(string \<Rightarrow> string + 'b) \<Rightarrow> ('b \<Rightarrow> string + config) \<Rightarrow> string \<Rightarrow> (string \<times> string) list
   \<Rightarrow> config outcome" where
  "loadConfig ReadFile Unmarshal path overrides =
     (case Load ReadFile Unmarshal path of
        Ok cfg \<Rightarrow>
          (case MergeOverrides cfg overrides of
             (cfg1, None) \<Rightarrow> Ok cfg1
           | (cfg1, Some e) \<Rightarrow> Err e)
      | Err e \<Rightarrow> Err e
      | Panic m \<Rightarrow> Panic m)"

definition defaultConfig :: config where
  "defaultConfig =
     ApplyDefaults (zero_config\<lparr>Server := \<lparr>Host = ''0.0.0.0'', Port = 8080\<rparr>\<rparr>)"

text \<open>
  The configuration \<open>main\<close> starts the server with: the loaded one, or on an error (which it
  logs) the built-in one with the overrides; the result is an error when \<open>main\<close> exits.
\<close>

definition startup_config ::
  "(string \<Rightarrow> string + 'b) \<Rightarrow> ('b \<Rightarrow> string + config) \<Rightarrow> string \<Rightarrow> int \<Rightarrow> string
   \<Rightarrow> config outcome" where
  "startup_config ReadFile Unmarshal cfgPath port host =
     (let overrides = flag_overrides port host
      in case loadConfig ReadFile Unmarshal cfgPath overrides of
           Ok cfg \<Rightarrow> Ok cfg
         | Panic m \<Rightarrow> Panic m
         | Err e \<Rightarrow>
             (case MergeOverrides defaultConfig overrides of
                (cfg, None) \<Rightarrow> Ok cfg
              | (cfg, Some mergeErr) \<Rightarrow> Err mergeErr))"

section \<open>Facts\<close>

lemma or_str_idem [config_simps]: "or_str (or_str x y) y = or_str x y"
  and or_int_idem [config_simps]: "or_int (or_int i j) j = or_int i j"
  and or_float_idem [config_simps]: "or_float (or_float a b) b = or_float a b"
  by (simp_all add: or_str_def or_int_def or_float_def)

lemma or_str_assoc [config_simps]: "or_str (or_str x y) z = or_str x (or_str y z)"
  and or_int_assoc [config_simps]: "or_int (or_int i j) k = or_int i (or_int j k)"
  and or_float_assoc [config_simps]: "or_float (or_float a b) c = or_float a (or_float b c)"
  by (simp_all add: or_str_def or_int_def or_float_def)

lemma or_zero [config_simps]:
  "or_str '''' y = y" "or_int 0 j = j" "or_float (Fin 0) b = b"
  by (simp_all add: or_str_def or_int_def or_float_def)

lemma fill_endpoint_Path [simp]: "Path (fill_endpoint d e) = Path e"
  by (simp add: fill_endpoint_def Let_def)

lemma fill_endpoint_idem: "fill_endpoint d (fill_endpoint d e) = fill_endpoint d e"
proof -
  have set: "or_int 1 j = 1" "or_str (c # cs) y = c # cs" for j c cs y
    by (simp_all add: or_int_def or_str_def)
  have self: "or_str y y = y" "or_int j j = j" "or_float b b = b" for y j b
    by (simp_all add: or_str_def or_int_def or_float_def)
  show ?thesis
    by (auto simp: fill_endpoint_def Let_def config_simps set self)
qed

lemma hasRoot_fill [simp]: "hasRoot (List.map (fill_endpoint d) es) = hasRoot es"
  by (induction es) (auto simp: hasRoot_def)

lemma ApplyDefaults_hasRoot [simp]: "hasRoot (Endpoints (ApplyDefaults cfg))"
  by (auto simp: ApplyDefaults_def Let_def) (auto simp: hasRoot_def root_endpoint_def)

lemma ApplyDefaults_other [simp]:
  "Server (ApplyDefaults cfg) = Server cfg" "Defaults (ApplyDefaults cfg) = Defaults cfg"
  by (simp_all add: ApplyDefaults_def Let_def)

lemma validateEndpoints_None:
  "validateEndpoints es = None \<longleftrightarrow> (\<forall>e\<in>set es. check_endpoint e = None)"
  by (induction es) (auto split: option.splits)

lemma applyServerDefaults_Ok:
  assumes "applyServerDefaults cfg = Ok cfg1"
  shows "1 \<le> Port (Server cfg1) \<and> Port (Server cfg1) \<le> 65535 \<and> Host (Server cfg1) \<noteq> ''''
    \<and> Endpoints cfg1 = Endpoints cfg \<and> Defaults cfg1 = Defaults cfg"
  using assms by (auto simp: applyServerDefaults_def Let_def or_str_def split: if_splits)

lemma applyServerDefaults_not_Panic [simp]: "applyServerDefaults cfg \<noteq> Panic m"
  by (simp add: applyServerDefaults_def Let_def)

lemma Load_not_Panic [simp]: "Load ReadFile Unmarshal path \<noteq> Panic m"
  by (auto simp: Load_def Let_def split: sum.splits outcome.splits option.splits)

lemma Load_Ok_cases:
  assumes "Load ReadFile Unmarshal path = Ok cfg"
  obtains c where "1 \<le> Port (Server c)" "Port (Server c) \<le> 65535"
    "Host (Server c) \<noteq> ''''" "cfg = ApplyDefaults c" "validateEndpoints (Endpoints cfg) = None"
proof -
  from assms obtain c0 c where c: "applyServerDefaults c0 = Ok c" "cfg = ApplyDefaults c"
    "validateEndpoints (Endpoints cfg) = None"
    by (auto simp: Load_def Let_def split: sum.splits outcome.splits option.splits)
  then show ?thesis using applyServerDefaults_Ok[OF c(1)] that[of c] by blast
qed

lemma MergeOverrides_keeps:
  "MergeOverrides cfg os = (cfg', r) \<Longrightarrow>
   Endpoints cfg' = Endpoints cfg \<and> Defaults cfg' = Defaults cfg"
  by (induction cfg os rule: MergeOverrides.induct) (auto split: if_splits option.splits)

lemma MergeOverrides_flags:
  assumes "is_i64 port"
  shows "MergeOverrides cfg (flag_overrides port host) =
    (cfg\<lparr>Server := \<lparr>Host = or_str host (Host (Server cfg)), Port = or_int port (Port (Server cfg))\<rparr>\<rparr>, None)"
  using Atoi_Itoa[OF assms] by (auto simp: flag_overrides_def or_str_def or_int_def)

lemma defaultConfig_valid: "validateEndpoints (Endpoints defaultConfig) = None"
  by code_simp

lemma loadConfig_flags:
  assumes "is_i64 port"
  shows "loadConfig ReadFile Unmarshal path (flag_overrides port host) =
    (case Load ReadFile Unmarshal path of
       Ok cfg \<Rightarrow> Ok (cfg\<lparr>Server := \<lparr>Host = or_str host (Host (Server cfg)),
                                   Port = or_int port (Port (Server cfg))\<rparr>\<rparr>)
     | Err e \<Rightarrow> Err e | Panic m \<Rightarrow> Panic m)"
  by (simp add: loadConfig_def MergeOverrides_flags[OF assms] split: outcome.splits)

lemma InheritFrom_bare:
  "InheritFrom (zero_endpoint\<lparr>Path := p, Dynamic := True\<rparr>) parent = parent\<lparr>Path := p, Dynamic := True\<rparr>"
  by (cases parent) (simp add: InheritFrom_def zero_endpoint_def config_simps)

lemma check_endpoint_Path_Dynamic [simp]:
  "check_endpoint (e\<lparr>Path := p, Dynamic := b\<rparr>) = check_endpoint e"
  by (simp add: check_endpoint_def)

lemma root_without_window:
  assumes "d_Algorithm d = ''token_window''"
  shows "check_endpoint (fill_endpoint d (root_endpoint d)) \<noteq> None"
  using assms
  by (simp add: check_endpoint_def fill_endpoint_def root_endpoint_def zero_endpoint_def or_str_def Let_def)

lemma startup_config_valid:
  assumes "is_i64 port"
  shows "\<exists>cfg. startup_config ReadFile Unmarshal cfgPath port host = Ok cfg
    \<and> hasRoot (Endpoints cfg) \<and> validateEndpoints (Endpoints cfg) = None
    \<and> (port \<noteq> 0 \<longrightarrow> Port (Server cfg) = port) \<and> (host \<noteq> '''' \<longrightarrow> Host (Server cfg) = host)"
proof (cases "Load ReadFile Unmarshal cfgPath")
  case (Ok cfg)
  then have "hasRoot (Endpoints cfg)" "validateEndpoints (Endpoints cfg) = None"
    by (auto elim!: Load_Ok_cases)
  then show ?thesis
    using Ok by (simp add: startup_config_def Let_def loadConfig_flags[OF assms] or_str_def or_int_def)
next
  case (Err e)
  have "hasRoot (Endpoints defaultConfig)" by (simp add: defaultConfig_def)
  then show ?thesis
    using Err defaultConfig_valid
    by (simp add: startup_config_def Let_def loadConfig_flags[OF assms] MergeOverrides_flags[OF assms]
        or_str_def or_int_def)
qed simp

section \<open>Properties\<close>

text \<open>
  Applying the defaults is idempotent: a configuration that has been through it once (for
  instance one written back and loaded again) is a fixed point, its root endpoint is not
  inserted twice and no field is filled differently.
\<close>

lemma ApplyDefaults_idempotent:
  "ApplyDefaults (ApplyDefaults cfg) = ApplyDefaults cfg"
proof -
  have "Endpoints (ApplyDefaults (ApplyDefaults cfg)) =
    List.map (fill_endpoint (mergeWithSystem (Defaults cfg))) (Endpoints (ApplyDefaults cfg))"
    using ApplyDefaults_hasRoot[of cfg] by (simp add: ApplyDefaults_def[of "ApplyDefaults cfg"] Let_def)
  also have "\<dots> = Endpoints (ApplyDefaults cfg)"
    by (simp add: ApplyDefaults_def Let_def fill_endpoint_idem)
  finally show ?thesis by (simp add: config.equality)
qed

text \<open>
  C34. What \<open>Load\<close> returns is usable: the port is in range, the host is set, the root endpoint
  exists, and every endpoint passes all the checks (known algorithm, scheduler and unit, a
  positive queue size, a rate that is not at or below zero, a complete token window).
\<close>

theorem Load_result_valid:
  assumes "Load ReadFile Unmarshal path = Ok cfg"
  shows "1 \<le> Port (Server cfg) \<and> Port (Server cfg) \<le> 65535 \<and> Host (Server cfg) \<noteq> ''''
    \<and> hasRoot (Endpoints cfg)
    \<and> list_all (\<lambda>e. check_endpoint e = None \<and> 0 < MaxQueueSize e) (Endpoints cfg)"
proof (rule Load_Ok_cases[OF assms], goal_cases)
  case (1 c)
  then have "\<forall>e\<in>set (Endpoints cfg). check_endpoint e = None"
    by (simp add: validateEndpoints_None)
  moreover have "check_endpoint e = None \<Longrightarrow> 0 < MaxQueueSize e" for e
    by (auto simp: check_endpoint_def split: if_splits)
  ultimately show ?case using 1 by (auto simp: list_all_iff)
qed

theorem Load_result_valid_witness:
  "let cfg = ApplyDefaults (zero_config\<lparr>Server := \<lparr>Host = ''0.0.0.0'', Port = 9090\<rparr>,
       Endpoints := [zero_endpoint\<lparr>Path := ''/api'', Rate := Fin 5\<rparr>]\<rparr>)
   in 1 \<le> Port (Server cfg) \<and> Port (Server cfg) \<le> 65535 \<and> Host (Server cfg) \<noteq> ''''
    \<and> hasRoot (Endpoints cfg)
    \<and> list_all (\<lambda>e. check_endpoint e = None \<and> 0 < MaxQueueSize e) (Endpoints cfg)"
  unfolding Let_def
  by (rule Load_result_valid[of "\<lambda>_. Inr ()" "\<lambda>_. Inr (zero_config\<lparr>Server := \<lparr>Host = '''', Port = 9090\<rparr>,
       Endpoints := [zero_endpoint\<lparr>Path := ''/api'', Rate := Fin 5\<rparr>]\<rparr>)" "''rls.yml''"]) code_simp

text \<open>
  Inheritance composes: a child that inherits from a parent that inherits from a grandparent
  has the same fields as one that inherits from the parent first and then from the
  grandparent, so the walk up the path tree may stop at any resolved ancestor.
\<close>

lemma InheritFrom_assoc:
  "InheritFrom (InheritFrom child parent) grand = InheritFrom child (InheritFrom parent grand)"
  by (simp add: InheritFrom_def config_simps)

text \<open>
  The overrides do not depend on the order in which the map is iterated: two orders agree
  on whether there is an error, and without one on the resulting configuration.
\<close>

lemma MergeOverrides_order:
  assumes "distinct (List.map fst os)" and "mset os = mset os'"
  shows "(snd (MergeOverrides cfg os) = None \<longleftrightarrow> snd (MergeOverrides cfg os') = None)
    \<and> (snd (MergeOverrides cfg os) = None \<longrightarrow> MergeOverrides cfg os = MergeOverrides cfg os')"
proof -
  have good: "snd (MergeOverrides cfg os) = None \<longleftrightarrow>
      (\<forall>(k, v) \<in> set os. k = ''host'' \<or> (k = ''port'' \<and> Atoi v \<noteq> None))" for cfg os
    by (induction cfg os rule: MergeOverrides.induct) (auto split: option.splits)
  have result: "snd (MergeOverrides cfg os) = None \<Longrightarrow> distinct (List.map fst os) \<Longrightarrow>
      fst (MergeOverrides cfg os) = cfg\<lparr>Server :=
        \<lparr>Host = case_option (Host (Server cfg)) id (map_of os ''host''),
         Port = case_option (Port (Server cfg)) (\<lambda>v. the (Atoi v)) (map_of os ''port'')\<rparr>\<rparr>" for cfg os
  proof (induction cfg os rule: MergeOverrides.induct)
    case (2 cfg k v rest)
    have "map_of rest k = None" using 2(4) by (simp add: map_of_eq_None_iff)
    then show ?case using 2 by (auto split: if_splits option.splits)
  qed simp
  have "distinct (List.map fst os')" and "set os = set os'"
    using assms by (metis distinct_count_atmost_1 mset_map set_mset_mset, metis set_mset_mset)
  moreover from this have "map_of os = map_of os'" using assms(1) by (metis map_of_inject_set)
  ultimately show ?thesis
    using result[of cfg os] result[of cfg os'] good[of cfg os] good[of cfg os'] assms(1)
    by (auto simp: prod_eq_iff)
qed

text \<open>
  C35. The server always has a configuration to start with: for every content of the file and every
  value of the two flags, \<open>main\<close> reaches the server with one whose endpoints are valid and
  contain the root, and a flag that is given wins over the file. The port of the flag is taken
  as it is: nothing checks its range.
\<close>

theorem startup_config_total:
  assumes "is_i64 port"
  shows "\<exists>cfg. startup_config ReadFile Unmarshal cfgPath port host = Ok cfg
    \<and> hasRoot (Endpoints cfg) \<and> validateEndpoints (Endpoints cfg) = None
    \<and> (port \<noteq> 0 \<longrightarrow> Port (Server cfg) = port) \<and> (host \<noteq> '''' \<longrightarrow> Host (Server cfg) = host)"
  using startup_config_valid[OF assms] .

theorem startup_config_total_witness:
  "\<exists>cfg. startup_config (\<lambda>_. Inl ''no such file'') (\<lambda>d::unit. Inr zero_config) ''rls.yml'' 70000 ''h'' = Ok cfg
    \<and> hasRoot (Endpoints cfg) \<and> validateEndpoints (Endpoints cfg) = None
    \<and> Port (Server cfg) = 70000 \<and> Host (Server cfg) = ''h''"
  using startup_config_total[of 70000 "\<lambda>_. Inl ''no such file''" "\<lambda>d::unit. Inr zero_config" "''rls.yml''" "''h''"]
  by (simp add: is_i64_def)

text \<open>
  The automatic root endpoint does not survive a default algorithm of \<open>token_window\<close>: it has
  no window, there is no default for one, so a file with that default and no root endpoint is
  rejected as a whole and the server starts with the built-in defaults instead.
\<close>

lemma token_window_default_needs_root:
  assumes "ReadFile path = Inr data" and "Unmarshal data = Inr cfg"
    and "d_Algorithm (Defaults cfg) = ''token_window''" and "\<not> hasRoot (Endpoints cfg)"
  shows "startup_config ReadFile Unmarshal path 0 '''' = Ok defaultConfig"
proof -
  have "\<exists>e. Load ReadFile Unmarshal path = Err e"
  proof (cases "applyServerDefaults cfg")
    case (Ok cfg1)
    let ?d = "mergeWithSystem (Defaults cfg)"
    have c1: "Endpoints cfg1 = Endpoints cfg" "Defaults cfg1 = Defaults cfg"
      using applyServerDefaults_Ok[OF Ok] by auto
    then have "fill_endpoint ?d (root_endpoint ?d) \<in> set (Endpoints (ApplyDefaults cfg1))"
      using assms(4) by (simp add: ApplyDefaults_def Let_def)
    moreover have "d_Algorithm ?d = ''token_window''"
      using assms(3) by (simp add: mergeWithSystem_def or_str_def)
    ultimately have "validateEndpoints (Endpoints (ApplyDefaults cfg1)) \<noteq> None"
      using root_without_window[of ?d] by (auto simp: validateEndpoints_None)
    then show ?thesis using assms(1,2) Ok by (auto simp: Load_def)
  qed (use assms(1,2) in \<open>simp_all add: Load_def\<close>)
  then show ?thesis
    by (auto simp: startup_config_def loadConfig_def flag_overrides_def)
qed

end
