(* ===== verification/Endpoint.thy ===== *)
theory Endpoint
  imports QScheduler Limiter Config
begin

text \<open>
  \<^verbatim>\<open>endpoint/endpoint.go\<close> (the parts that run without waiting), \<^verbatim>\<open>endpoint/response.go\<close> and
  \<^verbatim>\<open>endpoint/events.go\<close>: the endpoint's state, its construction, what a request carries, the
  admission, the wait estimate, the response and the event sink. The goroutines are in
  \<open>EndpointStd\<close> and \<open>EndpointTok\<close>.
\<close>

section \<open>State and construction\<close>

text \<open>
  \<open>work\<close> is the number of signals in the buffered channel, \<open>work_cap\<close> its capacity, \<open>ctx_done\<close>
  whether \<open>Stop\<close> has cancelled the context.
\<close>

record 'tb endpoint =
  cfg :: endpoint_config
  tickets :: queue
  lim :: "'tb limiter option"
  work :: nat
  work_cap :: int
  ctx_done :: bool
  tokenWindow :: "token_window option"
  pendingTokens :: int

definition endpoint_New ::
  "(float64 \<Rightarrow> int) \<Rightarrow> (float64 \<Rightarrow> int \<Rightarrow> 'tb) \<Rightarrow> int \<Rightarrow> endpoint_config \<Rightarrow> 'tb endpoint outcome" where
  "endpoint_New oor NewLimiter now c =
     (case queue_New (Scheduler c) (MaxQueueSize c) of
        Err e \<Rightarrow> Err e
      | Panic m \<Rightarrow> Panic m
      | Ok q \<Rightarrow>
          (if MaxQueueSize c < 0 then Panic ''makechan: size out of range''
           else
             (let ep = \<lparr>cfg = c, tickets = q, lim = None, work = 0, work_cap = MaxQueueSize c,
                        ctx_done = False, tokenWindow = None, pendingTokens = 0\<rparr>
              in if Algorithm c = ''token_window'' then
                   (case NewTokenWindow (TokensPerWindow c) (i64 (WindowSeconds c * second)) of
                      Ok tw \<Rightarrow> Ok (ep\<lparr>tokenWindow := Some tw\<rparr>)
                    | Err e \<Rightarrow> Err e
                    | Panic m \<Rightarrow> Panic m)
                 else
                   (case limiter_New oor NewLimiter now (Algorithm c) (Rate c) (Unit c)
                           \<lparr>lo_BurstSize = BurstSize c, lo_WindowSeconds = WindowSeconds c,
                            lo_CompensationMs = LatencyCompensation c\<rparr> of
                      Ok l \<Rightarrow> Ok (ep\<lparr>lim := Some l\<rparr>)
                    | Err e \<Rightarrow> Err e
                    | Panic m \<Rightarrow> Panic m))))"

definition QueueLen :: "'tb endpoint \<Rightarrow> nat" where
  "QueueLen ep = q_Len (tickets ep)"

definition ep_Path :: "'tb endpoint \<Rightarrow> string" where
  "ep_Path ep = Path (cfg ep)"

text \<open>\<open>Stop\<close>: stopping a limiter only matters to the strict one's ticker, which the cancelled
  context makes unreachable, so the limiter is left as it is.\<close>

definition ep_Stop :: "'tb endpoint \<Rightarrow> 'tb endpoint" where
  "ep_Stop ep = ep\<lparr>ctx_done := True, tokenWindow := map_option tw_Stop (tokenWindow ep)\<rparr>"

section \<open>Events\<close>

datatype event =
    EventQueued string int
  | EventServed string int int
  | EventRejected string

text \<open>The sink: its capacity and the events it holds, or none. A full sink drops the event.\<close>

type_synonym sink = "(nat \<times> event list) option"

fun emit :: "event \<Rightarrow> sink \<Rightarrow> sink" where
  "emit ev None = None"
| "emit ev (Some (cap, evs)) = Some (cap, if length evs < cap then evs @ [ev] else evs)"

section \<open>Requests\<close>

text \<open>
  What the handler reads of a request: two headers, two query parameters and the raw query
  (the empty string when absent).
\<close>

record request =
  X_Priority :: string
  X_Sent_At :: string
  q_tokens :: string
  q_timeout :: string
  RawQuery :: string

definition parsePriority :: "request \<Rightarrow> int" where
  "parsePriority r =
     (if X_Priority r = '''' then 0 else (case Atoi (X_Priority r) of None \<Rightarrow> 0 | Some p \<Rightarrow> p))"

definition token_cost :: "endpoint_config \<Rightarrow> request \<Rightarrow> int" where
  "token_cost c r =
     (if q_tokens r \<noteq> '''' then
        (case Atoi (q_tokens r) of
           Some parsed \<Rightarrow> if 0 < parsed then parsed else DefaultTokens c
         | None \<Rightarrow> DefaultTokens c)
      else DefaultTokens c)"

definition request_timeout :: "endpoint_config \<Rightarrow> request \<Rightarrow> float64" where
  "request_timeout c r =
     (if q_timeout r \<noteq> '''' then
        (case ParseFloat (q_timeout r) of
           Some parsed \<Rightarrow> if f_le (Fin 0) parsed then parsed else QueueTimeout c
         | None \<Rightarrow> QueueTimeout c)
      else QueueTimeout c)"

section \<open>The wait estimate\<close>

text \<open>A \<open>time.Duration\<close> product wraps like any 64-bit product.\<close>

definition estimateWait :: "(float64 \<Rightarrow> int) \<Rightarrow> ('tb \<Rightarrow> float64) \<Rightarrow> 'tb endpoint \<Rightarrow> int" where
  "estimateWait oor Tokens ep =
     (if Scheduler (cfg ep) = ''lifo'' \<or> Scheduler (cfg ep) = ''random'' then 0
      else case tokenWindow ep of
        Some tw \<Rightarrow>
          (let capac = tw_Capacity tw
           in if capac \<le> 0 then 0
              else
                (let windowsNeeded =
                       to_i64 oor (f_ceil (f_div (f_of_int (pendingTokens ep)) (f_of_int capac)))
                 in i64 (i64 (windowsNeeded * WindowSeconds (cfg ep)) * second)))
      | None \<Rightarrow>
          (let r = toRPS (Rate (cfg ep)) (Unit (cfg ep))
           in if f_le r (Fin 0) then 0
              else
                (let n = int (QueueLen ep);
                     ahead =
                       (case lim ep of
                          Some (TokenBucketLimiter rl) \<Rightarrow>
                            to_i64 oor (f_max (Fin 0) (f_of_int (i64 (n - TokensAvailable oor Tokens rl))))
                        | _ \<Rightarrow> n)
                 in to_i64 oor (f_mul (f_div (f_of_int ahead) r) (f_of_int second)))))"

section \<open>Admission\<close>

text \<open>
  The first half of \<open>Handle\<close>, up to the push: the ticket, or the message of a 429 response.
  \<open>now\<close> is the time read for the ticket, \<open>i\<close> its identity.
\<close>

definition make_ticket :: "'tb endpoint \<Rightarrow> nat \<Rightarrow> int \<Rightarrow> request \<Rightarrow> string + ticket" where
  "make_ticket ep i now r =
     (let t = \<lparr>tid = i, Priority = parsePriority r, EnqueuedAt = now, Cost = 0\<rparr>
      in case tokenWindow ep of
           None \<Rightarrow> Inr t
         | Some tw \<Rightarrow>
             (let cost = token_cost (cfg ep) r
              in if cost > tw_Capacity tw
                 then Inl (''token cost '' @ Itoa cost @ '' exceeds window capacity '' @ Itoa (tw_Capacity tw))
                 else Inr (t\<lparr>Cost := cost\<rparr>)))"

definition wait_acceptable :: "(float64 \<Rightarrow> int) \<Rightarrow> ('tb \<Rightarrow> float64) \<Rightarrow> 'tb endpoint \<Rightarrow> request \<Rightarrow> bool" where
  "wait_acceptable oor Tokens ep r =
     (let timeout = request_timeout (cfg ep) r
      in \<not> (f_less (Fin 0) timeout
            \<and> estimateWait oor Tokens ep > to_i64 oor (f_mul timeout (f_of_int second))))"

definition admit ::
  "(float64 \<Rightarrow> int) \<Rightarrow> ('tb \<Rightarrow> float64) \<Rightarrow> 'tb endpoint \<Rightarrow> nat \<Rightarrow> int \<Rightarrow> request \<Rightarrow> string + ticket" where
  "admit oor Tokens ep i now r =
     (case make_ticket ep i now r of
        Inl m \<Rightarrow> Inl m
      | Inr t \<Rightarrow> if wait_acceptable oor Tokens ep r then Inr t else Inl ''estimated wait exceeds timeout'')"

section \<open>The response\<close>

record token_window_info =
  Consumed :: int
  Remaining :: int
  Capacity :: int
  Waiting :: int

record response =
  OK :: bool
  r_Endpoint :: string
  QueuedForMs :: int
  QueueDepth :: int
  r_Rate :: float64
  r_Unit :: string
  r_Scheduler :: string
  r_Algorithm :: string
  r_MaxQueueSize :: int
  r_Overflow :: string
  r_BurstSize :: int
  r_WindowSeconds :: int
  r_QueueTimeout :: float64
  r_LatencyCompensation :: float64
  NetworkLatencyMs :: "int option"
  r_Dynamic :: bool
  TokensConsumed :: "int option"
  TokensRemaining :: "int option"
  WindowCapacity :: "int option"
  WaitingForNextWindow :: "int option"

definition Milliseconds :: "int \<Rightarrow> int" where
  "Milliseconds d = go_div d 1000000"

definition buildResponse ::
  "int \<Rightarrow> endpoint_config \<Rightarrow> int \<Rightarrow> int \<Rightarrow> int option \<Rightarrow> token_window_info option \<Rightarrow> response" where
  "buildResponse now c queueDepth enqueuedAt networkLatencyMs twi =
     (let resp =
        \<lparr>OK = True, r_Endpoint = Path c, QueuedForMs = Milliseconds (now - enqueuedAt),
         QueueDepth = queueDepth, r_Rate = Rate c, r_Unit = Unit c, r_Scheduler = Scheduler c,
         r_Algorithm = Algorithm c, r_MaxQueueSize = MaxQueueSize c, r_Overflow = Overflow c,
         r_BurstSize = BurstSize c, r_WindowSeconds = WindowSeconds c,
         r_QueueTimeout = QueueTimeout c, r_LatencyCompensation = LatencyCompensation c,
         NetworkLatencyMs = networkLatencyMs, r_Dynamic = Dynamic c, TokensConsumed = None,
         TokensRemaining = None, WindowCapacity = None, WaitingForNextWindow = None\<rparr>
      in case twi of
           None \<Rightarrow> resp
         | Some w \<Rightarrow> resp\<lparr>TokensConsumed := Some (Consumed w), TokensRemaining := Some (Remaining w),
                          WindowCapacity := Some (Capacity w), WaitingForNextWindow := Some (Waiting w)\<rparr>)"

text \<open>\<open>now_ms\<close> is the wall clock in milliseconds; \<open>ParseInt(s, 10, 64)\<close> agrees with \<open>Atoi\<close>.\<close>

definition network_latency :: "int \<Rightarrow> request \<Rightarrow> int option" where
  "network_latency now_ms r =
     (if X_Sent_At r \<noteq> '''' then
        (case Atoi (X_Sent_At r) of
           Some ms \<Rightarrow> (let latency = i64 (now_ms - ms) in Some (if latency < 0 then 0 else latency))
         | None \<Rightarrow> None)
      else None)"

text \<open>The second half of \<open>Handle\<close>, after the release: the response and the event.\<close>

definition respond :: "int \<Rightarrow> int \<Rightarrow> 'tb endpoint \<Rightarrow> ticket \<Rightarrow> request \<Rightarrow> response \<times> event" where
  "respond now now_ms ep t r =
     (let twi = map_option (\<lambda>tw. \<lparr>Consumed = Cost t, Remaining = tw_Remaining tw,
                  Capacity = tw_Capacity tw, Waiting = int (QueueLen ep)\<rparr>) (tokenWindow ep);
          resp = buildResponse now (cfg ep) (int (QueueLen ep)) (EnqueuedAt t) (network_latency now_ms r) twi
      in (resp, EventServed (Path (cfg ep)) (QueuedForMs resp) (QueueDepth resp)))"

section \<open>Facts\<close>

lemma endpoint_New_Ok:
  assumes "endpoint_New oor NewLimiter now c = Ok ep"
  shows "cfg ep = c" "q_wf (tickets ep)" "q_Len (tickets ep) = 0" "q_maxSize (tickets ep) = MaxQueueSize c"
    "q_content (tickets ep) = {#}" "work ep = 0" "work_cap ep = MaxQueueSize c" "\<not> ctx_done ep"
    "pendingTokens ep = 0" "0 \<le> MaxQueueSize c"
    "Algorithm c = ''token_window'' \<longleftrightarrow> tokenWindow ep \<noteq> None"
    "lim ep = None \<longleftrightarrow> tokenWindow ep \<noteq> None"
    "tokenWindow ep = Some tw \<Longrightarrow> tw = \<lparr>capacity = TokensPerWindow c, remaining = TokensPerWindow c,
       windowSize = i64 (WindowSeconds c * second), resetCh = 0, tw_stopped = False\<rparr>"
proof -
  obtain q where q: "queue_New (Scheduler c) (MaxQueueSize c) = Ok q" and room: "0 \<le> MaxQueueSize c"
    using assms by (auto simp: endpoint_New_def split: outcome.splits if_splits)
  let ?tw = "\<lparr>capacity = TokensPerWindow c, remaining = TokensPerWindow c,
       windowSize = i64 (WindowSeconds c * second), resetCh = 0, tw_stopped = False\<rparr>"
  let ?ep = "\<lambda>l w. \<lparr>cfg = c, tickets = q, lim = l, work = 0, work_cap = MaxQueueSize c,
       ctx_done = False, tokenWindow = w, pendingTokens = 0\<rparr>"
  have "if Algorithm c = ''token_window'' then ep = ?ep None (Some ?tw) else \<exists>l. ep = ?ep (Some l) None"
    using assms q room
    by (auto simp: endpoint_New_def NewTokenWindow_def Let_def split: outcome.splits if_splits)
  then obtain l w where ep: "ep = ?ep l w" "Algorithm c = ''token_window'' \<longleftrightarrow> w \<noteq> None"
    "l = None \<longleftrightarrow> w \<noteq> None" "w = None \<or> w = Some ?tw"
    by (auto split: if_splits)
  note new = queue_New_Ok[OF q]
  show "cfg ep = c" "q_wf (tickets ep)" "q_Len (tickets ep) = 0" "q_maxSize (tickets ep) = MaxQueueSize c"
    "q_content (tickets ep) = {#}" "work ep = 0" "work_cap ep = MaxQueueSize c" "\<not> ctx_done ep"
    "pendingTokens ep = 0" "0 \<le> MaxQueueSize c"
    "Algorithm c = ''token_window'' \<longleftrightarrow> tokenWindow ep \<noteq> None"
    "lim ep = None \<longleftrightarrow> tokenWindow ep \<noteq> None"
    using new room ep(2,3) by (simp_all add: ep(1))
  show "tokenWindow ep = Some tw \<Longrightarrow> tw = ?tw" using ep(4) by (auto simp: ep(1))
qed

lemma queue_New_valid:
  assumes "validScheduler s" and "0 \<le> n"
  obtains q where "queue_New s n = Ok q"
  using assms by (auto simp: validScheduler_def queue_New_def NewPriority_def)

lemma make_ticket_Inr:
  assumes "make_ticket ep i now r = Inr t"
  shows "tid t = i" "EnqueuedAt t = now" "Priority t = parsePriority r"
    "tokenWindow ep = Some tw \<Longrightarrow> Cost t = token_cost (cfg ep) r \<and> Cost t \<le> tw_Capacity tw"
    "tokenWindow ep = None \<Longrightarrow> Cost t = 0"
  using assms by (auto simp: make_ticket_def Let_def split: option.splits if_splits)

lemma token_cost_nonneg: "0 \<le> DefaultTokens c \<Longrightarrow> 0 \<le> token_cost c r"
  by (auto simp: token_cost_def split: option.splits)

lemma admit_Inr: "admit oor Tokens ep i now r = Inr t \<Longrightarrow> make_ticket ep i now r = Inr t"
  by (auto simp: admit_def split: sum.splits if_splits)

section \<open>Properties\<close>


definition demo_cfg :: "string \<Rightarrow> string \<Rightarrow> endpoint_config" where
  "demo_cfg s alg = zero_endpoint\<lparr>Path := ''/api'', Rate := Fin 10, Unit := ''rps'', Scheduler := s,
     Algorithm := alg, MaxQueueSize := 5, Overflow := ''reject'', WindowSeconds := 60,
     TokensPerWindow := 100, DefaultTokens := 1\<rparr>"

definition demo_bucket :: "float64 \<Rightarrow> int \<Rightarrow> float64 \<times> int" where
  "demo_bucket r burst = (r, burst)"


text \<open>
  A strict endpoint of more than a billion requests per second passes the validation, and
  building it panics, whatever the platform: its interval truncates to zero nanoseconds.
\<close>

lemma strict_rate_panics:
  "let c = (demo_cfg ''fifo'' ''strict'')\<lparr>Rate := Fin 2000000000\<rparr>
   in check_endpoint c = None \<and> is_panic (endpoint_New oor NewLimiter now c)"
proof -
  have i: "strict_interval oor (Fin 2000000000) = 0"
  proof -
    have "f_div (f_of_int 1000000000) (Fin 2000000000) = Fin (1 / 2)" by code_simp
    then have "strict_interval oor (Fin 2000000000) = to_i64 oor (Fin (1 / 2))"
      unfolding strict_interval_def by (rule arg_cong)
    moreover have "trunc_rat (1 / 2) = 0" by code_simp
    ultimately show ?thesis by (simp add: is_i64_def)
  qed
  have "check_endpoint ((demo_cfg ''fifo'' ''strict'')\<lparr>Rate := Fin 2000000000\<rparr>) = None" by code_simp
  then show ?thesis
    by (simp add: endpoint_New_def demo_cfg_def zero_endpoint_def queue_New_def limiter_New_def
        NewStrict_def toRPS_def compensate_def f_le_iff i)
qed

text \<open>
  An admitted request is never impossible: in token window mode the cost of the ticket is at
  most the capacity, so after a refill, and whatever the window was before, it can be consumed.
\<close>

lemma admitted_ticket_fits_window:
  assumes "admit oor Tokens ep i now r = Inr t" and "tokenWindow ep = Some tw"
    and "tw_Capacity tw' = tw_Capacity tw"
  shows "Cost t \<le> tw_Capacity tw \<and> fst (TryConsume (Cost t) (tw_Reset tw'))"
  using make_ticket_Inr(4)[OF admit_Inr[OF assms(1)] assms(2)] assms(3)
  by (auto simp: TryConsume_def tw_Reset_def tw_Capacity_def Let_def)

definition demo_tok :: "(float64 \<times> int) endpoint" where
  "demo_tok = \<lparr>cfg = demo_cfg ''fifo'' ''token_window'', tickets = FIFOQueue (NewFIFO 5), lim = None,
     work = 0, work_cap = 5, ctx_done = False,
     tokenWindow = Some \<lparr>capacity = 100, remaining = 7, windowSize = 60000000000, resetCh = 0, tw_stopped = False\<rparr>,
     pendingTokens = 0\<rparr>"

definition demo_request :: "string \<Rightarrow> string \<Rightarrow> request" where
  "demo_request tokens timeout =
     \<lparr>X_Priority = '''', X_Sent_At = '''', q_tokens = tokens, q_timeout = timeout, RawQuery = ''''\<rparr>"

lemma f_between:
  assumes "f_le (Fin a) x" and "f_le x (Fin b)"
  obtains y where "x = Fin y" "a \<le> y" "y \<le> b"
  using assms by (cases x) (auto simp: f_le_def split: if_splits)

lemma estimate_value:
  assumes "1 / 1000 \<le> y" and "0 \<le> n" and "n \<le> 1000000"
  obtains a b where "f_div (f_of_int n) (Fin y) = Fin a" "f_mul (Fin a) (f_of_int second) = Fin b"
    "0 \<le> a" "round64 (of_int n / y) = Fin a" "round64 (a * 1000000000) = Fin b" "0 \<le> b" "b \<le> 10 ^ 18"
proof -
  have top: "round64 1000000000 = Fin 1000000000" "round64 (10 ^ 18) = Fin (10 ^ 18)" by code_simp+
  have "f_of_int n = Fin (of_int n)" using round64_int[of n] assms(2,3) by simp
  then have d: "f_div (f_of_int n) (Fin y) = round64 (of_int n / y)" using assms(1) by auto
  have "of_int n / y \<le> 1000000 / (1 / 1000)" using assms by (intro frac_le) auto
  then have "of_int n / y \<le> (1000000000 :: rat)" by simp
  then have "f_le (round64 (of_int n / y)) (round64 1000000000)" by (rule round64_mono)
  moreover have "f_le (round64 0) (round64 (of_int n / y))"
    by (rule round64_mono) (use assms in simp)
  ultimately obtain a where a: "round64 (of_int n / y) = Fin a" "0 \<le> a" "a \<le> 1000000000"
    unfolding top round64_0 using f_between by blast
  have m: "f_mul (Fin a) (f_of_int second) = round64 (a * 1000000000)"
    using top by (simp add: second_def)
  have "f_le (round64 (a * 1000000000)) (round64 (10 ^ 18))" by (rule round64_mono) (use a in simp)
  moreover have "f_le (round64 0) (round64 (a * 1000000000))" by (rule round64_mono) (use a in simp)
  ultimately obtain b where b: "round64 (a * 1000000000) = Fin b" "0 \<le> b" "b \<le> 10 ^ 18"
    unfolding top round64_0 using f_between by blast
  show ?thesis by (rule that[of a b]) (use d a m b in auto)
qed

lemma trunc_i64:
  assumes "0 \<le> b" and "b \<le> 10 ^ 18"
  shows "to_i64 oor (Fin b) = \<lfloor>b\<rfloor> \<and> 0 \<le> \<lfloor>b\<rfloor>"
proof -
  have "\<lfloor>b\<rfloor> \<le> \<lfloor>10 ^ 18 :: rat\<rfloor>" using assms(2) by (rule floor_mono)
  then show ?thesis using assms(1) by (simp add: trunc_rat_def is_i64_def)
qed

lemma estimate_mono:
  assumes "1 / 1000 \<le> y" and "0 \<le> n" and "n \<le> n'" and "n' \<le> 1000000"
  shows "0 \<le> to_i64 oor (f_mul (f_div (f_of_int n) (Fin y)) (f_of_int second))
    \<and> to_i64 oor (f_mul (f_div (f_of_int n) (Fin y)) (f_of_int second))
      \<le> to_i64 oor (f_mul (f_div (f_of_int n') (Fin y)) (f_of_int second))"
proof -
  obtain a b where 1: "f_div (f_of_int n) (Fin y) = Fin a" "f_mul (Fin a) (f_of_int second) = Fin b"
    "round64 (of_int n / y) = Fin a" "round64 (a * 1000000000) = Fin b" "0 \<le> b" "b \<le> 10 ^ 18"
    by (rule estimate_value[of y n]) (use assms in auto)
  obtain a' b' where 2: "f_div (f_of_int n') (Fin y) = Fin a'" "f_mul (Fin a') (f_of_int second) = Fin b'"
    "round64 (of_int n' / y) = Fin a'" "round64 (a' * 1000000000) = Fin b'" "0 \<le> b'" "b' \<le> 10 ^ 18"
    by (rule estimate_value[of y n']) (use assms in auto)
  have "of_int n / y \<le> of_int n' / y" using assms by (intro divide_right_mono) auto
  then have "a \<le> a'" using round64_mono 1(3) 2(3) f_le_iff by metis
  then have "b \<le> b'" using round64_mono[of "a * 1000000000" "a' * 1000000000"] 1(4) 2(4) by (simp add: f_le_iff)
  then have "\<lfloor>b\<rfloor> \<le> \<lfloor>b'\<rfloor>" by (rule floor_mono)
  then show ?thesis unfolding 1(1,2) 2(1,2) using trunc_i64[OF 1(5,6)] trunc_i64[OF 2(5,6)] by simp
qed


definition demo_std :: "ticket list \<Rightarrow> (float64 \<times> int) endpoint" where
  "demo_std ts = \<lparr>cfg = demo_cfg ''fifo'' ''strict'', tickets = FIFOQueue \<lparr>fitems = ts, fcap = 5, fmaxSize = 5\<rparr>,
     lim = Some (StrictLimiter \<lparr>period = 100000000, next_fire = 100000000, pending = False\<rparr>),
     work = 0, work_cap = 5, ctx_done = False, tokenWindow = None, pendingTokens = 0\<rparr>"


text \<open>
  On amd64 a very long timeout means the opposite: with \<open>?timeout=1e10\<close> (seconds) or
  \<open>?timeout=inf\<close> the deadline does not fit in nanoseconds and converts to the least integer, so
  the request is rejected on an empty queue although the estimate is zero, while
  \<open>?timeout=9e9\<close> is accepted.
\<close>

lemma huge_timeout_rejects:
  "estimateWait amd64 fst (demo_std []) = 0
   \<and> admit amd64 fst (demo_std []) 1 0 (demo_request '''' ''1e10'') = Inl ''estimated wait exceeds timeout''
   \<and> admit amd64 fst (demo_std []) 1 0 (demo_request '''' ''inf'') = Inl ''estimated wait exceeds timeout''
   \<and> is_ok (case admit amd64 fst (demo_std []) 1 0 (demo_request '''' ''9e9'') of Inr t \<Rightarrow> Ok t | Inl m \<Rightarrow> Panic m)"
  by code_simp

end
