(* ===== verification/EndpointRun.thy ===== *)
theory EndpointRun
  imports Endpoint
begin

text \<open>
  The goroutines of one endpoint (\<^verbatim>\<open>endpoint/endpoint.go\<close>): the handlers (\<open>Handle\<close>), one per
  request, the dispatcher (\<open>dispatchStandard\<close> or \<open>dispatchTokenWindow\<close>), the ticker of the token
  window and \<open>Stop\<close>. Each goroutine is a program counter; a step runs the code from one access
  to shared state to the next, and a run is any interleaving of steps.
\<close>

section \<open>Program counters\<close>

datatype result =
    Served response
  | Rejected string
  | Shutdown
  | Gone

text \<open>
  A handler that has not started is at \<open>HNone\<close>. The others carry their ticket and request: about
  to push; after a refused push of a blocking endpoint; pushed, before the counter; before the
  send on \<open>work\<close>; in the final select; after \<open>Cancel\<close>, before the decrement; released; returned.
\<close>

datatype phase =
    HNone
  | HPush ticket request
  | HRetry ticket request
  | HPushed ticket request
  | HSignal ticket request
  | HWait ticket request
  | HCancelled ticket request
  | HReleased ticket request
  | HDone result

text \<open>
  The dispatcher: in its select; in \<open>lim.Wait\<close>; before \<open>Pop\<close>; before the send to a ticket; before
  \<open>PopWhere\<close>; with the list of tickets still to release; after a release, before the read of
  \<open>cancelled\<close>; before the decrement; returned.
\<close>

datatype dpc =
    DIdle
  | DWait
  | DPop
  | DSend ticket
  | DScan
  | DRelease "ticket list"
  | DCheck ticket "ticket list"
  | DSub ticket "ticket list"
  | DStop

record 'tb sys =
  endp :: "'tb endpoint"
  hs :: "nat \<Rightarrow> phase"
  cells :: "nat \<Rightarrow> ticket_cell"
  disp :: dpc
  evs :: sink

definition goto :: "nat \<Rightarrow> phase \<Rightarrow> 'tb sys \<Rightarrow> 'tb sys" where
  "goto i ph s = s\<lparr>hs := (hs s)(i := ph)\<rparr>"

definition on_ep :: "('tb endpoint \<Rightarrow> 'tb endpoint) \<Rightarrow> 'tb sys \<Rightarrow> 'tb sys" where
  "on_ep f s = s\<lparr>endp := f (endp s)\<rparr>"

definition tell :: "event \<Rightarrow> 'tb sys \<Rightarrow> 'tb sys" where
  "tell e s = s\<lparr>evs := emit e (evs s)\<rparr>"

definition at_disp :: "dpc \<Rightarrow> 'tb sys \<Rightarrow> 'tb sys" where
  "at_disp d s = s\<lparr>disp := d\<rparr>"

definition add_pending :: "int \<Rightarrow> 'tb endpoint \<Rightarrow> 'tb endpoint" where
  "add_pending n ep = ep\<lparr>pendingTokens := i64 (pendingTokens ep + n)\<rparr>"

section \<open>The handler\<close>

definition h_start ::
  "(float64 \<Rightarrow> int) \<Rightarrow> ('tb \<Rightarrow> float64) \<Rightarrow> nat \<Rightarrow> int \<Rightarrow> request \<Rightarrow> 'tb sys \<Rightarrow> 'tb sys option" where
  "h_start oor Tokens i now r s =
     (case hs s i of
        HNone \<Rightarrow>
          (case admit oor Tokens (endp s) i now r of
             Inl m \<Rightarrow> Some (tell (EventRejected (Path (cfg (endp s)))) (goto i (HDone (Rejected m)) s))
           | Inr t \<Rightarrow> Some (goto i (HPush t r) (s\<lparr>cells := (cells s)(i := \<lparr>Release = 0, cancelled = 0\<rparr>)\<rparr>)))
      | _ \<Rightarrow> None)"

definition h_push :: "nat \<Rightarrow> nat \<Rightarrow> 'tb sys \<Rightarrow> 'tb sys option" where
  "h_push g i s =
     (case hs s i of
        HPush t r \<Rightarrow>
          (let (ok, q') = q_Push g t (tickets (endp s))
           in if ok then Some (goto i (HPushed t r) (on_ep (\<lambda>ep. ep\<lparr>tickets := q'\<rparr>) s))
              else if Overflow (cfg (endp s)) = ''block'' then Some (goto i (HRetry t r) s)
              else Some (tell (EventRejected (Path (cfg (endp s))))
                          (goto i (HDone (Rejected ''queue full'')) s)))
      | _ \<Rightarrow> None)"

text \<open>The select after a refused push: the context, or the timer and another attempt.\<close>

definition h_retry :: "bool \<Rightarrow> nat \<Rightarrow> 'tb sys \<Rightarrow> 'tb sys option" where
  "h_retry stop i s =
     (case hs s i of
        HRetry t r \<Rightarrow>
          (if \<not> stop then Some (goto i (HPush t r) s)
           else if ctx_done (endp s) then Some (goto i (HDone Shutdown) s) else None)
      | _ \<Rightarrow> None)"

definition h_count :: "nat \<Rightarrow> 'tb sys \<Rightarrow> 'tb sys option" where
  "h_count i s =
     (case hs s i of
        HPushed t r \<Rightarrow>
          (let s1 = tell (EventQueued (Path (cfg (endp s))) (Priority t)) (goto i (HSignal t r) s)
           in Some (if tokenWindow (endp s) \<noteq> None then on_ep (add_pending (Cost t)) s1 else s1))
      | _ \<Rightarrow> None)"

text \<open>The send on \<open>work\<close> blocks while the channel is full.\<close>

definition h_signal :: "nat \<Rightarrow> 'tb sys \<Rightarrow> 'tb sys option" where
  "h_signal i s =
     (case hs s i of
        HSignal t r \<Rightarrow>
          (if int (work (endp s)) < work_cap (endp s)
           then Some (goto i (HWait t r) (on_ep (\<lambda>ep. ep\<lparr>work := work ep + 1\<rparr>) s)) else None)
      | _ \<Rightarrow> None)"

text \<open>The final select: each ready case may be taken.\<close>

datatype choice = TakeRelease | TakeShutdown | TakeGone

definition h_select :: "choice \<Rightarrow> nat \<Rightarrow> 'tb sys \<Rightarrow> 'tb sys option" where
  "h_select ch i s =
     (case hs s i of
        HWait t r \<Rightarrow>
          (case ch of
             TakeRelease \<Rightarrow>
               (if 0 < Release (cells s i)
                then Some (goto i (HReleased t r)
                       (s\<lparr>cells := (cells s)(i := (cells s i)\<lparr>Release := Release (cells s i) - 1\<rparr>)\<rparr>))
                else None)
           | TakeShutdown \<Rightarrow> if ctx_done (endp s) then Some (goto i (HDone Shutdown) s) else None
           | TakeGone \<Rightarrow>
               Some (goto i (HCancelled t r) (s\<lparr>cells := (cells s)(i := Cancel (cells s i))\<rparr>)))
      | _ \<Rightarrow> None)"

definition h_gone :: "nat \<Rightarrow> 'tb sys \<Rightarrow> 'tb sys option" where
  "h_gone i s =
     (case hs s i of
        HCancelled t r \<Rightarrow>
          (let s1 = goto i (HDone Gone) s
           in Some (if tokenWindow (endp s) \<noteq> None then on_ep (add_pending (- Cost t)) s1 else s1))
      | _ \<Rightarrow> None)"

definition h_respond :: "int \<Rightarrow> int \<Rightarrow> nat \<Rightarrow> 'tb sys \<Rightarrow> 'tb sys option" where
  "h_respond now now_ms i s =
     (case hs s i of
        HReleased t r \<Rightarrow>
          (let (resp, e) = respond now now_ms (endp s) t r
           in Some (tell e (goto i (HDone (Served resp)) s)))
      | _ \<Rightarrow> None)"

section \<open>The dispatchers\<close>

text \<open>Both dispatchers stop in their select, and receive the signals of the handlers there.\<close>

definition d_stop :: "'tb sys \<Rightarrow> 'tb sys option" where
  "d_stop s = (if disp s = DIdle \<and> ctx_done (endp s) then Some (at_disp DStop s) else None)"

definition d_work :: "'tb sys \<Rightarrow> 'tb sys option" where
  "d_work s =
     (if disp s = DIdle \<and> 0 < work (endp s)
      then Some (at_disp (if tokenWindow (endp s) = None then DWait else DScan)
                   (on_ep (\<lambda>ep. ep\<lparr>work := work ep - 1\<rparr>) s))
      else None)"

text \<open>\<open>dispatchStandard\<close>: the limiter, the pop and the release.\<close>

definition d_wait ::
  "(float64 \<Rightarrow> int) \<Rightarrow> (int \<Rightarrow> 'tb \<Rightarrow> 'tb option) \<Rightarrow> int \<Rightarrow> (int \<times> bool) list \<Rightarrow> 'tb sys \<Rightarrow> 'tb sys option" where
  "d_wait oor tbWait now polls s =
     (case (disp s, lim (endp s)) of
        (DWait, Some l) \<Rightarrow>
          (case lim_Wait oor tbWait now polls l of
             Some l' \<Rightarrow> Some (at_disp DPop (on_ep (\<lambda>ep. ep\<lparr>lim := Some l'\<rparr>) s))
           | None \<Rightarrow> None)
      | _ \<Rightarrow> None)"

definition d_wait_stop :: "'tb sys \<Rightarrow> 'tb sys option" where
  "d_wait_stop s = (if disp s = DWait \<and> ctx_done (endp s) then Some (at_disp DStop s) else None)"

definition d_pop :: "nat \<Rightarrow> 'tb sys \<Rightarrow> 'tb sys option" where
  "d_pop x s =
     (case disp s of
        DPop \<Rightarrow>
          (case q_Pop x (tickets (endp s)) of
             (Some t, q') \<Rightarrow> Some (at_disp (DSend t) (on_ep (\<lambda>ep. ep\<lparr>tickets := q'\<rparr>) s))
           | (None, q') \<Rightarrow> Some (at_disp DIdle (on_ep (\<lambda>ep. ep\<lparr>tickets := q'\<rparr>) s)))
      | _ \<Rightarrow> None)"

text \<open>A send to \<open>Release\<close>: a channel of capacity 1.\<close>

definition release :: "ticket \<Rightarrow> 'tb sys \<Rightarrow> 'tb sys option" where
  "release t s =
     (if Release (cells s (tid t)) < 1
      then Some (s\<lparr>cells := (cells s)(tid t :=
             (cells s (tid t))\<lparr>Release := Release (cells s (tid t)) + 1\<rparr>)\<rparr>)
      else None)"

definition d_send :: "'tb sys \<Rightarrow> 'tb sys option" where
  "d_send s =
     (case disp s of DSend t \<Rightarrow> map_option (at_disp DIdle) (release t s) | _ \<Rightarrow> None)"

text \<open>\<open>dispatchTokenWindow\<close>: the reset signal.\<close>

definition d_reset :: "'tb sys \<Rightarrow> 'tb sys option" where
  "d_reset s =
     (case (disp s, tokenWindow (endp s)) of
        (DIdle, Some tw) \<Rightarrow>
          (case tw_RecvReset tw of
             Some tw' \<Rightarrow> Some (at_disp DScan (on_ep (\<lambda>ep. ep\<lparr>tokenWindow := Some tw'\<rparr>) s))
           | None \<Rightarrow> None)
      | _ \<Rightarrow> None)"

text \<open>
  \<open>releaseTokenFitting\<close>. The predicate of its \<open>PopWhere\<close> is \<open>TryConsume\<close>; the ticker takes only the
  window's own lock, so it may tick between two tests: \<open>ticks\<close> says before which of them. The
  queue's lock is held over the whole scan.
\<close>

definition consume_test :: "bool list \<times> token_window \<Rightarrow> ticket \<Rightarrow> bool \<times> bool list \<times> token_window" where
  "consume_test st t =
     (case st of (ticks, tw) \<Rightarrow>
        let tw1 = (if ticks \<noteq> [] \<and> hd ticks then tw_tick tw else tw);
            (ok, tw2) = TryConsume (Cost t) tw1
        in (ok, tl ticks, tw2))"

definition d_scan :: "bool list \<Rightarrow> 'tb sys \<Rightarrow> 'tb sys option" where
  "d_scan ticks s =
     (case (disp s, tokenWindow (endp s)) of
        (DScan, Some tw) \<Rightarrow>
          (case q_PopWhere consume_test (ticks, tw) (tickets (endp s)) of
             (released, (ticks', tw'), q') \<Rightarrow>
               Some (at_disp (DRelease released)
                 (on_ep (\<lambda>ep. ep\<lparr>tickets := q', tokenWindow := Some tw'\<rparr>) s)))
      | _ \<Rightarrow> None)"

text \<open>
  The loop over the released tickets: the send, the read of \<open>cancelled\<close>, the decrement.
\<close>

definition d_release :: "'tb sys \<Rightarrow> 'tb sys option" where
  "d_release s =
     (case disp s of
        DRelease [] \<Rightarrow> Some (at_disp DIdle s)
      | DRelease (t # ts) \<Rightarrow> map_option (at_disp (DCheck t ts)) (release t s)
      | _ \<Rightarrow> None)"

definition d_check :: "'tb sys \<Rightarrow> 'tb sys option" where
  "d_check s =
     (case disp s of
        DCheck t ts \<Rightarrow> Some (at_disp (if \<not> IsCancelled (cells s (tid t)) then DSub t ts else DRelease ts) s)
      | _ \<Rightarrow> None)"

definition d_sub :: "'tb sys \<Rightarrow> 'tb sys option" where
  "d_sub s =
     (case disp s of
        DSub t ts \<Rightarrow> Some (at_disp (DRelease ts) (on_ep (add_pending (- Cost t)) s))
      | _ \<Rightarrow> None)"

section \<open>Runs\<close>

definition w_tick :: "'tb sys \<Rightarrow> 'tb sys option" where
  "w_tick s =
     (case tokenWindow (endp s) of
        Some tw \<Rightarrow> Some (on_ep (\<lambda>ep. ep\<lparr>tokenWindow := Some (tw_tick tw)\<rparr>) s)
      | None \<Rightarrow> None)"

datatype action =
    AStart nat int request
  | APush nat nat
  | ARetry bool nat
  | ACount nat
  | ASignal nat
  | ASelect choice nat
  | AGone nat
  | ARespond int int nat
  | AStopSeen
  | AWork
  | AGrant int "(int \<times> bool) list"
  | AWaitStop
  | APop nat
  | ASend
  | AReset
  | AScan "bool list"
  | ARelease
  | ACheck
  | ASub
  | ATick
  | AStop

fun exec ::
  "(float64 \<Rightarrow> int) \<Rightarrow> ('tb \<Rightarrow> float64) \<Rightarrow> (int \<Rightarrow> 'tb \<Rightarrow> 'tb option) \<Rightarrow> action \<Rightarrow> 'tb sys \<Rightarrow> 'tb sys option" where
  "exec oor Tokens tbWait (AStart i now r) s = h_start oor Tokens i now r s"
| "exec oor Tokens tbWait (APush g i) s = h_push g i s"
| "exec oor Tokens tbWait (ARetry stop i) s = h_retry stop i s"
| "exec oor Tokens tbWait (ACount i) s = h_count i s"
| "exec oor Tokens tbWait (ASignal i) s = h_signal i s"
| "exec oor Tokens tbWait (ASelect ch i) s = h_select ch i s"
| "exec oor Tokens tbWait (AGone i) s = h_gone i s"
| "exec oor Tokens tbWait (ARespond now now_ms i) s = h_respond now now_ms i s"
| "exec oor Tokens tbWait AStopSeen s = d_stop s"
| "exec oor Tokens tbWait AWork s = d_work s"
| "exec oor Tokens tbWait (AGrant now polls) s = d_wait oor tbWait now polls s"
| "exec oor Tokens tbWait AWaitStop s = d_wait_stop s"
| "exec oor Tokens tbWait (APop x) s = d_pop x s"
| "exec oor Tokens tbWait ASend s = d_send s"
| "exec oor Tokens tbWait AReset s = d_reset s"
| "exec oor Tokens tbWait (AScan ticks) s = d_scan ticks s"
| "exec oor Tokens tbWait ARelease s = d_release s"
| "exec oor Tokens tbWait ACheck s = d_check s"
| "exec oor Tokens tbWait ASub s = d_sub s"
| "exec oor Tokens tbWait ATick s = w_tick s"
| "exec oor Tokens tbWait AStop s = Some (on_ep ep_Stop s)"

definition start :: "'tb endpoint \<Rightarrow> sink \<Rightarrow> 'tb sys" where
  "start ep sk = \<lparr>endp = ep, hs = (\<lambda>_. HNone), cells = (\<lambda>_. \<lparr>Release = 0, cancelled = 0\<rparr>),
     disp = DIdle, evs = sk\<rparr>"

fun exec_all ::
  "(float64 \<Rightarrow> int) \<Rightarrow> ('tb \<Rightarrow> float64) \<Rightarrow> (int \<Rightarrow> 'tb \<Rightarrow> 'tb option) \<Rightarrow> action list \<Rightarrow> 'tb sys \<Rightarrow> 'tb sys option" where
  "exec_all oor Tokens tbWait [] s = Some s"
| "exec_all oor Tokens tbWait (a # as) s =
     (case exec oor Tokens tbWait a s of None \<Rightarrow> None | Some s' \<Rightarrow> exec_all oor Tokens tbWait as s')"

text \<open>One step of some goroutine, and what can be reached from a state.\<close>

inductive reach ::
  "(float64 \<Rightarrow> int) \<Rightarrow> ('tb \<Rightarrow> float64) \<Rightarrow> (int \<Rightarrow> 'tb \<Rightarrow> 'tb option) \<Rightarrow> 'tb sys \<Rightarrow> 'tb sys \<Rightarrow> bool"
  for oor Tokens tbWait s0 where
  reach_start: "reach oor Tokens tbWait s0 s0"
| reach_step: "reach oor Tokens tbWait s0 s \<Longrightarrow> exec oor Tokens tbWait a s = Some s' \<Longrightarrow>
    reach oor Tokens tbWait s0 s'"

lemma reach_exec_all:
  "reach oor Tokens tbWait s0 s \<Longrightarrow> exec_all oor Tokens tbWait as s = Some s' \<Longrightarrow> reach oor Tokens tbWait s0 s'"
  by (induction as arbitrary: s) (auto split: option.splits intro: reach_step)

section \<open>One place per ticket\<close>

text \<open>The tickets taken from the queue and not yet released.\<close>

fun inflight :: "dpc \<Rightarrow> ticket multiset" where
  "inflight (DSend t) = {#t#}"
| "inflight (DRelease ts) = mset ts"
| "inflight (DCheck t ts) = mset ts"
| "inflight (DSub t ts) = mset ts"
| "inflight _ = {#}"

definition unreleased :: "'tb sys \<Rightarrow> ticket multiset" where
  "unreleased s = q_content (tickets (endp s)) + inflight (disp s)"

fun ticket_of :: "phase \<Rightarrow> ticket option" where
  "ticket_of (HPush t r) = Some t"
| "ticket_of (HRetry t r) = Some t"
| "ticket_of (HPushed t r) = Some t"
| "ticket_of (HSignal t r) = Some t"
| "ticket_of (HWait t r) = Some t"
| "ticket_of (HCancelled t r) = Some t"
| "ticket_of (HReleased t r) = Some t"
| "ticket_of _ = None"

text \<open>A handler that pushed \<open>t\<close> and has not been released, or has left.\<close>

fun waiting_for :: "phase \<Rightarrow> ticket \<Rightarrow> bool" where
  "waiting_for (HPushed t r) u \<longleftrightarrow> u = t"
| "waiting_for (HSignal t r) u \<longleftrightarrow> u = t"
| "waiting_for (HWait t r) u \<longleftrightarrow> u = t"
| "waiting_for (HCancelled t r) u \<longleftrightarrow> u = t"
| "waiting_for (HDone Gone) u \<longleftrightarrow> True"
| "waiting_for (HDone Shutdown) u \<longleftrightarrow> True"
| "waiting_for _ u \<longleftrightarrow> False"

fun pushing :: "phase \<Rightarrow> bool" where
  "pushing (HPush t r) = True"
| "pushing (HRetry t r) = True"
| "pushing _ = False"

definition placed :: "(nat \<Rightarrow> phase) \<Rightarrow> (nat \<Rightarrow> ticket_cell) \<Rightarrow> ticket multiset \<Rightarrow> bool" where
  "placed h c m \<longleftrightarrow>
     (\<forall>i t. ticket_of (h i) = Some t \<longrightarrow> tid t = i)
     \<and> (\<forall>i. pushing (h i) \<longrightarrow> Release (c i) = 0)
     \<and> (\<forall>t \<in># m. waiting_for (h (tid t)) t \<and> Release (c (tid t)) = 0)
     \<and> (\<forall>i. count (image_mset tid m) i \<le> 1)"

lemma not_pushing_waiting: "waiting_for ph t \<Longrightarrow> \<not> pushing ph"
  by (cases ph rule: pushing.cases) auto

lemma placed_not_in:
  "placed h c m \<Longrightarrow> (\<And>t. \<not> waiting_for (h i) t) \<Longrightarrow> i \<notin># image_mset tid m"
  unfolding placed_def by auto

lemma placed_move:
  assumes "placed h c m" and "\<And>t. waiting_for (h i) t \<Longrightarrow> tid t = i \<Longrightarrow> waiting_for ph t"
    and "\<And>t. ticket_of ph = Some t \<Longrightarrow> tid t = i" and "pushing ph \<Longrightarrow> pushing (h i)"
  shows "placed (h(i := ph)) c m"
  using assms unfolding placed_def by auto

lemma placed_start:
  assumes "placed h c m" and "h i = HNone" and "tid t = i"
  shows "placed (h(i := HPush t r)) (c(i := \<lparr>Release = 0, cancelled = 0\<rparr>)) m"
proof -
  have "i \<notin># image_mset tid m" by (rule placed_not_in[OF assms(1)]) (simp add: assms(2))
  then show ?thesis using assms unfolding placed_def by auto
qed

lemma placed_push:
  assumes "placed h c m" and "h i = HPush t r"
  shows "placed (h(i := HPushed t r)) c (add_mset t m)"
proof -
  have i: "tid t = i" using assms by (auto simp: placed_def)
  have n: "i \<notin># image_mset tid m" by (rule placed_not_in[OF assms(1)]) (simp add: assms(2))
  then have "count (image_mset tid (add_mset t m)) j \<le> 1" for j
    using assms(1) i by (auto simp: placed_def count_eq_zero_iff)
  moreover have "Release (c i) = 0" using assms by (auto simp: placed_def)
  moreover have "tid u \<noteq> i" if "u \<in># m" for u using n that by auto
  ultimately show ?thesis using assms(1) i unfolding placed_def by auto
qed

lemma placed_cell:
  assumes "placed h c m" and "i \<notin># image_mset tid m" and "\<not> pushing (h i)"
  shows "placed h (c(i := cell)) m"
  using assms unfolding placed_def by auto

lemma placed_release:
  assumes "placed h c (add_mset t m)"
  shows "placed h (c(tid t := cell)) m \<and> Release (c (tid t)) = 0"
proof -
  have w: "waiting_for (h (tid t)) t" "Release (c (tid t)) = 0"
    and d: "\<And>i. count (image_mset tid (add_mset t m)) i \<le> 1"
    using assms by (auto simp: placed_def simp del: image_mset_add_mset)
  have "tid t \<notin># image_mset tid m" using d[of "tid t"] by (simp add: count_eq_zero_iff)
  moreover have "count (image_mset tid m) i \<le> 1" for i using d[of i] by (auto split: if_splits)
  then have "placed h c m" using assms unfolding placed_def by auto
  ultimately show ?thesis using placed_cell not_pushing_waiting[OF w(1)] w(2) by blast
qed

lemma placed_cancel:
  assumes "placed h c m"
  shows "placed h (c(i := Cancel (c i))) m"
  using assms unfolding placed_def by auto

definition tidy :: "'tb sys \<Rightarrow> bool" where
  "tidy s \<longleftrightarrow> q_wf (tickets (endp s)) \<and> int (q_Len (tickets (endp s))) \<le> q_maxSize (tickets (endp s))
     \<and> q_maxSize (tickets (endp s)) = work_cap (endp s) \<and> placed (hs s) (cells s) (unreleased s)"

lemmas sys_simps = goto_def on_ep_def tell_def at_disp_def add_pending_def

lemmas handler_defs = h_start_def h_retry_def h_count_def h_signal_def h_select_def h_gone_def h_respond_def

lemmas disp_defs = d_stop_def d_work_def d_wait_def d_wait_stop_def d_reset_def d_check_def d_sub_def w_tick_def

text \<open>A step that touches neither the queue nor the tickets in flight, and no handler or cell.\<close>

lemma tidy_frame:
  assumes "tidy s" and "hs s' = hs s" and "cells s' = cells s" and "inflight (disp s') = inflight (disp s)"
    and "tickets (endp s') = tickets (endp s)" and "work_cap (endp s') = work_cap (endp s)"
  shows "tidy s'"
  using assms by (simp add: tidy_def unreleased_def)

text \<open>A handler moves and its ticket stays where it is.\<close>

lemma tidy_move:
  assumes "tidy s" and "hs s' = (hs s)(i := ph)" and "cells s' = cells s" and "disp s' = disp s"
    and "tickets (endp s') = tickets (endp s)" and "work_cap (endp s') = work_cap (endp s)"
    and "\<And>t. waiting_for (hs s i) t \<Longrightarrow> tid t = i \<Longrightarrow> waiting_for ph t"
    and "ticket_of ph = ticket_of (hs s i) \<or> ticket_of ph = None" and "pushing ph \<Longrightarrow> pushing (hs s i)"
  shows "tidy s'"
proof -
  have own: "\<And>t. ticket_of ph = Some t \<Longrightarrow> tid t = i"
    using assms(1,8) unfolding tidy_def placed_def by (metis option.distinct(1))
  have "placed ((hs s)(i := ph)) (cells s) (unreleased s)"
    by (rule placed_move) (use assms(1,7,9) own in \<open>auto simp: tidy_def\<close>)
  then show ?thesis using assms(1-6) by (simp add: tidy_def unreleased_def)
qed

lemma tidy_h_start:
  assumes "tidy s" and "h_start oor Tokens i now r s = Some s'"
  shows "tidy s'"
proof -
  have none: "hs s i = HNone" using assms(2) by (auto simp: h_start_def split: phase.splits)
  show ?thesis
  proof (cases "admit oor Tokens (endp s) i now r")
    case (Inl m)
    then show ?thesis
      using assms none by (intro tidy_move[OF assms(1), of s' i "HDone (Rejected m)"])
        (auto simp: h_start_def sys_simps)
  next
    case (Inr t)
    have "tid t = i" using make_ticket_Inr(1)[OF admit_Inr[OF Inr]] .
    moreover have "placed (hs s) (cells s) (unreleased s)" using assms(1) by (simp add: tidy_def)
    ultimately show ?thesis
      using assms none Inr placed_start[of "hs s" "cells s" "unreleased s" i t r]
      by (auto simp: h_start_def sys_simps tidy_def unreleased_def)
  qed
qed

lemma tidy_h_push:
  assumes "tidy s" and "h_push g i s = Some s'"
  shows "tidy s'"
proof -
  obtain t r where h: "hs s i = HPush t r" using assms(2) by (auto simp: h_push_def split: phase.splits)
  have wf: "q_wf (tickets (endp s))" and p: "placed (hs s) (cells s) (unreleased s)"
    using assms(1) by (auto simp: tidy_def)
  show ?thesis
  proof (cases rule: q.push_cases[OF wf, of g t])
    case full: 1
    show ?thesis
    proof (cases "Overflow (cfg (endp s)) = ''block''")
      case True
      then show ?thesis
        using assms(2) h full by (intro tidy_move[OF assms(1), of s' i "HRetry t r"])
          (auto simp: h_push_def sys_simps)
    next
      case False
      then show ?thesis
        using assms(2) h full by (intro tidy_move[OF assms(1), of s' i "HDone (Rejected ''queue full'')"])
          (auto simp: h_push_def sys_simps)
    qed
  next
    case (2 q')
    have "placed ((hs s)(i := HPushed t r)) (cells s) (add_mset t (unreleased s))"
      by (rule placed_push[OF p h])
    then show ?thesis
      using assms h 2 by (auto simp: h_push_def sys_simps tidy_def unreleased_def)
  qed
qed

lemma tidy_handler:
  assumes "tidy s" and "h_retry stop i s = Some s' \<or> h_count i s = Some s' \<or> h_signal i s = Some s'
    \<or> h_gone i s = Some s' \<or> h_respond now now_ms i s = Some s'"
  shows "tidy s'"
  using assms(2)
proof (elim disjE)
  assume a: "h_retry stop i s = Some s'"
  then obtain t r where h: "hs s i = HRetry t r" by (auto simp: h_retry_def split: phase.splits)
  show ?thesis
    by (rule tidy_move[OF assms(1), of s' i "if stop then HDone Shutdown else HPush t r"])
      (use a h in \<open>auto simp: h_retry_def sys_simps split: if_splits\<close>)
next
  assume a: "h_count i s = Some s'"
  then obtain t r where h: "hs s i = HPushed t r" by (auto simp: h_count_def split: phase.splits)
  show ?thesis
    by (rule tidy_move[OF assms(1), of s' i "HSignal t r"])
      (use a h in \<open>auto simp: h_count_def sys_simps Let_def split: if_splits\<close>)
next
  assume a: "h_signal i s = Some s'"
  then obtain t r where h: "hs s i = HSignal t r" by (auto simp: h_signal_def split: phase.splits)
  show ?thesis
    by (rule tidy_move[OF assms(1), of s' i "HWait t r"])
      (use a h in \<open>auto simp: h_signal_def sys_simps split: if_splits\<close>)
next
  assume a: "h_gone i s = Some s'"
  then obtain t r where h: "hs s i = HCancelled t r" by (auto simp: h_gone_def split: phase.splits)
  show ?thesis
    by (rule tidy_move[OF assms(1), of s' i "HDone Gone"])
      (use a h in \<open>auto simp: h_gone_def sys_simps Let_def split: if_splits\<close>)
next
  assume a: "h_respond now now_ms i s = Some s'"
  then obtain t r where h: "hs s i = HReleased t r" by (auto simp: h_respond_def split: phase.splits)
  show ?thesis
    by (rule tidy_move[OF assms(1), of s' i "HDone (Served (fst (respond now now_ms (endp s) t r)))"])
      (use a h in \<open>auto simp: h_respond_def sys_simps split: prod.splits\<close>)
qed

lemma tidy_h_select:
  assumes "tidy s" and "h_select ch i s = Some s'"
  shows "tidy s'"
proof -
  obtain t r where h: "hs s i = HWait t r" using assms(2) by (auto simp: h_select_def split: phase.splits)
  have p: "placed (hs s) (cells s) (unreleased s)" and rest: "q_wf (tickets (endp s))"
    using assms(1) by (auto simp: tidy_def)
  have own: "tid t = i" using p h by (auto simp: placed_def)
  show ?thesis
  proof (cases ch)
    case TakeShutdown
    show ?thesis
      by (rule tidy_move[OF assms(1), of s' i "HDone Shutdown"])
        (use assms(2) h TakeShutdown in \<open>auto simp: h_select_def sys_simps split: if_splits\<close>)
  next
    case TakeGone
    have "placed (hs s) ((cells s)(i := Cancel (cells s i))) (unreleased s)" by (rule placed_cancel[OF p])
    then have "placed ((hs s)(i := HCancelled t r)) ((cells s)(i := Cancel (cells s i))) (unreleased s)"
      by (rule placed_move) (auto simp: h own)
    then show ?thesis
      using assms h TakeGone by (auto simp: h_select_def sys_simps tidy_def unreleased_def)
  next
    case TakeRelease
    let ?c = "(cells s i)\<lparr>Release := Release (cells s i) - 1\<rparr>"
    have pos: "0 < Release (cells s i)" using assms(2) h TakeRelease by (auto simp: h_select_def split: if_splits)
    have "i \<notin># image_mset tid (unreleased s)" using p pos by (auto simp: placed_def)
    then have "placed (hs s) ((cells s)(i := ?c)) (unreleased s)"
      and n: "\<And>u. u \<in># unreleased s \<Longrightarrow> tid u \<noteq> i"
      using placed_cell[OF p, of i] h by auto
    then have "placed ((hs s)(i := HReleased t r)) ((cells s)(i := ?c)) (unreleased s)"
      using own by (auto simp: placed_def)
    then show ?thesis
      using assms h TakeRelease pos by (auto simp: h_select_def sys_simps tidy_def unreleased_def)
  qed
qed

lemma tidy_d_pop:
  assumes "tidy s" and "d_pop x s = Some s'"
  shows "tidy s'"
proof -
  have d: "disp s = DPop" using assms(2) by (auto simp: d_pop_def split: dpc.splits)
  have wf: "q_wf (tickets (endp s))" using assms(1) by (simp add: tidy_def)
  show ?thesis
    by (cases rule: q.pop_cases[OF wf, of x])
      (use assms d in \<open>auto simp: d_pop_def sys_simps tidy_def unreleased_def\<close>)
qed

lemma tidy_d_scan:
  assumes "tidy s" and "d_scan ticks s = Some s'"
  shows "tidy s'"
proof -
  obtain tw where d: "disp s = DScan" "tokenWindow (endp s) = Some tw"
    using assms(2) by (auto simp: d_scan_def split: dpc.splits option.splits)
  have wf: "q_wf (tickets (endp s))" using assms(1) by (simp add: tidy_def)
  show ?thesis
  proof (cases rule: q.popwhere_cases[OF wf, of consume_test "(ticks, tw)"])
    case (1 ts m rest st q')
    then show ?thesis
      using assms d by (cases st) (auto simp: d_scan_def sys_simps tidy_def unreleased_def add.commute)
  qed
qed

lemma tidy_release:
  assumes "tidy s" and "unreleased s = add_mset t m"
  shows "\<exists>s'. release t s = Some s' \<and> hs s' = hs s \<and> endp s' = endp s \<and> placed (hs s) (cells s') m"
  using placed_release[of "hs s" "cells s" t m] assms by (simp add: tidy_def release_def)

lemma tidy_sends:
  assumes "tidy s" and "d_send s = Some s' \<or> d_release s = Some s'"
  shows "tidy s'"
  using assms(2)
proof
  assume a: "d_send s = Some s'"
  then obtain t s1 where d: "disp s = DSend t" "release t s = Some s1" "s' = at_disp DIdle s1"
    by (auto simp: d_send_def split: dpc.splits)
  have "unreleased s = add_mset t (q_content (tickets (endp s)))" by (simp add: unreleased_def d)
  from tidy_release[OF assms(1) this] show ?thesis
    using assms(1) d by (auto simp: tidy_def sys_simps unreleased_def)
next
  assume a: "d_release s = Some s'"
  show ?thesis
  proof (cases "disp s = DRelease []")
    case True
    then show ?thesis
      using a by (intro tidy_frame[OF assms(1)]) (auto simp: d_release_def sys_simps)
  next
    case False
    then obtain t ts s1 where d: "disp s = DRelease (t # ts)" "release t s = Some s1" "s' = at_disp (DCheck t ts) s1"
      using a by (auto simp: d_release_def split: dpc.splits list.splits)
    have "unreleased s = add_mset t (q_content (tickets (endp s)) + mset ts)" by (simp add: unreleased_def d)
    from tidy_release[OF assms(1) this] show ?thesis
      using assms(1) d by (auto simp: tidy_def sys_simps unreleased_def)
  qed
qed

lemma tidy_dispatcher:
  assumes "tidy s" and "d_stop s = Some s' \<or> d_work s = Some s' \<or> d_wait oor tbWait now polls s = Some s'
    \<or> d_wait_stop s = Some s' \<or> d_reset s = Some s' \<or> d_check s = Some s' \<or> d_sub s = Some s' \<or> w_tick s = Some s'"
  shows "tidy s'"
  by (rule tidy_frame[OF assms(1)])
    (use assms(2) in \<open>auto simp: disp_defs sys_simps split: dpc.splits option.splits if_splits\<close>)

lemma tidy_exec:
  assumes "tidy s" and "exec oor Tokens tbWait a s = Some s'"
  shows "tidy s'"
proof (cases a)
  case AStop
  show ?thesis
    by (rule tidy_frame[OF assms(1)]) (use assms(2) AStop in \<open>auto simp: on_ep_def ep_Stop_def\<close>)
qed (use assms(2) in \<open>auto intro: tidy_h_start[OF assms(1)] tidy_h_push[OF assms(1)]
      tidy_handler[OF assms(1)] tidy_h_select[OF assms(1)] tidy_d_pop[OF assms(1)]
      tidy_d_scan[OF assms(1)] tidy_sends[OF assms(1)] tidy_dispatcher[OF assms(1)]\<close>)

lemma tidy_start:
  assumes "endpoint_New oor NewLimiter now c = Ok ep"
  shows "tidy (start ep sk)"
  using endpoint_New_Ok[OF assms] by (simp add: tidy_def start_def unreleased_def placed_def)

lemma tidy_reach:
  "reach oor Tokens tbWait s0 s \<Longrightarrow> tidy s0 \<Longrightarrow> tidy s"
  by (induction rule: reach.induct) (auto intro: tidy_exec)

text \<open>The configuration and the kind of dispatcher never change.\<close>

lemma exec_cfg:
  assumes "exec oor Tokens tbWait a s = Some s'"
  shows "cfg (endp s') = cfg (endp s) \<and> work_cap (endp s') = work_cap (endp s)
    \<and> (tokenWindow (endp s') = None \<longleftrightarrow> tokenWindow (endp s) = None)"
proof -
  note defs = handler_defs disp_defs h_push_def d_pop_def d_send_def d_scan_def d_release_def release_def
    sys_simps ep_Stop_def Let_def
  show ?thesis
    using assms
    by (cases a) (auto simp: defs split: phase.splits dpc.splits option.splits sum.splits prod.splits
        choice.splits list.splits if_splits)
qed

lemma reach_cfg:
  "reach oor Tokens tbWait s0 s \<Longrightarrow> cfg (endp s) = cfg (endp s0) \<and> work_cap (endp s) = work_cap (endp s0)
    \<and> (tokenWindow (endp s) = None \<longleftrightarrow> tokenWindow (endp s0) = None)"
  by (induction rule: reach.induct) (auto dest: exec_cfg)

text \<open>The handlers that have pushed and not yet sent their signal.\<close>

fun signalling :: "phase \<Rightarrow> bool" where
  "signalling (HPushed t r) = True"
| "signalling (HSignal t r) = True"
| "signalling _ = False"

definition unsig :: "(nat \<Rightarrow> phase) \<Rightarrow> nat set" where
  "unsig h = {i. signalling (h i)}"

lemma unsig_update:
  "unsig (h(i := ph)) = (if signalling ph then insert i (unsig h) else unsig h - {i})"
  by (auto simp: unsig_def)

lemma unsig_same: "signalling ph = signalling (h i) \<Longrightarrow> unsig (h(i := ph)) = unsig h"
  by (auto simp: unsig_def)

section \<open>A small endpoint\<close>

text \<open>Two runs of an endpoint with room for one ticket: a strict one and a token window.\<close>

definition demo_one :: "string \<Rightarrow> endpoint_config" where
  "demo_one alg = (demo_cfg ''fifo'' alg)\<lparr>MaxQueueSize := 1\<rparr>"

definition demo_ep :: "string \<Rightarrow> (float64 \<times> int) endpoint" where
  "demo_ep alg =
     (case endpoint_New amd64 demo_bucket 0 (demo_one alg) of Ok ep \<Rightarrow> ep | _ \<Rightarrow> demo_tok)"

definition demo_after :: "string \<Rightarrow> action list \<Rightarrow> (float64 \<times> int) sys" where
  "demo_after alg as = the (exec_all amd64 fst (\<lambda>_ _. None) as (start (demo_ep alg) (Some (4, []))))"

definition demo_req :: request where
  "demo_req = demo_request '''' ''''"

definition demo_std_run :: "action list" where
  "demo_std_run = [AStart 1 0 demo_req, APush 0 1, ACount 1, ASignal 1, AWork, AGrant 100000000 [], APop 0]"

definition demo_served_run :: "action list" where
  "demo_served_run = demo_std_run @ [ASend, ASelect TakeRelease 1, ARespond 100000000 100 1]"

lemma demo_ep_New:
  "endpoint_New amd64 demo_bucket 0 (demo_one ''strict'') = Ok (demo_ep ''strict'')"
  "endpoint_New amd64 demo_bucket 0 (demo_one ''token_window'') = Ok (demo_ep ''token_window'')"
  by code_simp+

lemma reach_after:
  assumes "exec_all amd64 fst (\<lambda>_ _. None) as (start (demo_ep alg) (Some (4, []))) \<noteq> None"
  shows "reach amd64 fst (\<lambda>_ _. None) (start (demo_ep alg) (Some (4, []))) (demo_after alg as)"
  using assms reach_exec_all[OF reach_start, of amd64 fst "\<lambda>_ _. None" as "start (demo_ep alg) (Some (4, []))"]
  by (auto simp: demo_after_def)

definition runs_ok :: "string \<Rightarrow> action list \<Rightarrow> bool" where
  "runs_ok alg as = (case exec_all amd64 fst (\<lambda>_ _. None) as (start (demo_ep alg) (Some (4, []))) of
     None \<Rightarrow> False | Some s \<Rightarrow> True)"

lemma reach_demo:
  "runs_ok alg as \<Longrightarrow> reach amd64 fst (\<lambda>_ _. None) (start (demo_ep alg) (Some (4, []))) (demo_after alg as)"
  by (rule reach_after) (auto simp: runs_ok_def split: option.splits)

lemma demo_std_reach:
  "reach amd64 fst (\<lambda>_ _. None) (start (demo_ep ''strict'') (Some (4, []))) (demo_after ''strict'' demo_std_run)"
  by (rule reach_demo) code_simp

section \<open>Properties\<close>

text \<open>
  C10. The dispatcher never blocks on a ticket: in every interleaving, whenever it is about to send
  to a ticket's \<open>Release\<close>, the channel is empty, because a ticket is released at most once; so
  a client that has left cannot hold up the others.
\<close>

theorem release_never_blocks:
  assumes "endpoint_New oor NewLimiter t0 c = Ok ep" and "reach oor Tokens tbWait (start ep sk) s"
  shows "(disp s = DSend t \<longrightarrow> d_send s \<noteq> None) \<and> (disp s = DRelease ts \<longrightarrow> d_release s \<noteq> None)"
proof -
  have tidy: "tidy s" using tidy_reach[OF assms(2) tidy_start[OF assms(1)]] .
  show ?thesis
  proof (intro conjI impI)
    assume d: "disp s = DSend t"
    then have "unreleased s = add_mset t (q_content (tickets (endp s)))" by (simp add: unreleased_def)
    from tidy_release[OF tidy this] show "d_send s \<noteq> None" by (auto simp: d_send_def d)
  next
    assume d: "disp s = DRelease ts"
    show "d_release s \<noteq> None"
    proof (cases ts)
      case Nil
      then show ?thesis by (simp add: d_release_def d)
    next
      case (Cons u us)
      then have "unreleased s = add_mset u (q_content (tickets (endp s)) + mset us)"
        by (simp add: unreleased_def d)
      from tidy_release[OF tidy this] show ?thesis by (auto simp: d_release_def d Cons)
    qed
  qed
qed

theorem release_never_blocks_witness:
  "d_send (demo_after ''strict'' demo_std_run) \<noteq> None"
proof -
  have "disp (demo_after ''strict'' demo_std_run) = DSend \<lparr>tid = 1, Priority = 0, EnqueuedAt = 0, Cost = 0\<rparr>"
    by code_simp
  then show ?thesis using release_never_blocks[OF demo_ep_New(1) demo_std_reach] by blast
qed



end
