(* ===== verification/EndpointStd.thy ===== *)
theory EndpointStd
  imports EndpointRun
begin

text \<open>
  The endpoints with a limiter (\<open>dispatchStandard\<close>): every queued ticket has exactly one signal, in
  the hands of its handler, in the channel, or taken by the dispatcher. So neither the
  handler's send nor the dispatcher's pop ever fails, and no ticket is forgotten.
\<close>

fun holding :: "dpc \<Rightarrow> nat" where
  "holding DWait = 1"
| "holding DPop = 1"
| "holding _ = 0"

fun std_pc :: "dpc \<Rightarrow> bool" where
  "std_pc DScan = False"
| "std_pc (DRelease _) = False"
| "std_pc (DCheck _ _) = False"
| "std_pc (DSub _ _) = False"
| "std_pc _ = True"

definition signalled :: "'tb sys \<Rightarrow> bool" where
  "signalled s \<longleftrightarrow>
     tokenWindow (endp s) = None \<and> lim (endp s) \<noteq> None \<and> std_pc (disp s) \<and> finite (unsig (hs s))
     \<and> card (unsig (hs s)) + work (endp s) + holding (disp s) \<le> q_Len (tickets (endp s))
     \<and> (disp s \<noteq> DStop \<longrightarrow>
          card (unsig (hs s)) + work (endp s) + holding (disp s) = q_Len (tickets (endp s)))"

text \<open>A handler moves, and neither its signal nor the rest is concerned.\<close>

lemma signalled_frame:
  assumes "signalled s" and "unsig (hs s') = unsig (hs s)" and "disp s' = disp s" and "endp s' = endp s"
  shows "signalled s'"
  using assms by (simp add: signalled_def)

lemma signalled_handler:
  assumes "signalled s" and "h_start oor Tokens i now r s = Some s' \<or> h_retry stop i s = Some s'
    \<or> h_count i s = Some s' \<or> h_select ch i s = Some s' \<or> h_gone i s = Some s' \<or> h_respond now now_ms i s = Some s'"
  shows "signalled s'"
proof (rule signalled_frame[OF assms(1)])
  have std: "tokenWindow (endp s) = None" using assms(1) by (simp add: signalled_def)
  show "unsig (hs s') = unsig (hs s)" "disp s' = disp s" "endp s' = endp s"
    using assms(2) std
    by (auto simp: handler_defs sys_simps Let_def unsig_same
        split: phase.splits sum.splits choice.splits prod.splits if_splits)
qed

lemma signalled_h_push:
  assumes "signalled s" and "tidy s" and "h_push g i s = Some s'"
  shows "signalled s'"
proof -
  obtain t r where h: "hs s i = HPush t r" using assms(3) by (auto simp: h_push_def split: phase.splits)
  then have i: "i \<notin> unsig (hs s)" by (simp add: unsig_def)
  have wf: "q_wf (tickets (endp s))" using assms(2) by (simp add: tidy_def)
  show ?thesis
  proof (cases rule: q.push_cases[OF wf, of g t])
    case full: 1
    show ?thesis
      by (rule signalled_frame[OF assms(1)])
        (use assms(3) h full in \<open>auto simp: h_push_def sys_simps unsig_same split: if_splits\<close>)
  next
    case (2 q')
    then have s': "s' = goto i (HPushed t r) (on_ep (\<lambda>ep. ep\<lparr>tickets := q'\<rparr>) s)"
      using assms(3) h by (simp add: h_push_def)
    have "unsig (hs s') = insert i (unsig (hs s))" by (simp add: s' sys_simps unsig_update)
    then show ?thesis using assms(1) i 2(6) by (auto simp: signalled_def s' sys_simps)
  qed
qed

lemma signalled_h_signal:
  assumes "signalled s" and "h_signal i s = Some s'"
  shows "signalled s'"
proof -
  obtain t r where h: "hs s i = HSignal t r" using assms(2) by (auto simp: h_signal_def split: phase.splits)
  then have s': "s' = goto i (HWait t r) (on_ep (\<lambda>ep. ep\<lparr>work := work ep + 1\<rparr>) s)"
    using assms(2) by (simp add: h_signal_def split: if_splits)
  have i: "i \<in> unsig (hs s)" using h by (simp add: unsig_def)
  have u: "unsig (hs s') = unsig (hs s) - {i}" by (simp add: s' sys_simps unsig_update)
  have f: "finite (unsig (hs s))" using assms(1) by (simp add: signalled_def)
  have "Suc (card (unsig (hs s'))) = card (unsig (hs s))"
    unfolding u by (rule card_Suc_Diff1[OF f i])
  moreover have "finite (unsig (hs s'))" unfolding u using f by simp
  ultimately show ?thesis using assms(1) by (auto simp: signalled_def s' sys_simps)
qed

lemma signalled_d_pop:
  assumes "signalled s" and "tidy s" and "d_pop x s = Some s'"
  shows "signalled s'"
proof -
  have d: "disp s = DPop" using assms(3) by (auto simp: d_pop_def split: dpc.splits)
  have wf: "q_wf (tickets (endp s))" using assms(2) by (simp add: tidy_def)
  show ?thesis
    by (cases rule: q.pop_cases[OF wf, of x])
      (use assms(1,3) d in \<open>auto simp: d_pop_def sys_simps signalled_def\<close>)
qed

text \<open>The steps of the other dispatcher are not taken.\<close>

lemma signalled_no_window:
  assumes "signalled s"
  shows "d_reset s = None" "d_scan ticks s = None" "d_release s = None" "d_check s = None" "d_sub s = None"
    "w_tick s = None"
proof -
  have std: "tokenWindow (endp s) = None" "std_pc (disp s)" using assms by (auto simp: signalled_def)
  then show "d_reset s = None" "d_scan ticks s = None" "w_tick s = None"
    by (simp_all add: d_reset_def d_scan_def w_tick_def split: dpc.splits)
  show "d_release s = None" "d_check s = None" "d_sub s = None"
    using std(2) by (cases "disp s"; simp add: d_release_def d_check_def d_sub_def)+
qed

lemma signalled_dispatcher:
  assumes "signalled s" and "d_stop s = Some s' \<or> d_work s = Some s' \<or> d_wait oor tbWait now polls s = Some s'
    \<or> d_wait_stop s = Some s' \<or> d_send s = Some s'"
  shows "signalled s'"
  using assms(2)
proof (elim disjE)
  assume "d_stop s = Some s'"
  then show ?thesis using assms(1) by (auto simp: d_stop_def sys_simps signalled_def split: if_splits)
next
  assume "d_work s = Some s'"
  then show ?thesis using assms(1) by (auto simp: d_work_def sys_simps signalled_def split: if_splits)
next
  assume "d_wait oor tbWait now polls s = Some s'"
  then obtain l' where "disp s = DWait" "s' = at_disp DPop (on_ep (\<lambda>ep. ep\<lparr>lim := Some l'\<rparr>) s)"
    by (auto simp: d_wait_def split: dpc.splits option.splits)
  then show ?thesis using assms(1) by (auto simp: sys_simps signalled_def)
next
  assume "d_wait_stop s = Some s'"
  then show ?thesis using assms(1) by (auto simp: d_wait_stop_def sys_simps signalled_def split: if_splits)
next
  assume "d_send s = Some s'"
  then obtain t s1 where "disp s = DSend t" "release t s = Some s1" "s' = at_disp DIdle s1"
    by (auto simp: d_send_def split: dpc.splits)
  then show ?thesis using assms(1) by (auto simp: release_def sys_simps signalled_def split: if_splits)
qed

lemma signalled_exec:
  assumes "signalled s" and "tidy s" and "exec oor Tokens tbWait a s = Some s'"
  shows "signalled s'"
proof (cases a)
  case AStop
  then show ?thesis using assms by (auto simp: on_ep_def ep_Stop_def signalled_def)
qed (use assms(3) in \<open>auto intro: signalled_handler[OF assms(1)] signalled_h_push[OF assms(1,2)]
      signalled_h_signal[OF assms(1)] signalled_d_pop[OF assms(1,2)] signalled_dispatcher[OF assms(1)]
      simp: signalled_no_window[OF assms(1)]\<close>)

lemma signalled_reach:
  assumes "reach oor Tokens tbWait s0 s" and "signalled s0" and "tidy s0"
  shows "signalled s \<and> tidy s"
  using assms by (induction rule: reach.induct) (auto intro: signalled_exec tidy_exec)

lemma signalled_start:
  assumes "endpoint_New oor NewLimiter now c = Ok ep" and "Algorithm c \<noteq> ''token_window''"
  shows "signalled (start ep sk)"
  using endpoint_New_Ok[OF assms(1)] assms(2) by (simp add: signalled_def start_def unsig_def)

section \<open>Grants and releases\<close>

text \<open>The requests that have been released: the value is in the channel, or the handler took it.\<close>

fun answered :: "phase \<Rightarrow> bool" where
  "answered (HReleased t r) = True"
| "answered (HDone (Served resp)) = True"
| "answered _ = False"

definition released :: "'tb sys \<Rightarrow> nat set" where
  "released s = {i. answered (hs s i) \<or> 0 < Release (cells s i)}"

fun granting :: "dpc \<Rightarrow> nat" where
  "granting DPop = 1"
| "granting (DSend t) = 1"
| "granting _ = 0"

fun is_grant :: "action \<Rightarrow> bool" where
  "is_grant (AGrant now polls) = True"
| "is_grant _ = False"

definition paid :: "nat \<Rightarrow> 'tb sys \<Rightarrow> bool" where
  "paid n s \<longleftrightarrow> finite (released s) \<and> card (released s) + granting (disp s) \<le> n"

lemma paid_less:
  assumes "paid n s" and "released s' \<subseteq> released s" and "granting (disp s') \<le> granting (disp s)"
  shows "paid n s'"
proof -
  have "card (released s') \<le> card (released s)" using assms(1,2) by (intro card_mono) (auto simp: paid_def)
  then show ?thesis using assms finite_subset[OF assms(2)] by (auto simp: paid_def)
qed

lemma paid_handler:
  assumes "paid n s" and "h_start oor Tokens i now r s = Some s' \<or> h_push g i s = Some s' \<or> h_retry stop i s = Some s'
    \<or> h_count i s = Some s' \<or> h_signal i s = Some s' \<or> h_select ch i s = Some s' \<or> h_gone i s = Some s'
    \<or> h_respond now now_ms i s = Some s'"
  shows "paid n s'"
proof (rule paid_less[OF assms(1)])
  show "released s' \<subseteq> released s" "granting (disp s') \<le> granting (disp s)"
    using assms(2)
    by (auto simp: handler_defs h_push_def sys_simps Let_def released_def
        split: phase.splits sum.splits choice.splits prod.splits if_splits)
qed

lemma paid_dispatcher:
  assumes "paid n s" and "std_pc (disp s')"
    and "d_stop s = Some s' \<or> d_work s = Some s' \<or> d_wait_stop s = Some s' \<or> d_pop x s = Some s'"
  shows "paid n s'"
proof (rule paid_less[OF assms(1)])
  show "released s' \<subseteq> released s" "granting (disp s') \<le> granting (disp s)"
    using assms(2,3)
    by (auto simp: d_stop_def d_work_def d_wait_stop_def d_pop_def sys_simps released_def
        split: dpc.splits option.splits prod.splits if_splits)
qed

lemma paid_d_send:
  assumes "paid n s" and "d_send s = Some s'"
  shows "paid n s'"
proof -
  obtain t s1 where d: "disp s = DSend t" "release t s = Some s1" "s' = at_disp DIdle s1"
    using assms(2) by (auto simp: d_send_def split: dpc.splits)
  have "released s' \<subseteq> insert (tid t) (released s)"
    using d by (auto simp: release_def sys_simps released_def split: if_splits)
  then have "card (released s') \<le> card (insert (tid t) (released s))" "finite (released s')"
    using assms(1) by (auto simp: paid_def intro: card_mono finite_subset)
  then show ?thesis
    using assms(1) d card_insert_le_m1[of _ "released s" "tid t"]
    by (auto simp: paid_def sys_simps card_insert_if split: if_splits)
qed

lemma paid_exec:
  assumes "paid n s" and "signalled s" and "tidy s" and "exec oor Tokens tbWait a s = Some s'"
  shows "paid (if is_grant a then n + 1 else n) s'"
proof -
  have pc: "std_pc (disp s')" using signalled_exec[OF assms(2-4)] by (simp add: signalled_def)
  show ?thesis
  proof (cases a)
    case (AGrant now polls)
    then obtain l' where "disp s = DWait" "s' = at_disp DPop (on_ep (\<lambda>ep. ep\<lparr>lim := Some l'\<rparr>) s)"
      using assms(4) by (auto simp: d_wait_def split: dpc.splits option.splits)
    then show ?thesis using assms(1) AGrant by (auto simp: paid_def released_def sys_simps)
  next
    case AStop
    then show ?thesis using assms(1,4) by (auto simp: paid_def released_def on_ep_def)
  qed (use assms(4) in \<open>auto intro: paid_handler[OF assms(1)] paid_dispatcher[OF assms(1) pc] paid_d_send[OF assms(1)]
      simp: signalled_no_window[OF assms(2)]\<close>)
qed

lemma paid_exec_all:
  assumes "exec_all oor Tokens tbWait as s = Some s'" and "paid n s" and "signalled s" and "tidy s"
  shows "paid (n + length (filter is_grant as)) s'"
  using assms
proof (induction as arbitrary: s n)
  case (Cons a as)
  obtain s1 where e: "exec oor Tokens tbWait a s = Some s1" "exec_all oor Tokens tbWait as s1 = Some s'"
    using Cons.prems(1) by (auto split: option.splits)
  have "paid (if is_grant a then n + 1 else n) s1" by (rule paid_exec[OF Cons.prems(2-4) e(1)])
  then show ?case
    using Cons.IH[OF e(2), of "if is_grant a then n + 1 else n"] e(1)
      signalled_exec[OF Cons.prems(3,4)] tidy_exec[OF Cons.prems(4)] by auto
qed simp

section \<open>Properties\<close>



text \<open>
  C4. The rate limit is never exceeded: in every run the requests released, served or about to
  be, are at most as many as the slots the limiter has granted.
\<close>

theorem served_at_most_granted:
  assumes "endpoint_New oor NewLimiter t0 c = Ok ep" and "Algorithm c \<noteq> ''token_window''"
    and "exec_all oor Tokens tbWait as (start ep sk) = Some s"
  shows "finite {i. \<exists>resp. hs s i = HDone (Served resp)}
    \<and> card {i. \<exists>resp. hs s i = HDone (Served resp)} \<le> length (filter is_grant as)"
proof -
  have "paid 0 (start ep sk)" using endpoint_New_Ok[OF assms(1)]
    by (simp add: paid_def released_def start_def)
  from paid_exec_all[OF assms(3) this signalled_start[OF assms(1,2)] tidy_start[OF assms(1)]]
  have p: "finite (released s)" "card (released s) \<le> length (filter is_grant as)" by (auto simp: paid_def)
  have sub: "{i. \<exists>resp. hs s i = HDone (Served resp)} \<subseteq> released s" by (auto simp: released_def)
  show ?thesis using finite_subset[OF sub p(1)] card_mono[OF p(1) sub] p(2) by simp
qed

lemma demo_served:
  "exec_all amd64 fst (\<lambda>_ _. None) demo_served_run (start (demo_ep ''strict'') (Some (4, [])))
    = Some (demo_after ''strict'' demo_served_run)"
proof -
  have "runs_ok ''strict'' demo_served_run" by code_simp
  then show ?thesis by (auto simp: runs_ok_def demo_after_def split: option.splits)
qed

theorem served_at_most_granted_witness:
  "finite {i. \<exists>resp. hs (demo_after ''strict'' demo_served_run) i = HDone (Served resp)}
    \<and> card {i. \<exists>resp. hs (demo_after ''strict'' demo_served_run) i = HDone (Served resp)}
      \<le> length (filter is_grant demo_served_run)"
  by (rule served_at_most_granted[OF demo_ep_New(1) _ demo_served]) code_simp

end
