(* ===== verification/EndpointTok.thy ===== *)
theory EndpointTok
  imports EndpointRun
begin

text \<open>
  The token window endpoints (\<open>dispatchTokenWindow\<close>, \<open>releaseTokenFitting\<close>): the budget of a window
  over a whole run, and the absence of lost wake-ups although signals and resets race with
  the scans.
\<close>

section \<open>One scan\<close>

definition tw_fine :: "token_window \<Rightarrow> bool" where
  "tw_fine tw \<longleftrightarrow> 0 \<le> remaining tw \<and> remaining tw \<le> capacity tw \<and> capacity tw < 2 ^ 63"

lemma TryConsume_fine:
  assumes "tw_fine tw" and "0 \<le> cost" and "TryConsume cost tw = (ok, tw')"
  shows "tw_fine tw'" "capacity tw' = capacity tw" "resetCh tw' = resetCh tw" "ok \<longleftrightarrow> cost \<le> remaining tw"
    "remaining tw' = (if ok then remaining tw - cost else remaining tw)" "tw_stopped tw' = tw_stopped tw"
proof -
  have "is_i64 (remaining tw - cost)" if "cost \<le> remaining tw"
    using assms(1,2) that by (auto simp: tw_fine_def is_i64_def)
  then show "tw_fine tw'" "capacity tw' = capacity tw" "resetCh tw' = resetCh tw" "ok \<longleftrightarrow> cost \<le> remaining tw"
    "remaining tw' = (if ok then remaining tw - cost else remaining tw)" "tw_stopped tw' = tw_stopped tw"
    using assms by (auto simp: TryConsume_def i64_id tw_fine_def split: if_splits)
qed

lemma tw_tick_fine:
  assumes "tw_fine tw"
  shows "tw_fine (tw_tick tw)" "capacity (tw_tick tw) = capacity tw" "resetCh tw \<le> resetCh (tw_tick tw)"
    "resetCh (tw_tick tw) = 0 \<Longrightarrow> tw_tick tw = tw"
  using assms by (auto simp: tw_fine_def tw_tick_def tw_Reset_def Let_def)

text \<open>
  After a scan either a refill happened meanwhile, and its signal is there, or nothing that is
  left fits in what is left.
\<close>

lemma scan_exhausts:
  assumes "sfilter consume_test (ticks, tw) ts = (m, rest, (ticks', tw'))" and "tw_fine tw"
    and "\<And>t. t \<in> set ts \<Longrightarrow> 0 \<le> Cost t"
  shows "tw_fine tw' \<and> capacity tw' = capacity tw \<and> resetCh tw \<le> resetCh tw'
    \<and> (resetCh tw' = 0 \<longrightarrow> remaining tw' \<le> remaining tw \<and> (\<forall>t\<in>set rest. remaining tw' < Cost t))"
  using assms
proof (induction ts arbitrary: ticks tw m rest)
  case (Cons t ts)
  define tw1 where "tw1 = (if ticks \<noteq> [] \<and> hd ticks then tw_tick tw else tw)"
  obtain ok tw2 where c: "TryConsume (Cost t) tw1 = (ok, tw2)" by fastforce
  have f1: "tw_fine tw1" "capacity tw1 = capacity tw" "resetCh tw \<le> resetCh tw1" "resetCh tw1 = 0 \<Longrightarrow> tw1 = tw"
    using tw_tick_fine[OF Cons.prems(2)] Cons.prems(2) by (auto simp: tw1_def)
  note f2 = TryConsume_fine[OF f1(1) Cons.prems(3)[of t, simplified] c]
  obtain m1 r1 st where rec: "sfilter consume_test (tl ticks, tw2) ts = (m1, r1, st)" by (metis prod_cases3)
  have test: "consume_test (ticks, tw) t = (ok, tl ticks, tw2)" using c by (simp add: consume_test_def tw1_def)
  have parts: "st = (ticks', tw')" "rest = (if ok then r1 else t # r1)"
    using Cons.prems(1) test rec by (auto split: if_splits)
  have "tw_fine tw' \<and> capacity tw' = capacity tw2 \<and> resetCh tw2 \<le> resetCh tw'
    \<and> (resetCh tw' = 0 \<longrightarrow> remaining tw' \<le> remaining tw2 \<and> (\<forall>t\<in>set r1. remaining tw' < Cost t))"
    by (rule Cons.IH) (use rec parts(1) f2(1) Cons.prems(3) in auto)
  then show ?case using f1 f2 parts(2) Cons.prems(3)[of t] by (auto split: if_splits)
qed simp

section \<open>No ticket that fits is forgotten\<close>

definition costs_ok :: "'tb sys \<Rightarrow> bool" where
  "costs_ok s \<longleftrightarrow> (\<forall>i t. ticket_of (hs s i) = Some t \<longrightarrow> 0 \<le> Cost t)
     \<and> (\<forall>t\<in>#q_content (tickets (endp s)). 0 \<le> Cost t)"

fun tok_pc :: "dpc \<Rightarrow> bool" where
  "tok_pc DWait = False"
| "tok_pc DPop = False"
| "tok_pc (DSend t) = False"
| "tok_pc _ = True"

definition awake :: "'tb sys \<Rightarrow> token_window \<Rightarrow> bool" where
  "awake s tw \<longleftrightarrow> 0 < work (endp s) \<or> 0 < resetCh tw \<or> unsig (hs s) \<noteq> {}"

definition tok_inv :: "'tb sys \<Rightarrow> bool" where
  "tok_inv s \<longleftrightarrow> costs_ok s \<and> tok_pc (disp s) \<and> 0 \<le> DefaultTokens (cfg (endp s))
     \<and> (\<exists>tw. tokenWindow (endp s) = Some tw \<and> tw_fine tw \<and> capacity tw = TokensPerWindow (cfg (endp s))
         \<and> (disp s \<noteq> DScan \<and> disp s \<noteq> DStop \<longrightarrow>
              (\<forall>t\<in>#q_content (tickets (endp s)). Cost t \<le> remaining tw \<longrightarrow> awake s tw)))"

lemma tok_cost: "tok_inv s \<Longrightarrow> ticket_of (hs s i) = Some t \<Longrightarrow> 0 \<le> Cost t"
  unfolding tok_inv_def costs_ok_def by blast

lemma tok_frame:
  assumes "tok_inv s" and "cfg (endp s') = cfg (endp s)" and "tickets (endp s') = tickets (endp s)"
    and "tokenWindow (endp s') = tokenWindow (endp s)" and "work (endp s') = work (endp s)"
    and "unsig (hs s') = unsig (hs s)"
    and "\<And>i t. ticket_of (hs s' i) = Some t \<Longrightarrow> ticket_of (hs s i) = Some t \<or> 0 \<le> Cost t"
    and "tok_pc (disp s')" and "disp s = DScan \<or> disp s = DStop \<Longrightarrow> disp s' = disp s \<or> disp s' = DStop"
  shows "tok_inv s'"
proof -
  have "costs_ok s'" using assms(1,3,7) unfolding tok_inv_def costs_ok_def by metis
  then show ?thesis using assms unfolding tok_inv_def awake_def by auto
qed

lemma tok_handler:
  assumes "tok_inv s" and "h_start oor Tokens i now r s = Some s' \<or> h_retry stop i s = Some s'
    \<or> h_count i s = Some s' \<or> h_select ch i s = Some s' \<or> h_gone i s = Some s' \<or> h_respond now now_ms i s = Some s'"
  shows "tok_inv s'"
proof (rule tok_frame[OF assms(1)])
  obtain tw where tw: "tokenWindow (endp s) = Some tw" "0 \<le> DefaultTokens (cfg (endp s))" "tok_pc (disp s)"
    using assms(1) by (auto simp: tok_inv_def)
  have cost: "0 \<le> Cost t" if "admit oor Tokens (endp s) i now r = Inr t" for t
    using make_ticket_Inr(4)[OF admit_Inr[OF that] tw(1)] token_cost_nonneg[OF tw(2)] by simp
  have d: "disp s' = disp s" using assms(2)
    by (auto simp: handler_defs sys_simps Let_def
        split: phase.splits sum.splits choice.splits prod.splits if_splits)
  show "tok_pc (disp s')" using d tw(3) by simp
  show "disp s' = disp s \<or> disp s' = DStop" using d by simp
  show "cfg (endp s') = cfg (endp s)" "tickets (endp s') = tickets (endp s)"
    "tokenWindow (endp s') = tokenWindow (endp s)" "work (endp s') = work (endp s)"
    "unsig (hs s') = unsig (hs s)"
    using assms(2)
    by (auto simp: handler_defs sys_simps Let_def unsig_same
        split: phase.splits sum.splits choice.splits prod.splits if_splits)
  show "ticket_of (hs s' j) = Some t \<Longrightarrow> ticket_of (hs s j) = Some t \<or> 0 \<le> Cost t" for j t
    using assms(2) cost
    by (auto simp: handler_defs sys_simps Let_def
        split: phase.splits sum.splits choice.splits prod.splits if_splits)
qed

lemma tok_h_push:
  assumes "tok_inv s" and "tidy s" and "h_push g i s = Some s'"
  shows "tok_inv s'"
proof -
  obtain t r where h: "hs s i = HPush t r" using assms(3) by (auto simp: h_push_def split: phase.splits)
  have wf: "q_wf (tickets (endp s))" using assms(2) by (simp add: tidy_def)
  have cost: "0 \<le> Cost t" using tok_cost[OF assms(1), of i t] h by simp
  show ?thesis
  proof (cases rule: q.push_cases[OF wf, of g t])
    case full: 1
    show ?thesis
      by (rule tok_frame[OF assms(1)])
        (use assms(1,3) h full in \<open>auto simp: tok_inv_def h_push_def sys_simps unsig_same split: if_splits\<close>)
  next
    case (2 q')
    then have s': "s' = goto i (HPushed t r) (on_ep (\<lambda>ep. ep\<lparr>tickets := q'\<rparr>) s)"
      using assms(3) h by (simp add: h_push_def)
    have u: "unsig (hs s') \<noteq> {}" by (simp add: s' sys_simps unsig_update)
    have "costs_ok s'" using assms(1) h cost 2(5) by (auto simp: s' sys_simps tok_inv_def costs_ok_def)
    then show ?thesis using assms(1) u by (auto simp: tok_inv_def awake_def s' sys_simps)
  qed
qed

lemma tok_h_signal:
  assumes "tok_inv s" and "h_signal i s = Some s'"
  shows "tok_inv s'"
proof -
  obtain t r where h: "hs s i = HSignal t r" using assms(2) by (auto simp: h_signal_def split: phase.splits)
  then have s': "s' = goto i (HWait t r) (on_ep (\<lambda>ep. ep\<lparr>work := work ep + 1\<rparr>) s)"
    using assms(2) by (simp add: h_signal_def split: if_splits)
  have "0 \<le> Cost t" using tok_cost[OF assms(1), of i t] h by simp
  then have "costs_ok s'" using assms(1) by (auto simp: s' sys_simps tok_inv_def costs_ok_def)
  then show ?thesis using assms(1) by (auto simp: tok_inv_def awake_def s' sys_simps)
qed

lemma tok_d_scan:
  assumes "tok_inv s" and "tidy s" and "d_scan ticks s = Some s'"
  shows "tok_inv s'"
proof -
  obtain tw where tw: "disp s = DScan" "tokenWindow (endp s) = Some tw" "tw_fine tw"
    "capacity tw = TokensPerWindow (cfg (endp s))"
    using assms(1,3) by (auto simp: tok_inv_def d_scan_def split: dpc.splits option.splits)
  have wf: "q_wf (tickets (endp s))" using assms(2) by (simp add: tidy_def)
  have nonneg: "\<And>t. t \<in># q_content (tickets (endp s)) \<Longrightarrow> 0 \<le> Cost t"
    using assms(1) by (auto simp: tok_inv_def costs_ok_def)
  show ?thesis
  proof (cases rule: q.popwhere_cases[OF wf, of consume_test "(ticks, tw)"])
    case (1 ts m rest st q')
    obtain ticks' tw' where st: "st = (ticks', tw')" by (cases st) auto
    have "set ts = set_mset (q_content (tickets (endp s)))"
      using q.serves_content[OF wf 1(2)] by (metis set_mset_mset)
    then have x: "tw_fine tw' \<and> capacity tw' = capacity tw \<and> resetCh tw \<le> resetCh tw'
      \<and> (resetCh tw' = 0 \<longrightarrow> remaining tw' \<le> remaining tw \<and> (\<forall>t\<in>set rest. remaining tw' < Cost t))"
      using scan_exhausts[OF 1(3)[unfolded st] tw(3)] nonneg by auto
    have s': "s' = at_disp (DRelease m) (on_ep (\<lambda>ep. ep\<lparr>tickets := q', tokenWindow := Some tw'\<rparr>) s)"
      using assms(3) tw 1(1) st by (simp add: d_scan_def)
    have c: "\<And>t. t \<in># q_content q' \<Longrightarrow> 0 \<le> Cost t" using nonneg 1(7) by auto
    have "costs_ok s'" using assms(1) c by (auto simp: s' sys_simps tok_inv_def costs_ok_def)
    moreover have "\<forall>t\<in>#q_content q'. Cost t \<le> remaining tw' \<longrightarrow> awake s' tw'"
      using x 1(6) by (auto simp: awake_def)
    ultimately show ?thesis
      using assms(1) x tw(4) by (auto simp: tok_inv_def s' sys_simps)
  qed
qed

lemma tok_d_work_reset:
  assumes "tok_inv s" and "d_work s = Some s' \<or> d_reset s = Some s'"
  shows "tok_inv s'"
  using assms
  by (auto simp: d_work_def d_reset_def tw_RecvReset_def sys_simps tok_inv_def costs_ok_def tw_fine_def
      split: dpc.splits option.splits if_splits)

lemma tok_w_tick:
  assumes "tok_inv s" and "w_tick s = Some s'"
  shows "tok_inv s'"
proof -
  obtain tw where tw: "tokenWindow (endp s) = Some tw" "tw_fine tw"
    using assms(1) by (auto simp: tok_inv_def)
  have s': "s' = on_ep (\<lambda>ep. ep\<lparr>tokenWindow := Some (tw_tick tw)\<rparr>) s"
    using assms(2) tw by (simp add: w_tick_def)
  note f = tw_tick_fine[OF tw(2)]
  have "costs_ok s'" using assms(1) by (auto simp: s' sys_simps tok_inv_def costs_ok_def)
  moreover have "awake s tw \<Longrightarrow> awake s' (tw_tick tw)" using f(3) by (auto simp: awake_def s' sys_simps)
  moreover have "tw_tick tw = tw \<or> awake s' (tw_tick tw)" using f(4) by (auto simp: awake_def)
  ultimately show ?thesis
    using assms(1) tw f(1,2) unfolding tok_inv_def by (auto simp: s' sys_simps)
qed

lemma tok_dispatcher:
  assumes "tok_inv s" and "d_stop s = Some s' \<or> d_release s = Some s' \<or> d_check s = Some s' \<or> d_sub s = Some s'"
  shows "tok_inv s'"
proof -
  have t: "tok_pc (disp s)" using assms(1) by (simp add: tok_inv_def)
  show ?thesis
    by (rule tok_frame[OF assms(1)])
      (use assms(2) t in \<open>auto simp: d_stop_def d_release_def release_def d_check_def d_sub_def sys_simps
        split: dpc.splits list.splits if_splits\<close>)
qed

text \<open>The steps of the other dispatcher are not taken.\<close>

lemma tok_no_limiter:
  assumes "tok_inv s"
  shows "d_wait oor tbWait now polls s = None" "d_wait_stop s = None" "d_pop x s = None" "d_send s = None"
  using assms by (cases "disp s"; auto simp: tok_inv_def d_wait_def d_wait_stop_def d_pop_def d_send_def)+

lemma tok_exec:
  assumes "tok_inv s" and "tidy s" and "exec oor Tokens tbWait a s = Some s'"
  shows "tok_inv s'"
proof (cases a)
  case AStop
  then show ?thesis
    using assms by (auto simp: on_ep_def ep_Stop_def tok_inv_def costs_ok_def tw_Stop_def tw_fine_def awake_def)
qed (use assms(3) in \<open>auto intro: tok_handler[OF assms(1)] tok_h_push[OF assms(1,2)] tok_h_signal[OF assms(1)]
      tok_d_scan[OF assms(1,2)] tok_d_work_reset[OF assms(1)] tok_w_tick[OF assms(1)] tok_dispatcher[OF assms(1)]
      simp: tok_no_limiter[OF assms(1)]\<close>)

lemma tok_reach:
  assumes "reach oor Tokens tbWait s0 s" and "tok_inv s0" and "tidy s0"
  shows "tok_inv s \<and> tidy s"
  using assms by (induction rule: reach.induct) (auto intro: tok_exec tidy_exec)

lemma tok_start:
  assumes "endpoint_New oor NewLimiter now c = Ok ep" and "Algorithm c = ''token_window''"
    and "0 \<le> DefaultTokens c" and "0 \<le> TokensPerWindow c" and "TokensPerWindow c < 2 ^ 63"
  shows "tok_inv (start ep sk)"
proof -
  obtain tw where tw: "tokenWindow ep = Some tw" using endpoint_New_Ok(11)[OF assms(1)] assms(2) by auto
  then show ?thesis
    using endpoint_New_Ok[OF assms(1)] assms(3-5)
    by (auto simp: tok_inv_def start_def costs_ok_def tw_fine_def)
qed

section \<open>What a window grants\<close>

fun refills :: "action \<Rightarrow> bool" where
  "refills ATick = True"
| "refills (AScan ticks) = (True \<in> set ticks)"
| "refills _ = False"

text \<open>The cost of the tickets that a scan has just taken from the queue, and of those of a run.\<close>

fun taken :: "action \<Rightarrow> 'tb sys \<Rightarrow> int" where
  "taken (AScan ticks) s' = (case disp s' of DRelease ts \<Rightarrow> sum_list (List.map Cost ts) | _ \<Rightarrow> 0)"
| "taken _ s' = 0"

fun run_cost ::
  "(float64 \<Rightarrow> int) \<Rightarrow> ('tb \<Rightarrow> float64) \<Rightarrow> (int \<Rightarrow> 'tb \<Rightarrow> 'tb option) \<Rightarrow> action list \<Rightarrow> 'tb sys \<Rightarrow> int" where
  "run_cost oor Tokens tbWait [] s = 0"
| "run_cost oor Tokens tbWait (a # as) s =
     (case exec oor Tokens tbWait a s of
        None \<Rightarrow> 0 | Some s' \<Rightarrow> taken a s' + run_cost oor Tokens tbWait as s')"

definition left :: "'tb sys \<Rightarrow> int" where
  "left s = (case tokenWindow (endp s) of Some tw \<Rightarrow> tw_Remaining tw | None \<Rightarrow> 0)"

lemma scan_spends:
  assumes "sfilter consume_test (ticks, tw) ts = (m, rest, (ticks', tw'))" and "tw_fine tw"
    and "\<And>t. t \<in> set ts \<Longrightarrow> 0 \<le> Cost t" and "True \<notin> set ticks"
  shows "remaining tw' = remaining tw - sum_list (List.map Cost m)"
  using assms
proof (induction ts arbitrary: ticks tw m rest)
  case (Cons t ts)
  obtain ok tw2 where c: "TryConsume (Cost t) tw = (ok, tw2)" by fastforce
  note f = TryConsume_fine[OF Cons.prems(2) Cons.prems(3)[of t, simplified] c]
  obtain m1 r1 st where rec: "sfilter consume_test (tl ticks, tw2) ts = (m1, r1, st)" by (metis prod_cases3)
  have hd: "\<not> (ticks \<noteq> [] \<and> hd ticks)" using Cons.prems(4) by (cases ticks) auto
  then have test: "consume_test (ticks, tw) t = (ok, tl ticks, tw2)" using c by (auto simp: consume_test_def)
  have parts: "st = (ticks', tw')" "m = (if ok then t # m1 else m1)"
    using Cons.prems(1) test rec by (auto split: if_splits)
  have "True \<notin> set (tl ticks)" using Cons.prems(4) by (cases ticks) auto
  then have "remaining tw' = remaining tw2 - sum_list (List.map Cost m1)"
    using Cons.IH[of "tl ticks" tw2 m1 r1] rec parts(1) f(1) Cons.prems(3) by auto
  then show ?case using f(5) parts(2) by auto
qed simp

lemma left_scan:
  assumes "tok_inv s" and "tidy s" and "d_scan ticks s = Some s'" and "True \<notin> set ticks"
  shows "left s' = left s - taken (AScan ticks) s'"
proof -
  obtain tw where tw: "disp s = DScan" "tokenWindow (endp s) = Some tw" "tw_fine tw"
    using assms(1,3) by (auto simp: tok_inv_def d_scan_def split: dpc.splits option.splits)
  have wf: "q_wf (tickets (endp s))" using assms(2) by (simp add: tidy_def)
  show ?thesis
  proof (cases rule: q.popwhere_cases[OF wf, of consume_test "(ticks, tw)"])
    case (1 ts m rest st q')
    obtain ticks' tw' where st: "st = (ticks', tw')" by (cases st) auto
    have "set ts = set_mset (q_content (tickets (endp s)))"
      using q.serves_content[OF wf 1(2)] by (metis set_mset_mset)
    then have "remaining tw' = remaining tw - sum_list (List.map Cost m)"
      using scan_spends[OF 1(3)[unfolded st] tw(3) _ assms(4)] assms(1)
      by (auto simp: tok_inv_def costs_ok_def)
    then show ?thesis
      using assms(3) tw 1(1) st by (auto simp: d_scan_def left_def tw_Remaining_def sys_simps)
  qed
qed

lemma left_exec:
  assumes "tok_inv s" and "tidy s" and "exec oor Tokens tbWait a s = Some s'" and "\<not> refills a"
  shows "left s' = left s - taken a s'"
proof (cases "\<exists>ticks. a = AScan ticks")
  case True
  then show ?thesis using left_scan[OF assms(1,2)] assms(3,4) by auto
next
  case False
  note defs = handler_defs disp_defs h_push_def d_pop_def d_send_def d_release_def release_def
    sys_simps ep_Stop_def tw_Stop_def tw_RecvReset_def tw_Remaining_def left_def Let_def
  have "left s' = left s" using assms(3,4) False
    by (cases a) (auto simp: defs split: phase.splits dpc.splits option.splits sum.splits prod.splits
        choice.splits list.splits if_splits)
  moreover have "taken a s' = 0" using False by (cases a) auto
  ultimately show ?thesis by simp
qed

lemma left_bounds: "tok_inv s \<Longrightarrow> 0 \<le> left s \<and> left s \<le> TokensPerWindow (cfg (endp s))"
  by (auto simp: tok_inv_def left_def tw_fine_def tw_Remaining_def)

lemma left_exec_all:
  assumes "exec_all oor Tokens tbWait as s = Some s'" and "tok_inv s" and "tidy s"
    and "list_all (\<lambda>a. \<not> refills a) as"
  shows "run_cost oor Tokens tbWait as s = left s - left s' \<and> tok_inv s'"
  using assms
proof (induction as arbitrary: s)
  case (Cons a as)
  obtain s1 where e: "exec oor Tokens tbWait a s = Some s1" "exec_all oor Tokens tbWait as s1 = Some s'"
    using Cons.prems(1) by (auto split: option.splits)
  have "left s1 = left s - taken a s1" using left_exec[OF Cons.prems(2,3) e(1)] Cons.prems(4) by simp
  then show ?case
    using Cons.IH[OF e(2) tok_exec[OF Cons.prems(2,3) e(1)] tidy_exec[OF Cons.prems(3) e(1)]] Cons.prems(4) e(1)
    by auto
qed simp

section \<open>Properties\<close>



definition demo_tok_run :: "action list" where
  "demo_tok_run = [AStart 1 0 demo_req, APush 0 1, ACount 1, ASignal 1]"

lemma demo_tok_reach:
  "reach amd64 fst (\<lambda>_ _. None) (start (demo_ep ''token_window'') (Some (4, []))) (demo_after ''token_window'' demo_tok_run)"
  by (rule reach_demo) code_simp


definition demo_release_run :: "action list" where
  "demo_release_run = [AWork, AScan [], ARelease, ACheck, ASub, ARelease]"

lemma demo_release:
  "exec_all amd64 fst (\<lambda>_ _. None) demo_release_run (demo_after ''token_window'' demo_tok_run)
   = Some (the (exec_all amd64 fst (\<lambda>_ _. None) demo_release_run (demo_after ''token_window'' demo_tok_run)))"
proof -
  have "case exec_all amd64 fst (\<lambda>_ _. None) demo_release_run (demo_after ''token_window'' demo_tok_run) of
    None \<Rightarrow> False | Some s \<Rightarrow> True" by code_simp
  then show ?thesis by (simp split: option.splits)
qed


text \<open>A reset releases the first request while its signal is still in the channel.\<close>

definition demo_block_run :: "action list" where
  "demo_block_run = demo_tok_run @
     [ATick, AReset, AScan [], ARelease, ACheck, ASub, ARelease, AStart 2 5 demo_req, APush 0 2, ACount 2]"

lemma demo_block_reach:
  "reach amd64 fst (\<lambda>_ _. None) (start (demo_ep ''token_window'') (Some (4, []))) (demo_after ''token_window'' demo_block_run)"
  by (rule reach_demo) code_simp

lemma demo_block_state:
  "hs (demo_after ''token_window'' demo_block_run) 2
     = HSignal \<lparr>tid = 2, Priority = 0, EnqueuedAt = 5, Cost = 1\<rparr> demo_req"
  "work (endp (demo_after ''token_window'' demo_block_run)) = 1"
  "QueueLen (endp (demo_after ''token_window'' demo_block_run)) = 1"
  by code_simp+

lemma demo_block_stuck:
  "case h_signal 2 (demo_after ''token_window'' demo_block_run) of None \<Rightarrow> True | Some s \<Rightarrow> False"
  by code_simp

text \<open>
  A handler of a token window endpoint can block on its signal, right after its push: releases
  triggered by a reset take tickets without taking their signals, so with room for one ticket
  the channel is still full of the first request's signal when the second one is pushed.
\<close>

lemma token_window_signal_can_block:
  "\<exists>s. reach amd64 fst (\<lambda>_ _. None) (start (demo_ep ''token_window'') (Some (4, []))) s
    \<and> hs s 2 = HSignal \<lparr>tid = 2, Priority = 0, EnqueuedAt = 5, Cost = 1\<rparr> demo_req
    \<and> h_signal 2 s = None \<and> QueueLen (endp s) = 1"
  using demo_block_reach demo_block_state(1,3) demo_block_stuck by (fastforce split: option.splits)

text \<open>
  The client leaves between the dispatcher's check of \<open>cancelled\<close> and its decrement.
\<close>

definition demo_race_run :: "action list" where
  "demo_race_run = demo_tok_run @
     [AWork, AScan [], ARelease, ACheck, ASelect TakeGone 1, AGone 1, ASub, ARelease]"

lemma demo_race_reach:
  "reach amd64 fst (\<lambda>_ _. None) (start (demo_ep ''token_window'') (Some (4, []))) (demo_after ''token_window'' demo_race_run)"
  by (rule reach_demo) code_simp

lemma demo_race_state:
  "hs (demo_after ''token_window'' demo_race_run) 1 = HDone Gone"
  "pendingTokens (endp (demo_after ''token_window'' demo_race_run)) = -1"
  "QueueLen (endp (demo_after ''token_window'' demo_race_run)) = 0"
  "disp (demo_after ''token_window'' demo_race_run) = DIdle"
  by code_simp+

text \<open>
  The pending-token counter can drift: a client that disconnects between the dispatcher's
  check and its decrement is subtracted twice, so that with no request in the system the
  counter is -1 and stays too low for every later estimate.
\<close>

lemma pending_tokens_drift:
  "\<exists>s. reach amd64 fst (\<lambda>_ _. None) (start (demo_ep ''token_window'') (Some (4, []))) s
    \<and> hs s 1 = HDone Gone \<and> QueueLen (endp s) = 0 \<and> disp s = DIdle \<and> pendingTokens (endp s) = -1"
  using demo_race_reach demo_race_state by blast

end
