(* ===== verification/GoChan.thy ===== *)
theory GoChan
  imports Prelude "HOL-Library.Sublist"
begin

text \<open>
  Buffered channels with a non-blocking send (\<^verbatim>\<open>select { case ch <- v: default: }\<close>), the one
  way in which this program passes events and log lines on: the event sink of an endpoint,
  the log sink, the fan-out and the subscriptions of the hub. The locale \<open>lossy_feed\<close> is what they
  have in common, and proves once what a reader of such a channel can rely on.
\<close>

definition offer :: "nat \<Rightarrow> 'm \<Rightarrow> 'm list \<Rightarrow> 'm list" where
  "offer capac v buf = (if length buf < capac then buf @ [v] else buf)"

text \<open>A receive takes the oldest value; \<open>None\<close> when it would block.\<close>

fun chan_recv :: "'m list \<Rightarrow> ('m \<times> 'm list) option" where
  "chan_recv [] = None"
| "chan_recv (v # vs) = Some (v, vs)"

lemma chan_recv_Some [simp]: "chan_recv s = Some (v, s') \<longleftrightarrow> s = v # s'"
  by (cases s) auto

lemma chan_recv_None [simp]: "chan_recv s = None \<longleftrightarrow> s = []"
  by (cases s) auto

section \<open>Runs of a feed\<close>

text \<open>Sends and receives in some order; the result lists what was received.\<close>

datatype 'm feed_op = Pub 'm | Take

fun feed_run ::
  "('m \<Rightarrow> 's \<Rightarrow> 's) \<Rightarrow> ('s \<Rightarrow> ('m \<times> 's) option) \<Rightarrow> 'm feed_op list \<Rightarrow> 's \<Rightarrow> 'm list \<times> 's" where
  "feed_run publish recv [] s = ([], s)"
| "feed_run publish recv (Pub m # ops) s = feed_run publish recv ops (publish m s)"
| "feed_run publish recv (Take # ops) s =
     (case recv s of
        None \<Rightarrow> feed_run publish recv ops s
      | Some (m, s') \<Rightarrow> apfst (Cons m) (feed_run publish recv ops s'))"

fun published :: "'m feed_op list \<Rightarrow> 'm list" where
  "published [] = []"
| "published (Pub m # ops) = m # published ops"
| "published (Take # ops) = published ops"

locale lossy_feed =
  fixes publish :: "'m \<Rightarrow> 's \<Rightarrow> 's"
    and recv :: "'s \<Rightarrow> ('m \<times> 's) option"
    and buffered :: "'s \<Rightarrow> 'm list"
    and live :: "'s \<Rightarrow> bool"
    and bound :: nat
  assumes publish_offer: "live s \<Longrightarrow> buffered (publish m s) = offer bound m (buffered s)"
    and publish_live: "live s \<Longrightarrow> live (publish m s)"
    and recv_None: "live s \<Longrightarrow> recv s = None \<longleftrightarrow> buffered s = []"
    and recv_Some: "live s \<Longrightarrow> recv s = Some (m, s') \<Longrightarrow> buffered s = m # buffered s' \<and> live s'"
begin

text \<open>Induction along a run, with the two outcomes of a receive.\<close>

lemma feed_induct [consumes 2, case_names start pub empty take]:
  assumes "live s" and "feed_run publish recv ops s = (rcv, s')"
    and "\<And>s. live s \<Longrightarrow> P [] s [] s"
    and "\<And>m ops s rcv s'. live s \<Longrightarrow> P ops (publish m s) rcv s' \<Longrightarrow> P (Pub m # ops) s rcv s'"
    and "\<And>ops s rcv s'. live s \<Longrightarrow> buffered s = [] \<Longrightarrow> P ops s rcv s' \<Longrightarrow> P (Take # ops) s rcv s'"
    and "\<And>m ops s s1 rcv s'. live s \<Longrightarrow> buffered s = m # buffered s1 \<Longrightarrow> P ops s1 rcv s'
      \<Longrightarrow> P (Take # ops) s (m # rcv) s'"
  shows "P ops s rcv s'"
  using assms(1,2)
proof (induction ops arbitrary: s rcv)
  case Nil
  then show ?case using assms(3) by auto
next
  case (Cons op ops)
  show ?case
  proof (cases op)
    case (Pub m)
    then show ?thesis using Cons assms(4) publish_live by auto
  next
    case Take
    show ?thesis
    proof (cases "recv s")
      case None
      then have "buffered s = []" "feed_run publish recv ops s = (rcv, s')"
        using recv_None[OF Cons.prems(1)] Cons.prems(2) Take by auto
      then show ?thesis using assms(5) Cons.IH Cons.prems(1) Take by simp
    next
      case (Some ms)
      then obtain m s1 where r: "recv s = Some (m, s1)" by (cases ms) auto
      obtain rcv1 where rcv: "feed_run publish recv ops s1 = (rcv1, s')" "rcv = m # rcv1"
        using Cons.prems(2) Take r by (cases "feed_run publish recv ops s1") auto
      then show ?thesis
        using Cons.IH[of s1 rcv1] assms(6) recv_Some[OF Cons.prems(1) r] Cons.prems(1) Take by auto
    qed
  qed
qed

text \<open>
  What was received, followed by what is still buffered, is what was buffered before followed by
  the published values, except that some of the latter may be missing: order is kept and nothing
  is duplicated or invented.
\<close>

lemma feed_subseq:
  assumes "live s" and "feed_run publish recv ops s = (rcv, s')"
  shows "\<exists>kept. rcv @ buffered s' = buffered s @ kept \<and> subseq kept (published ops)"
  using assms
proof (induction rule: feed_induct)
  case (pub m ops s rcv s')
  then obtain kept where "rcv @ buffered s' = buffered (publish m s) @ kept" "subseq kept (published ops)"
    by blast
  then show ?case
    using publish_offer[OF pub(1), of m]
    by (cases "length (buffered s) < bound") (auto simp: offer_def intro: exI[of _ "m # kept"] exI[of _ kept])
qed auto

lemma feed_lossless:
  assumes "live s" and "feed_run publish recv ops s = (rcv, s')"
    and "length (buffered s) + length (published ops) \<le> bound"
  shows "rcv @ buffered s' = buffered s @ published ops"
  using assms
  by (induction rule: feed_induct) (auto simp: publish_offer offer_def)

lemma feed_bounded:
  assumes "live s" and "feed_run publish recv ops s = (rcv, s')" and "length (buffered s) \<le> bound"
  shows "length (buffered s') \<le> bound"
  using assms
  by (induction rule: feed_induct) (auto simp: publish_offer offer_def)

end

end
