(* ===== verification/AttachHub.thy ===== *)
theory AttachHub
  imports Endpoint GoChan
begin

text \<open>
  \<^verbatim>\<open>attach/wire.go\<close>, \<^verbatim>\<open>attach/hub.go\<close>, \<^verbatim>\<open>attach/fanout.go\<close>, the connection loop of
  \<^verbatim>\<open>attach/server.go\<close> and the event sink of an endpoint: how events and log lines are
  distributed. Every channel here is lossy and bounded; the interpretations of \<open>lossy_feed\<close> say
  what its readers still get.
\<close>

section \<open>Wire messages\<close>

record endpoint_snapshot =
  snap_Path :: string
  snap_QueueDepth :: int

text \<open>
  A JSON document is represented by the Go value it was encoded from. A value that cannot be
  encoded (a config with an infinite or undefined number) has no document; the program
  ignores the error, and the empty message data is encoded as \<open>null\<close>.
\<close>

datatype json_doc =
    JNull
  | JConfig config
  | JState "endpoint_snapshot list"
  | JEvent event
  | JLog string

record wire_msg =
  w_Type :: string
  w_Data :: json_doc

definition MsgConfig :: string where "MsgConfig = ''config''"
definition MsgState :: string where "MsgState = ''state''"
definition MsgEvent :: string where "MsgEvent = ''event''"
definition MsgLog :: string where "MsgLog = ''log''"

fun finite_float :: "float64 \<Rightarrow> bool" where
  "finite_float (Fin a) = True"
| "finite_float _ = False"

definition encodable :: "config \<Rightarrow> bool" where
  "encodable c \<longleftrightarrow>
     finite_float (d_QueueTimeout (Defaults c)) \<and> finite_float (d_LatencyCompensation (Defaults c))
     \<and> list_all (\<lambda>e. finite_float (Rate e) \<and> finite_float (QueueTimeout e)
                    \<and> finite_float (LatencyCompensation e)) (Endpoints c)"

text \<open>The field \<open>Dynamic\<close> is tagged \<open>json:"-"\<close>.\<close>

definition json_config :: "config \<Rightarrow> json_doc" where
  "json_config c =
     (if encodable c
      then JConfig (c\<lparr>Endpoints := List.map (\<lambda>e. e\<lparr>Dynamic := False\<rparr>) (Endpoints c)\<rparr>) else JNull)"

section \<open>The hub\<close>

text \<open>
  A channel is a number: \<open>chans\<close> holds what is buffered, \<open>subs\<close> the registered ones. Each
  operation runs under the hub's mutex; \<open>broadcast\<close> holds the read lock, which excludes
  \<open>Subscribe\<close>. \<open>state\<close> is what \<open>stateFunc\<close> returns, if there is one.
\<close>

record hub =
  hub_cfg :: config
  subs :: "nat set"
  chans :: "nat \<Rightarrow> wire_msg list"

definition NewHub :: "config \<Rightarrow> hub" where
  "NewHub c = \<lparr>hub_cfg = c, subs = {}, chans = (\<lambda>_. [])\<rparr>"

definition hub_put :: "nat \<Rightarrow> wire_msg \<Rightarrow> hub \<Rightarrow> hub" where
  "hub_put ch m h = h\<lparr>chans := (chans h)(ch := offer 256 m (chans h ch))\<rparr>"

definition Subscribe :: "nat \<Rightarrow> endpoint_snapshot list option \<Rightarrow> hub \<Rightarrow> hub" where
  "Subscribe ch state h =
     (let h1 = h\<lparr>subs := insert ch (subs h), chans := (chans h)(ch := [])\<rparr>;
          h2 = hub_put ch \<lparr>w_Type = MsgConfig, w_Data = json_config (hub_cfg h)\<rparr> h1
      in case state of
           None \<Rightarrow> h2
         | Some snaps \<Rightarrow> hub_put ch \<lparr>w_Type = MsgState, w_Data = JState snaps\<rparr> h2)"

definition unsub :: "nat \<Rightarrow> hub \<Rightarrow> hub" where
  "unsub ch h = h\<lparr>subs := subs h - {ch}\<rparr>"

definition broadcast :: "wire_msg \<Rightarrow> hub \<Rightarrow> hub" where
  "broadcast m h =
     h\<lparr>chans := (\<lambda>ch. if ch \<in> subs h then offer 256 m (chans h ch) else chans h ch)\<rparr>"

text \<open>\<open>Run\<close> until the context is done or an input is closed (\<open>None\<close>).\<close>

datatype hub_in = InDone | InEvent "event option" | InLog "string option"

fun hub_Run :: "hub_in list \<Rightarrow> hub \<Rightarrow> hub" where
  "hub_Run [] h = h"
| "hub_Run (InDone # ins) h = h"
| "hub_Run (InEvent None # ins) h = h"
| "hub_Run (InLog None # ins) h = h"
| "hub_Run (InEvent (Some ev) # ins) h =
     hub_Run ins (broadcast \<lparr>w_Type = MsgEvent, w_Data = JEvent ev\<rparr> h)"
| "hub_Run (InLog (Some line) # ins) h =
     hub_Run ins (broadcast \<lparr>w_Type = MsgLog, w_Data = JLog line\<rparr> h)"

definition hub_recv :: "nat \<Rightarrow> hub \<Rightarrow> (wire_msg \<times> hub) option" where
  "hub_recv ch h =
     map_option (\<lambda>(m, ms). (m, h\<lparr>chans := (chans h)(ch := ms)\<rparr>)) (chan_recv (chans h ch))"

text \<open>
  One turn of \<open>serveConn\<close>: the context is done, or a message is received and written, which may
  fail. \<open>out\<close> is what has been written; the result says whether the loop goes on.
\<close>

datatype conn_in = ConnDone | ConnMsg bool

fun serveConn :: "nat \<Rightarrow> conn_in \<Rightarrow> hub \<times> wire_msg list \<Rightarrow> bool \<times> hub \<times> wire_msg list" where
  "serveConn ch ConnDone (h, out) = (False, unsub ch h, out)"
| "serveConn ch (ConnMsg ok) (h, out) =
     (case hub_recv ch h of
        None \<Rightarrow> (True, h, out)
      | Some (m, h') \<Rightarrow> if ok then (True, h', out @ [m]) else (False, unsub ch h', out))"

section \<open>The fan-out\<close>

record 'm fanout =
  out_a :: "'m list"
  out_b :: "'m list"
  fan_closed :: bool

definition Fanout2 :: "'m fanout" where
  "Fanout2 = \<lparr>out_a = [], out_b = [], fan_closed = False\<rparr>"

text \<open>One turn of the goroutine: a value from the source, or its end.\<close>

definition fan_step :: "nat \<Rightarrow> 'm option \<Rightarrow> 'm fanout \<Rightarrow> 'm fanout" where
  "fan_step bufSize v f =
     (if fan_closed f then f
      else case v of
        None \<Rightarrow> f\<lparr>fan_closed := True\<rparr>
      | Some x \<Rightarrow> f\<lparr>out_a := offer bufSize x (out_a f), out_b := offer bufSize x (out_b f)\<rparr>)"

definition fan_recv_a :: "'m fanout \<Rightarrow> ('m \<times> 'm fanout) option" where
  "fan_recv_a f = map_option (\<lambda>(m, ms). (m, f\<lparr>out_a := ms\<rparr>)) (chan_recv (out_a f))"

definition fan_recv_b :: "'m fanout \<Rightarrow> ('m \<times> 'm fanout) option" where
  "fan_recv_b f = map_option (\<lambda>(m, ms). (m, f\<lparr>out_b := ms\<rparr>)) (chan_recv (out_b f))"

section \<open>The feeds of the program\<close>

interpretation buf: lossy_feed "offer b" chan_recv "\<lambda>s. s" "\<lambda>s. True" b for b
  by unfold_locales auto

definition sink_recv :: "sink \<Rightarrow> (event \<times> sink) option" where
  "sink_recv sk =
     (case sk of
        Some (capac, evs) \<Rightarrow> map_option (\<lambda>(e, es). (e, Some (capac, es))) (chan_recv evs)
      | None \<Rightarrow> None)"

definition sink_events :: "sink \<Rightarrow> event list" where
  "sink_events sk = (case sk of Some (capac, evs) \<Rightarrow> evs | None \<Rightarrow> [])"

interpretation sinkfeed: lossy_feed emit sink_recv sink_events "\<lambda>sk. \<exists>evs. sk = Some (b, evs)" b for b
  by unfold_locales
    (auto simp: sink_recv_def sink_events_def offer_def)

interpretation hubfeed: lossy_feed broadcast "hub_recv ch" "\<lambda>h. chans h ch" "\<lambda>h. ch \<in> subs h" 256 for ch
  by unfold_locales (auto simp: broadcast_def hub_recv_def)

interpretation fan_a: lossy_feed "\<lambda>x. fan_step b (Some x)" fan_recv_a out_a "\<lambda>f. \<not> fan_closed f" b for b
  by unfold_locales (auto simp: fan_step_def fan_recv_a_def)

interpretation fan_b: lossy_feed "\<lambda>x. fan_step b (Some x)" fan_recv_b out_b "\<lambda>f. \<not> fan_closed f" b for b
  by unfold_locales (auto simp: fan_step_def fan_recv_b_def)

section \<open>Runs of the hub\<close>

text \<open>
  What happens to a hub: broadcasts, subscriptions, departures, receives. The result lists what
  the channel \<open>ch\<close> received.
\<close>

datatype hub_op =
    HBroadcast wire_msg
  | HSubscribe nat "endpoint_snapshot list option"
  | HUnsub nat
  | HRecv nat

fun hub_exec :: "nat \<Rightarrow> hub_op \<Rightarrow> hub \<Rightarrow> wire_msg list \<times> hub" where
  "hub_exec ch (HBroadcast m) h = ([], broadcast m h)"
| "hub_exec ch (HSubscribe c st) h = ([], Subscribe c st h)"
| "hub_exec ch (HUnsub c) h = ([], unsub c h)"
| "hub_exec ch (HRecv c) h =
     (case hub_recv c h of None \<Rightarrow> ([], h) | Some (m, h') \<Rightarrow> (if c = ch then [m] else [], h'))"

fun hub_run :: "nat \<Rightarrow> hub_op list \<Rightarrow> hub \<Rightarrow> wire_msg list \<times> hub" where
  "hub_run ch [] h = ([], h)"
| "hub_run ch (x # xs) h =
     (let (r, h1) = hub_exec ch x h; (rs, h2) = hub_run ch xs h1 in (r @ rs, h2))"

text \<open>The part of a run that concerns one subscriber.\<close>

fun for_chan :: "nat \<Rightarrow> hub_op list \<Rightarrow> wire_msg feed_op list" where
  "for_chan ch [] = []"
| "for_chan ch (HBroadcast m # xs) = Pub m # for_chan ch xs"
| "for_chan ch (HRecv c # xs) = (if c = ch then Take # for_chan ch xs else for_chan ch xs)"
| "for_chan ch (_ # xs) = for_chan ch xs"

fun broadcasts :: "hub_op list \<Rightarrow> wire_msg list" where
  "broadcasts [] = []"
| "broadcasts (HBroadcast m # xs) = m # broadcasts xs"
| "broadcasts (_ # xs) = broadcasts xs"

fun stays :: "nat \<Rightarrow> hub_op \<Rightarrow> bool" where
  "stays ch (HSubscribe c st) = (c \<noteq> ch)"
| "stays ch (HUnsub c) = (c \<noteq> ch)"
| "stays ch _ = True"

lemma published_for_chan: "published (for_chan ch xs) = broadcasts xs"
  by (induction ch xs rule: for_chan.induct) auto

lemma hub_run_feed:
  assumes "ch \<in> subs h" and "list_all (stays ch) xs" and "hub_run ch xs h = (r, h')"
  shows "feed_run (offer 256) chan_recv (for_chan ch xs) (chans h ch) = (r, chans h' ch) \<and> ch \<in> subs h'"
  using assms
proof (induction xs arbitrary: h r)
  case (Cons x xs)
  obtain r1 h1 where one: "hub_exec ch x h = (r1, h1)" by fastforce
  obtain rs where rest: "hub_run ch xs h1 = (rs, h')" "r = r1 @ rs"
    using Cons.prems(3) one by (auto split: prod.splits)
  have sub: "ch \<in> subs h1"
    using one Cons.prems(1,2)
    by (cases x) (auto simp: broadcast_def Subscribe_def hub_put_def unsub_def hub_recv_def Let_def split: option.splits)
  note IH = Cons.IH[OF sub _ rest(1)]
  show ?case
  proof (cases x)
    case (HRecv c)
    show ?thesis
    proof (cases "chans h c")
      case Nil
      then show ?thesis using one rest IH Cons.prems(2) HRecv by (auto simp: hub_recv_def)
    next
      case (Cons m ms)
      then show ?thesis using one rest IH Cons.prems(2) HRecv by (auto simp: hub_recv_def)
    qed
  qed (use one rest IH Cons.prems(1,2) in \<open>auto simp: broadcast_def Subscribe_def hub_put_def unsub_def Let_def
      split: option.splits\<close>)
qed auto

text \<open>The first messages of a subscription.\<close>

definition greeting :: "config \<Rightarrow> endpoint_snapshot list option \<Rightarrow> wire_msg list" where
  "greeting c state = \<lparr>w_Type = MsgConfig, w_Data = json_config c\<rparr> #
     (case state of None \<Rightarrow> [] | Some snaps \<Rightarrow> [\<lparr>w_Type = MsgState, w_Data = JState snaps\<rparr>])"

lemma Subscribe_chan:
  "chans (Subscribe ch state h) ch = greeting (hub_cfg h) state" "ch \<in> subs (Subscribe ch state h)"
  by (auto simp: Subscribe_def hub_put_def greeting_def offer_def Let_def split: option.splits)

section \<open>Runs of the fan-out\<close>

text \<open>Values from the source and receives on either output, with what each reader got.\<close>

datatype 'm fan_op = FPub 'm | FTakeA | FTakeB

fun fan_exec :: "nat \<Rightarrow> 'm fan_op \<Rightarrow> 'm fanout \<Rightarrow> 'm list \<times> 'm list \<times> 'm fanout" where
  "fan_exec b (FPub x) f = ([], [], fan_step b (Some x) f)"
| "fan_exec b FTakeA f = (case fan_recv_a f of None \<Rightarrow> ([], [], f) | Some (m, f') \<Rightarrow> ([m], [], f'))"
| "fan_exec b FTakeB f = (case fan_recv_b f of None \<Rightarrow> ([], [], f) | Some (m, f') \<Rightarrow> ([], [m], f'))"

fun fan_run :: "nat \<Rightarrow> 'm fan_op list \<Rightarrow> 'm fanout \<Rightarrow> 'm list \<times> 'm list \<times> 'm fanout" where
  "fan_run b [] f = ([], [], f)"
| "fan_run b (x # xs) f =
     (let (ra, rb, f1) = fan_exec b x f; (sa, sb, f2) = fan_run b xs f1 in (ra @ sa, rb @ sb, f2))"

fun for_a :: "'m fan_op list \<Rightarrow> 'm feed_op list" where
  "for_a [] = []"
| "for_a (FPub x # xs) = Pub x # for_a xs"
| "for_a (FTakeA # xs) = Take # for_a xs"
| "for_a (FTakeB # xs) = for_a xs"

fun for_b :: "'m fan_op list \<Rightarrow> 'm feed_op list" where
  "for_b [] = []"
| "for_b (FPub x # xs) = Pub x # for_b xs"
| "for_b (FTakeB # xs) = Take # for_b xs"
| "for_b (FTakeA # xs) = for_b xs"

text \<open>Each output is a feed of its own.\<close>

lemma fan_run_feeds:
  assumes "\<not> fan_closed f" and "fan_run b xs f = (ra, rb, f')"
  shows "feed_run (offer b) chan_recv (for_a xs) (out_a f) = (ra, out_a f')
    \<and> feed_run (offer b) chan_recv (for_b xs) (out_b f) = (rb, out_b f') \<and> \<not> fan_closed f'"
  using assms
proof (induction xs arbitrary: f ra rb)
  case (Cons x xs)
  obtain r1 s1 f1 where one: "fan_exec b x f = (r1, s1, f1)" by (metis prod_cases3)
  obtain r2 s2 where rest: "fan_run b xs f1 = (r2, s2, f')" "ra = r1 @ r2" "rb = s1 @ s2"
    using Cons.prems(2) one by (auto split: prod.splits)
  have "\<not> fan_closed f1"
    using one Cons.prems(1) by (cases x) (auto simp: fan_step_def fan_recv_a_def fan_recv_b_def split: option.splits)
  note IH = Cons.IH[OF this rest(1)]
  show ?case
  proof (cases x)
    case FTakeA
    then show ?thesis using one rest IH Cons.prems(1)
      by (cases "out_a f") (auto simp: fan_recv_a_def)
  next
    case FTakeB
    then show ?thesis using one rest IH Cons.prems(1)
      by (cases "out_b f") (auto simp: fan_recv_b_def)
  qed (use one rest IH Cons.prems(1) in \<open>auto simp: fan_step_def\<close>)
qed auto

section \<open>Properties\<close>

text \<open>
  C19. What a subscriber receives: whatever the other subscribers do, the messages it receives and
  those still buffered for it are the configuration, the state if there is one, and then
  broadcasts in their order, none twice; and all of them unless more than its buffer holds are
  outstanding.
\<close>

theorem subscriber_stream:
  assumes "list_all (stays ch) xs" and "hub_run ch xs (Subscribe ch state h) = (r, h')"
  shows "(\<exists>kept. r @ chans h' ch = greeting (hub_cfg h) state @ kept \<and> subseq kept (broadcasts xs))
    \<and> (length (broadcasts xs) \<le> 254 \<longrightarrow> r @ chans h' ch = greeting (hub_cfg h) state @ broadcasts xs)"
proof -
  note f = hub_run_feed[OF Subscribe_chan(2) assms, THEN conjunct1, unfolded Subscribe_chan(1)]
  have "length (greeting (hub_cfg h) state) \<le> 2" by (simp add: greeting_def split: option.splits)
  then show ?thesis
    using buf.feed_subseq[OF TrueI f] buf.feed_lossless[OF TrueI f] by (auto simp: published_for_chan)
qed

definition demo_hub :: hub where
  "demo_hub = Subscribe 1 None (NewHub zero_config)"

theorem subscriber_stream_witness:
  "(\<exists>kept. fst (hub_run 2 [HBroadcast \<lparr>w_Type = MsgLog, w_Data = JLog ''x''\<rparr>, HRecv 2, HRecv 1] (Subscribe 2 (Some []) demo_hub))
      @ chans (snd (hub_run 2 [HBroadcast \<lparr>w_Type = MsgLog, w_Data = JLog ''x''\<rparr>, HRecv 2, HRecv 1]
          (Subscribe 2 (Some []) demo_hub))) 2
      = greeting (hub_cfg demo_hub) (Some []) @ kept \<and> subseq kept [\<lparr>w_Type = MsgLog, w_Data = JLog ''x''\<rparr>])"
  using subscriber_stream[of 2 "[HBroadcast \<lparr>w_Type = MsgLog, w_Data = JLog ''x''\<rparr>, HRecv 2, HRecv 1]" "Some []" demo_hub,
      OF _ surjective_pairing] by simp

text \<open>
  The two outputs of the fan-out are independent: what the reader of one of them receives is
  what it would receive from a feed of its own, whenever, or whether, the other is read.
\<close>

lemma fanout_independent:
  "fst (fan_run b xs Fanout2) = fst (feed_run (offer b) chan_recv (for_a xs) [])
    \<and> fst (snd (fan_run b xs Fanout2)) = fst (feed_run (offer b) chan_recv (for_b xs) [])"
proof -
  obtain ra rb f where r: "fan_run b xs Fanout2 = (ra, rb, f)" by (metis prod_cases3)
  then show ?thesis using fan_run_feeds[of Fanout2 b xs ra rb f] by (simp add: Fanout2_def)
qed

end
