(* ===== verification/AttachClient.thy ===== *)
theory AttachClient
  imports AttachHub
begin

text \<open>
  \<^verbatim>\<open>attach/client.go\<close>: the connection of a second process to the hub. The socket is the list of
  the lines read from it, each already split and decoded as far as the envelope; what the
  decoder does with a payload of the wrong shape is written out in the \<open>as_\<close> functions.
\<close>

section \<open>Decoding\<close>

text \<open>
  A line over one megabyte ends the scan; a line that is not a message envelope fails to decode.
\<close>

datatype scan_item = TooLong | Undecodable | Line wire_msg

fun scanned :: "scan_item list \<Rightarrow> scan_item list" where
  "scanned [] = []"
| "scanned (TooLong # xs) = []"
| "scanned (x # xs) = x # scanned xs"

text \<open>
  \<open>json.Unmarshal\<close> into a struct: \<open>null\<close> changes nothing, an object sets the fields whose names it
  has (an event has no field of a config, nor the reverse), anything else is an error.
\<close>

fun as_config :: "json_doc \<Rightarrow> unit + config" where
  "as_config (JConfig c) = Inr c"
| "as_config JNull = Inr zero_config"
| "as_config (JEvent ev) = Inr zero_config"
| "as_config (JState snaps) = Inl ()"
| "as_config (JLog s) = Inl ()"

definition zero_event :: event where
  "zero_event = EventQueued '''' 0"

fun as_event :: "json_doc \<Rightarrow> unit + event" where
  "as_event (JEvent ev) = Inr ev"
| "as_event JNull = Inr zero_event"
| "as_event (JConfig c) = Inr zero_event"
| "as_event (JState snaps) = Inl ()"
| "as_event (JLog s) = Inl ()"

fun as_line :: "json_doc \<Rightarrow> unit + string" where
  "as_line (JLog s) = Inr s"
| "as_line JNull = Inr ''''"
| "as_line _ = Inl ()"

text \<open>The error is ignored here and the slice stays nil.\<close>

fun as_snaps :: "json_doc \<Rightarrow> endpoint_snapshot list" where
  "as_snaps (JState snaps) = snaps"
| "as_snaps _ = []"

section \<open>Connecting\<close>

datatype attach_error =
    DialFailed
  | NoConfigMessage
  | BadEnvelope
  | ExpectedConfig string
  | BadConfigData

definition patch_host :: "config \<Rightarrow> config" where
  "patch_host c =
     (if Host (Server c) = ''0.0.0.0'' then c\<lparr>Server := (Server c)\<lparr>Host := ''127.0.0.1''\<rparr>\<rparr> else c)"

text \<open>The configuration and what is left of the connection for the reader; \<open>None\<close>: the dial fails.\<close>

definition ConnectAddr :: "scan_item list option \<Rightarrow> attach_error + (config \<times> scan_item list)" where
  "ConnectAddr sock =
     (case sock of
        None \<Rightarrow> Inl DialFailed
      | Some items \<Rightarrow>
          (case scanned items of
             [] \<Rightarrow> Inl NoConfigMessage
           | Line m # rest \<Rightarrow>
               if w_Type m \<noteq> MsgConfig then Inl (ExpectedConfig (w_Type m))
               else (case as_config (w_Data m) of
                       Inl e \<Rightarrow> Inl BadConfigData
                     | Inr c \<Rightarrow> Inr (patch_host c, rest))
           | _ # rest \<Rightarrow> Inl BadEnvelope))"

section \<open>The reader\<close>

text \<open>
  \<open>state_sent\<close> lists everything sent on \<open>stateCh\<close>, whose capacity is one; the other two channels
  are lossy.
\<close>

record client =
  stateEmitted :: bool
  state_sent :: "endpoint_snapshot list list"
  events :: "event list"
  logs :: "string list"
  cl_closed :: bool

definition client0 :: client where
  "client0 = \<lparr>stateEmitted = False, state_sent = [], events = [], logs = [], cl_closed = False\<rparr>"

definition emit_state :: "endpoint_snapshot list \<Rightarrow> client \<Rightarrow> client" where
  "emit_state snaps c =
     (if stateEmitted c then c else c\<lparr>stateEmitted := True, state_sent := state_sent c @ [snaps]\<rparr>)"

definition cl_msg :: "wire_msg \<Rightarrow> client \<Rightarrow> client" where
  "cl_msg m c =
     (if w_Type m = MsgState then emit_state (as_snaps (w_Data m)) c
      else if w_Type m = MsgEvent then
        (let c1 = emit_state [] c
         in case as_event (w_Data m) of
              Inl e \<Rightarrow> c1
            | Inr ev \<Rightarrow> c1\<lparr>events := offer 256 ev (events c1)\<rparr>)
      else if w_Type m = MsgLog then
        (let c1 = emit_state [] c
         in case as_line (w_Data m) of
              Inl e \<Rightarrow> c1
            | Inr l \<Rightarrow> c1\<lparr>logs := offer 256 l (logs c1)\<rparr>)
      else c)"

fun cl_step :: "scan_item \<Rightarrow> client \<Rightarrow> client" where
  "cl_step (Line m) c = cl_msg m c"
| "cl_step _ c = c"

definition cl_end :: "client \<Rightarrow> client" where
  "cl_end c = (emit_state [] c)\<lparr>cl_closed := True\<rparr>"

text \<open>The whole goroutine, with readers that take nothing before it ends.\<close>

definition reader :: "scan_item list \<Rightarrow> client" where
  "reader items = cl_end (fold cl_step items client0)"

section \<open>What is sent on the state channel\<close>

text \<open>The state that precedes every event and log line, or nil.\<close>

fun first_state :: "scan_item list \<Rightarrow> endpoint_snapshot list" where
  "first_state [] = []"
| "first_state (Line m # xs) =
     (if w_Type m = MsgState then as_snaps (w_Data m)
      else if w_Type m = MsgEvent \<or> w_Type m = MsgLog then [] else first_state xs)"
| "first_state (x # xs) = first_state xs"

lemmas msg_types = MsgConfig_def MsgState_def MsgEvent_def MsgLog_def

lemma emit_state_simps [simp]:
  "events (emit_state s c) = events c" "logs (emit_state s c) = logs c"
  "stateEmitted (emit_state s c)" "cl_closed (emit_state s c) = cl_closed c"
  "state_sent (emit_state s c) = (if stateEmitted c then state_sent c else state_sent c @ [s])"
  by (auto simp: emit_state_def)

lemma cl_step_sent: "stateEmitted c \<Longrightarrow> state_sent (cl_step x c) = state_sent c \<and> stateEmitted (cl_step x c)"
  by (cases x) (auto simp: cl_msg_def Let_def split: sum.splits)

lemma cl_fold_sent:
  "stateEmitted c \<Longrightarrow> state_sent (fold cl_step items c) = state_sent c \<and> stateEmitted (fold cl_step items c)"
  by (induction items arbitrary: c) (auto simp: cl_step_sent)

lemma reader_sent:
  "\<not> stateEmitted c \<Longrightarrow> state_sent (cl_end (fold cl_step items c)) = state_sent c @ [first_state items]"
proof (induction items arbitrary: c)
  case Nil
  then show ?case by (simp add: cl_end_def)
next
  case (Cons x items)
  show ?case
  proof (cases "stateEmitted (cl_step x c)")
    case True
    then have "state_sent (cl_step x c) = state_sent c @ [first_state (x # items)]"
      using Cons.prems by (cases x) (auto simp: cl_msg_def Let_def split: sum.splits if_splits)
    then show ?thesis using cl_fold_sent[OF True] by (simp add: cl_end_def)
  next
    case False
    then have "state_sent (cl_step x c) = state_sent c \<and> first_state (x # items) = first_state items"
      using Cons.prems by (cases x) (auto simp: cl_msg_def Let_def split: sum.splits if_splits)
    then show ?thesis using Cons.IH[OF False] by simp
  qed
qed

lemma sent_at_most_one:
  "length (state_sent c) = (if stateEmitted c then 1 else 0)
   \<Longrightarrow> length (state_sent (fold cl_step items c)) = (if stateEmitted (fold cl_step items c) then 1 else 0)"
proof (induction items arbitrary: c)
  case (Cons x items)
  have "length (state_sent (cl_step x c)) = (if stateEmitted (cl_step x c) then 1 else 0)"
    using Cons.prems by (cases x) (auto simp: cl_msg_def Let_def split: sum.splits)
  then show ?case using Cons.IH by simp
qed simp

lemma reader_state: "state_sent (reader items) = [first_state items]"
  using reader_sent[of client0 items] by (simp add: reader_def client0_def)

text \<open>
  C22. The channel on which \<open>main\<close> waits for the initial state receives exactly one value, whatever
  the peer sends: the state if it comes first, and nil otherwise. No prefix of the connection
  makes the reader send twice, so its blocking send into a channel of capacity one cannot block.
\<close>

theorem state_sent_once:
  "state_sent (reader items) = [first_state items]
    \<and> length (state_sent (fold cl_step (take n items) client0)) \<le> 1"
  using reader_state[of items] sent_at_most_one[of client0 "take n items"] by (simp add: client0_def)

section \<open>The connection as a whole\<close>

fun events_of :: "wire_msg list \<Rightarrow> event list" where
  "events_of [] = []"
| "events_of (m # ms) =
     (if w_Type m = MsgEvent then (case as_event (w_Data m) of Inl e \<Rightarrow> [] | Inr ev \<Rightarrow> [ev]) else []) @ events_of ms"

fun logs_of :: "wire_msg list \<Rightarrow> string list" where
  "logs_of [] = []"
| "logs_of (m # ms) =
     (if w_Type m = MsgLog then (case as_line (w_Data m) of Inl e \<Rightarrow> [] | Inr l \<Rightarrow> [l]) else []) @ logs_of ms"

lemma cl_fold_streams:
  "length (events c) + length (events_of ms) \<le> 256 \<Longrightarrow> length (logs c) + length (logs_of ms) \<le> 256
   \<Longrightarrow> events (fold cl_step (List.map Line ms) c) = events c @ events_of ms
     \<and> logs (fold cl_step (List.map Line ms) c) = logs c @ logs_of ms"
proof (induction ms arbitrary: c)
  case (Cons m ms)
  have one: "events (cl_msg m c) = events c @ events_of [m] \<and> logs (cl_msg m c) = logs c @ logs_of [m]"
    using Cons.prems by (auto simp: cl_msg_def Let_def offer_def msg_types split: sum.splits)
  have "length (events (cl_msg m c)) + length (events_of ms) \<le> 256"
       "length (logs (cl_msg m c)) + length (logs_of ms) \<le> 256"
    using Cons.prems one by auto
  then show ?case using Cons.IH[of "cl_msg m c"] one by simp
qed simp

lemma scanned_lines [simp]: "scanned (List.map Line ms) = List.map Line ms"
  by (induction ms) auto

text \<open>The configuration as the other side sees it.\<close>

definition mirrored :: "config \<Rightarrow> config" where
  "mirrored c = patch_host (c\<lparr>Endpoints := List.map (\<lambda>e. e\<lparr>Dynamic := False\<rparr>) (Endpoints c)\<rparr>)"

lemma attach_connects:
  assumes "encodable (hub_cfg h)"
  shows "\<exists>rest. ConnectAddr (Some (List.map Line (greeting (hub_cfg h) (Some snaps) @ ms)))
        = Inr (mirrored (hub_cfg h), rest)
      \<and> state_sent (reader rest) = [snaps] \<and> rest = List.map Line (\<lparr>w_Type = MsgState, w_Data = JState snaps\<rparr> # ms)"
proof -
  let ?st = "\<lparr>w_Type = MsgState, w_Data = JState snaps\<rparr>"
  have "ConnectAddr (Some (List.map Line (greeting (hub_cfg h) (Some snaps) @ ms)))
      = Inr (mirrored (hub_cfg h), List.map Line (?st # ms))"
    using assms(1) by (simp add: ConnectAddr_def greeting_def json_config_def mirrored_def)
  moreover have "state_sent (reader (List.map Line (?st # ms))) = [snaps]"
    using reader_state[of "List.map Line (?st # ms)"] by simp
  ultimately show ?thesis by blast
qed


definition demo_attach_msgs :: "wire_msg list" where
  "demo_attach_msgs =
     [\<lparr>w_Type = MsgEvent, w_Data = JEvent (EventQueued ''/api'' 3)\<rparr>,
      \<lparr>w_Type = MsgLog, w_Data = JLog ''hello''\<rparr>]"

lemma demo_attach_streams:
  "events_of demo_attach_msgs = [EventQueued ''/api'' 3]" "logs_of demo_attach_msgs = [''hello'']"
  by (simp_all add: demo_attach_msgs_def msg_types)


section \<open>A configuration that cannot be sent\<close>

text \<open>An endpoint with the rate \<open>.inf\<close>, as the YAML decoder delivers it.\<close>

definition infinite_rate_file :: config where
  "infinite_rate_file =
     zero_config\<lparr>Endpoints := [zero_endpoint\<lparr>Path := ''/'', Rate := Inf False, Algorithm := ''sliding_window''\<rparr>]\<rparr>"

text \<open>
  A configuration with an infinite rate passes the validation, but has no JSON form; the
  error of the encoder is dropped, and an attached client sees an empty configuration: no
  endpoints, no host and port zero.
\<close>

lemma infinite_rate_hides_config:
  "\<exists>c rest. Load (\<lambda>_. Inr ()) (\<lambda>_. Inr infinite_rate_file) ''rls.yml'' = Ok c
     \<and> Rate (hd (Endpoints c)) = Inf False
     \<and> ConnectAddr (Some (List.map Line (greeting c (Some snaps)))) = Inr (zero_config, rest)"
proof -
  let ?c = "case Load (\<lambda>_. Inr ()) (\<lambda>_. Inr infinite_rate_file) ''rls.yml'' of Ok c \<Rightarrow> c | _ \<Rightarrow> zero_config"
  have l: "Load (\<lambda>_. Inr ()) (\<lambda>_. Inr infinite_rate_file) ''rls.yml'' = Ok ?c" by code_simp
  have "Rate (hd (Endpoints ?c)) = Inf False" "\<not> encodable ?c" by code_simp+
  then show ?thesis
    using l by (intro exI[of _ ?c]) (simp add: ConnectAddr_def greeting_def json_config_def patch_host_def zero_config_def)
qed

end
