(* ===== verification/Json.thy ===== *)
theory Json
  imports AttachClient
begin

text \<open>
  The JSON documents of the program, field by field as the struct tags of \<^verbatim>\<open>config/config.go\<close>,
  \<^verbatim>\<open>endpoint/events.go\<close>, \<^verbatim>\<open>endpoint/response.go\<close> and \<^verbatim>\<open>attach/wire.go\<close> say, and how
  \<open>encoding/json\<close> reads them back. A document is its tree: an object is the list of its members in
  the order they are written, a number is the integer or the float it was printed from. The last
  part shows that the documents of \<open>AttachHub\<close>, which are the encoded values themselves, are read
  as these trees are.
\<close>

section \<open>Documents\<close>

datatype json =
    JsNull
  | JsBool bool
  | JsInt int
  | JsFloat rat
  | JsStr string
  | JsArr "json list"
  | JsObj "(string \<times> json) list"

text \<open>A float that is infinite or undefined cannot be encoded, nor anything that contains one.\<close>

fun enc_float :: "float64 \<Rightarrow> json option" where
  "enc_float (Fin a) = Some (JsFloat a)"
| "enc_float _ = None"

fun members :: "(string \<times> json option) list \<Rightarrow> (string \<times> json) list option" where
  "members [] = Some []"
| "members ((k, v) # xs) =
     (case (v, members xs) of (Some j, Some ms) \<Rightarrow> Some ((k, j) # ms) | _ \<Rightarrow> None)"

definition enc_struct :: "(string \<times> json option) list \<Rightarrow> json option" where
  "enc_struct fs = map_option JsObj (members fs)"

fun elements :: "json option list \<Rightarrow> json list option" where
  "elements [] = Some []"
| "elements (v # xs) = (case (v, elements xs) of (Some j, Some js) \<Rightarrow> Some (j # js) | _ \<Rightarrow> None)"

section \<open>Encoding\<close>

definition enc_server :: "server_config \<Rightarrow> json option" where
  "enc_server s = enc_struct [(''host'', Some (JsStr (Host s))), (''port'', Some (JsInt (Port s)))]"

definition enc_defaults :: "defaults \<Rightarrow> json option" where
  "enc_defaults d = enc_struct
     [(''scheduler'', Some (JsStr (d_Scheduler d))), (''algorithm'', Some (JsStr (d_Algorithm d))),
      (''unit'', Some (JsStr (d_Unit d))), (''max_queue_size'', Some (JsInt (d_MaxQueueSize d))),
      (''overflow'', Some (JsStr (d_Overflow d))), (''queue_timeout'', enc_float (d_QueueTimeout d)),
      (''latency_compensation'', enc_float (d_LatencyCompensation d)),
      (''max_dynamic_endpoints'', Some (JsInt (MaxDynamicEndpoints d))),
      (''tokens_per_window'', Some (JsInt (d_TokensPerWindow d))),
      (''default_tokens'', Some (JsInt (d_DefaultTokens d)))]"

text \<open>\<open>Dynamic\<close> is tagged \<open>-\<close> and left out.\<close>

definition enc_endpoint :: "endpoint_config \<Rightarrow> json option" where
  "enc_endpoint e = enc_struct
     [(''path'', Some (JsStr (Path e))), (''rate'', enc_float (Rate e)), (''unit'', Some (JsStr (Unit e))),
      (''scheduler'', Some (JsStr (Scheduler e))), (''algorithm'', Some (JsStr (Algorithm e))),
      (''max_queue_size'', Some (JsInt (MaxQueueSize e))), (''overflow'', Some (JsStr (Overflow e))),
      (''burst_size'', Some (JsInt (BurstSize e))), (''window_seconds'', Some (JsInt (WindowSeconds e))),
      (''queue_timeout'', enc_float (QueueTimeout e)),
      (''latency_compensation'', enc_float (LatencyCompensation e)),
      (''tokens_per_window'', Some (JsInt (TokensPerWindow e))),
      (''default_tokens'', Some (JsInt (DefaultTokens e)))]"

definition enc_config :: "config \<Rightarrow> json option" where
  "enc_config c = enc_struct
     [(''server'', enc_server (Server c)), (''defaults'', enc_defaults (Defaults c)),
      (''endpoints'', map_option JsArr (elements (List.map enc_endpoint (Endpoints c))))]"

definition enc_snapshot :: "endpoint_snapshot \<Rightarrow> json" where
  "enc_snapshot s = JsObj [(''path'', JsStr (snap_Path s)), (''queue_depth'', JsInt (snap_QueueDepth s))]"

text \<open>An event has all the fields of the struct, the ones of other kinds at zero.\<close>

record event_struct =
  ev_Kind :: int
  ev_Path :: string
  ev_Priority :: int
  ev_WaitedMs :: int
  ev_QueueDepth :: int

fun event_fields :: "event \<Rightarrow> event_struct" where
  "event_fields (EventQueued p prio) =
     \<lparr>ev_Kind = 0, ev_Path = p, ev_Priority = prio, ev_WaitedMs = 0, ev_QueueDepth = 0\<rparr>"
| "event_fields (EventServed p waited depth) =
     \<lparr>ev_Kind = 1, ev_Path = p, ev_Priority = 0, ev_WaitedMs = waited, ev_QueueDepth = depth\<rparr>"
| "event_fields (EventRejected p) =
     \<lparr>ev_Kind = 2, ev_Path = p, ev_Priority = 0, ev_WaitedMs = 0, ev_QueueDepth = 0\<rparr>"

definition enc_event :: "event \<Rightarrow> json" where
  "enc_event ev = (let e = event_fields ev in JsObj
     [(''kind'', JsInt (ev_Kind e)), (''path'', JsStr (ev_Path e)), (''priority'', JsInt (ev_Priority e)),
      (''waited_ms'', JsInt (ev_WaitedMs e)), (''queue_depth'', JsInt (ev_QueueDepth e))])"

definition enc_msg :: "string \<Rightarrow> json \<Rightarrow> json" where
  "enc_msg ty data = JsObj [(''type'', JsStr ty), (''data'', data)]"

section \<open>Decoding\<close>

text \<open>
  \<open>json.Unmarshal\<close> into a struct goes through the members: \<open>null\<close> leaves a field as it is, a value
  of another type is an error (reported at the end), and a name that is not a field is skipped.
  A decoder takes the value so far and a document and gives the new value, or an error. What an
  error leaves in the value is not kept: every caller drops it, but for the state message, whose
  documents are written by the hub. Names are matched exactly, as all writers write them.
\<close>

type_synonym 'a decoder = "'a \<Rightarrow> json \<Rightarrow> 'a option"

fun dec_str :: "string decoder" where
  "dec_str s (JsStr t) = Some t"
| "dec_str s JsNull = Some s"
| "dec_str s _ = None"

fun dec_int :: "int decoder" where
  "dec_int n (JsInt m) = (if is_i64 m then Some m else None)"
| "dec_int n JsNull = Some n"
| "dec_int n _ = None"

text \<open>\<open>EventKind\<close> is a \<open>uint8\<close>.\<close>

fun dec_kind :: "int decoder" where
  "dec_kind n (JsInt m) = (if 0 \<le> m \<and> m < 256 then Some m else None)"
| "dec_kind n JsNull = Some n"
| "dec_kind n _ = None"

fun dec_float :: "float64 decoder" where
  "dec_float f (JsFloat a) = Some (Fin a)"
| "dec_float f (JsInt n) = (case round64 (of_int n) of Fin a \<Rightarrow> Some (Fin a) | _ \<Rightarrow> None)"
| "dec_float f JsNull = Some f"
| "dec_float f _ = None"

text \<open>A field: its name, and what a document for it makes of the struct.\<close>

type_synonym 'a fields = "(string \<times> 'a decoder) list"

fun dec_members :: "'a fields \<Rightarrow> 'a \<Rightarrow> (string \<times> json) list \<Rightarrow> 'a option" where
  "dec_members fs x [] = Some x"
| "dec_members fs x ((k, j) # ms) =
     (case map_of fs k of
        None \<Rightarrow> dec_members fs x ms
      | Some d \<Rightarrow> (case d x j of None \<Rightarrow> None | Some y \<Rightarrow> dec_members fs y ms))"

fun dec_struct :: "'a fields \<Rightarrow> 'a decoder" where
  "dec_struct fs x (JsObj ms) = dec_members fs x ms"
| "dec_struct fs x JsNull = Some x"
| "dec_struct fs x _ = None"

fun dec_all :: "'a decoder \<Rightarrow> 'a \<Rightarrow> json list \<Rightarrow> 'a list option" where
  "dec_all d z [] = Some []"
| "dec_all d z (j # js) =
     (case (d z j, dec_all d z js) of (Some x, Some xs) \<Rightarrow> Some (x # xs) | _ \<Rightarrow> None)"

text \<open>A slice is made anew, its elements from zero values; \<open>null\<close> makes it empty.\<close>

fun dec_list :: "'a decoder \<Rightarrow> 'a \<Rightarrow> 'a list decoder" where
  "dec_list d z xs (JsArr js) = dec_all d z js"
| "dec_list d z xs JsNull = Some []"
| "dec_list d z xs _ = None"

definition field :: "('a \<Rightarrow> 'f) \<Rightarrow> ('f \<Rightarrow> 'a \<Rightarrow> 'a) \<Rightarrow> 'f decoder \<Rightarrow> 'a decoder" where
  "field get put d x j = map_option (\<lambda>v. put v x) (d (get x) j)"

definition server_fields :: "server_config fields" where
  "server_fields =
     [(''host'', field Host (\<lambda>v s. s\<lparr>Host := v\<rparr>) dec_str), (''port'', field Port (\<lambda>v s. s\<lparr>Port := v\<rparr>) dec_int)]"

definition defaults_fields :: "defaults fields" where
  "defaults_fields =
     [(''scheduler'', field d_Scheduler (\<lambda>v d. d\<lparr>d_Scheduler := v\<rparr>) dec_str),
      (''algorithm'', field d_Algorithm (\<lambda>v d. d\<lparr>d_Algorithm := v\<rparr>) dec_str),
      (''unit'', field d_Unit (\<lambda>v d. d\<lparr>d_Unit := v\<rparr>) dec_str),
      (''max_queue_size'', field d_MaxQueueSize (\<lambda>v d. d\<lparr>d_MaxQueueSize := v\<rparr>) dec_int),
      (''overflow'', field d_Overflow (\<lambda>v d. d\<lparr>d_Overflow := v\<rparr>) dec_str),
      (''queue_timeout'', field d_QueueTimeout (\<lambda>v d. d\<lparr>d_QueueTimeout := v\<rparr>) dec_float),
      (''latency_compensation'', field d_LatencyCompensation (\<lambda>v d. d\<lparr>d_LatencyCompensation := v\<rparr>) dec_float),
      (''max_dynamic_endpoints'', field MaxDynamicEndpoints (\<lambda>v d. d\<lparr>MaxDynamicEndpoints := v\<rparr>) dec_int),
      (''tokens_per_window'', field d_TokensPerWindow (\<lambda>v d. d\<lparr>d_TokensPerWindow := v\<rparr>) dec_int),
      (''default_tokens'', field d_DefaultTokens (\<lambda>v d. d\<lparr>d_DefaultTokens := v\<rparr>) dec_int)]"

definition endpoint_fields :: "endpoint_config fields" where
  "endpoint_fields =
     [(''path'', field Path (\<lambda>v e. e\<lparr>Path := v\<rparr>) dec_str),
      (''rate'', field Rate (\<lambda>v e. e\<lparr>Rate := v\<rparr>) dec_float),
      (''unit'', field Unit (\<lambda>v e. e\<lparr>Unit := v\<rparr>) dec_str),
      (''scheduler'', field Scheduler (\<lambda>v e. e\<lparr>Scheduler := v\<rparr>) dec_str),
      (''algorithm'', field Algorithm (\<lambda>v e. e\<lparr>Algorithm := v\<rparr>) dec_str),
      (''max_queue_size'', field MaxQueueSize (\<lambda>v e. e\<lparr>MaxQueueSize := v\<rparr>) dec_int),
      (''overflow'', field Overflow (\<lambda>v e. e\<lparr>Overflow := v\<rparr>) dec_str),
      (''burst_size'', field BurstSize (\<lambda>v e. e\<lparr>BurstSize := v\<rparr>) dec_int),
      (''window_seconds'', field WindowSeconds (\<lambda>v e. e\<lparr>WindowSeconds := v\<rparr>) dec_int),
      (''queue_timeout'', field QueueTimeout (\<lambda>v e. e\<lparr>QueueTimeout := v\<rparr>) dec_float),
      (''latency_compensation'', field LatencyCompensation (\<lambda>v e. e\<lparr>LatencyCompensation := v\<rparr>) dec_float),
      (''tokens_per_window'', field TokensPerWindow (\<lambda>v e. e\<lparr>TokensPerWindow := v\<rparr>) dec_int),
      (''default_tokens'', field DefaultTokens (\<lambda>v e. e\<lparr>DefaultTokens := v\<rparr>) dec_int)]"

definition config_fields :: "config fields" where
  "config_fields =
     [(''server'', field Server (\<lambda>v c. c\<lparr>Server := v\<rparr>) (dec_struct server_fields)),
      (''defaults'', field Defaults (\<lambda>v c. c\<lparr>Defaults := v\<rparr>) (dec_struct defaults_fields)),
      (''endpoints'', field Endpoints (\<lambda>v c. c\<lparr>Endpoints := v\<rparr>) (dec_list (dec_struct endpoint_fields) zero_endpoint))]"

definition event_struct_fields :: "event_struct fields" where
  "event_struct_fields =
     [(''kind'', field ev_Kind (\<lambda>v e. e\<lparr>ev_Kind := v\<rparr>) dec_kind),
      (''path'', field ev_Path (\<lambda>v e. e\<lparr>ev_Path := v\<rparr>) dec_str),
      (''priority'', field ev_Priority (\<lambda>v e. e\<lparr>ev_Priority := v\<rparr>) dec_int),
      (''waited_ms'', field ev_WaitedMs (\<lambda>v e. e\<lparr>ev_WaitedMs := v\<rparr>) dec_int),
      (''queue_depth'', field ev_QueueDepth (\<lambda>v e. e\<lparr>ev_QueueDepth := v\<rparr>) dec_int)]"

definition snapshot_fields :: "endpoint_snapshot fields" where
  "snapshot_fields =
     [(''path'', field snap_Path (\<lambda>v s. s\<lparr>snap_Path := v\<rparr>) dec_str),
      (''queue_depth'', field snap_QueueDepth (\<lambda>v s. s\<lparr>snap_QueueDepth := v\<rparr>) dec_int)]"

text \<open>The envelope: its data is kept raw, and missing data is no document at all.\<close>

fun raw_member :: "string \<Rightarrow> (string \<times> json) list \<Rightarrow> json option" where
  "raw_member k [] = None"
| "raw_member k ((k', j) # ms) = (case raw_member k ms of None \<Rightarrow> if k' = k then Some j else None | Some i \<Rightarrow> Some i)"

definition dec_msg :: "json \<Rightarrow> (string \<times> json option) option" where
  "dec_msg j =
     (case j of
        JsObj ms \<Rightarrow> map_option (\<lambda>ty. (ty, raw_member ''data'' ms)) (dec_members [(''type'', dec_str)] '''' ms)
      | JsNull \<Rightarrow> Some ('''', None)
      | _ \<Rightarrow> None)"

definition unmarshal_config :: "json \<Rightarrow> config option" where
  "unmarshal_config j = dec_struct config_fields zero_config j"

definition unmarshal_event :: "json \<Rightarrow> event_struct option" where
  "unmarshal_event j = dec_struct event_struct_fields
     \<lparr>ev_Kind = 0, ev_Path = '''', ev_Priority = 0, ev_WaitedMs = 0, ev_QueueDepth = 0\<rparr> j"

definition unmarshal_line :: "json \<Rightarrow> string option" where
  "unmarshal_line j = dec_str '''' j"

definition unmarshal_snaps :: "json \<Rightarrow> endpoint_snapshot list option" where
  "unmarshal_snaps j = dec_list (dec_struct snapshot_fields) \<lparr>snap_Path = '''', snap_QueueDepth = 0\<rparr> [] j"

section \<open>The documents of the hub\<close>

fun tree_of :: "json_doc \<Rightarrow> json option" where
  "tree_of JNull = Some JsNull"
| "tree_of (JConfig c) = enc_config c"
| "tree_of (JState snaps) = Some (JsArr (List.map enc_snapshot snaps))"
| "tree_of (JEvent ev) = Some (enc_event ev)"
| "tree_of (JLog line) = Some (JsStr line)"

text \<open>What \<open>json.Marshal\<close> of a config gives the hub, whose error is ignored: no data, sent as \<open>null\<close>.\<close>

definition config_data :: "config \<Rightarrow> json" where
  "config_data c = (case enc_config c of Some j \<Rightarrow> j | None \<Rightarrow> JsNull)"

definition enc_wire :: "wire_msg \<Rightarrow> json option" where
  "enc_wire m = map_option (enc_msg (w_Type m)) (tree_of (w_Data m))"

section \<open>Ranges\<close>

text \<open>The fields of Go's \<open>int\<close> and \<open>int64\<close> hold 64 bits.\<close>

definition endpoint_i64 :: "endpoint_config \<Rightarrow> bool" where
  "endpoint_i64 e \<longleftrightarrow> is_i64 (MaxQueueSize e) \<and> is_i64 (BurstSize e) \<and> is_i64 (WindowSeconds e)
     \<and> is_i64 (TokensPerWindow e) \<and> is_i64 (DefaultTokens e)"

definition defaults_i64 :: "defaults \<Rightarrow> bool" where
  "defaults_i64 d \<longleftrightarrow> is_i64 (d_MaxQueueSize d) \<and> is_i64 (MaxDynamicEndpoints d)
     \<and> is_i64 (d_TokensPerWindow d) \<and> is_i64 (d_DefaultTokens d)"

definition config_i64 :: "config \<Rightarrow> bool" where
  "config_i64 c \<longleftrightarrow> is_i64 (Port (Server c)) \<and> defaults_i64 (Defaults c) \<and> list_all endpoint_i64 (Endpoints c)"

fun event_i64 :: "event \<Rightarrow> bool" where
  "event_i64 (EventQueued p prio) = is_i64 prio"
| "event_i64 (EventServed p waited depth) = (is_i64 waited \<and> is_i64 depth)"
| "event_i64 (EventRejected p) = True"

fun doc_i64 :: "json_doc \<Rightarrow> bool" where
  "doc_i64 (JConfig c) = config_i64 c"
| "doc_i64 (JState snaps) = list_all (\<lambda>s. is_i64 (snap_QueueDepth s)) snaps"
| "doc_i64 (JEvent ev) = event_i64 ev"
| "doc_i64 _ = True"

section \<open>What is written is read back\<close>

lemmas dec_defs = server_fields_def defaults_fields_def endpoint_fields_def config_fields_def
  event_struct_fields_def snapshot_fields_def field_def

lemma enc_float_None: "enc_float a = None \<longleftrightarrow> \<not> finite_float a"
  by (cases a) auto

lemma enc_float_Some: "finite_float a \<Longrightarrow> \<exists>j. enc_float a = Some j \<and> (\<forall>b. dec_float b j = Some a)"
  by (cases a) auto

lemma server_back:
  assumes "is_i64 (Port s)"
  shows "\<exists>j. enc_server s = Some j \<and> (\<forall>z. dec_struct server_fields z j = Some s)"
  using assms by (auto simp: enc_server_def enc_struct_def dec_defs)

lemma defaults_back:
  assumes "defaults_i64 d" and "finite_float (d_QueueTimeout d)" and "finite_float (d_LatencyCompensation d)"
  shows "\<exists>j. enc_defaults d = Some j \<and> (\<forall>z. dec_struct defaults_fields z j = Some d)"
proof -
  obtain q l where ql: "enc_float (d_QueueTimeout d) = Some q" "enc_float (d_LatencyCompensation d) = Some l"
    "\<And>b. dec_float b q = Some (d_QueueTimeout d)" "\<And>b. dec_float b l = Some (d_LatencyCompensation d)"
    using assms(2,3)[THEN enc_float_Some] by blast
  have i: "is_i64 (d_MaxQueueSize d)" "is_i64 (MaxDynamicEndpoints d)" "is_i64 (d_TokensPerWindow d)"
    "is_i64 (d_DefaultTokens d)"
    using assms(1) by (auto simp: defaults_i64_def)
  show ?thesis
    by (cases d) (use ql i in \<open>simp add: enc_defaults_def enc_struct_def dec_defs\<close>)
qed

lemma endpoint_back:
  assumes "endpoint_i64 e" and "finite_float (Rate e)" and "finite_float (QueueTimeout e)"
    and "finite_float (LatencyCompensation e)"
  shows "\<exists>j. enc_endpoint e = Some j \<and> dec_struct endpoint_fields zero_endpoint j = Some (e\<lparr>Dynamic := False\<rparr>)"
proof -
  obtain r q l where rql: "enc_float (Rate e) = Some r" "enc_float (QueueTimeout e) = Some q"
    "enc_float (LatencyCompensation e) = Some l" "\<And>b. dec_float b r = Some (Rate e)"
    "\<And>b. dec_float b q = Some (QueueTimeout e)" "\<And>b. dec_float b l = Some (LatencyCompensation e)"
    using assms(2-4)[THEN enc_float_Some] by blast
  have i: "is_i64 (MaxQueueSize e)" "is_i64 (BurstSize e)" "is_i64 (WindowSeconds e)"
    "is_i64 (TokensPerWindow e)" "is_i64 (DefaultTokens e)"
    using assms(1) by (auto simp: endpoint_i64_def)
  show ?thesis
    by (cases e) (use rql i in \<open>simp add: enc_endpoint_def enc_struct_def dec_defs zero_endpoint_def\<close>)
qed

lemma endpoints_back:
  assumes "list_all (\<lambda>e. endpoint_i64 e \<and> finite_float (Rate e) \<and> finite_float (QueueTimeout e)
             \<and> finite_float (LatencyCompensation e)) es"
  shows "\<exists>js. elements (List.map enc_endpoint es) = Some js
           \<and> dec_all (dec_struct endpoint_fields) zero_endpoint js = Some (List.map (\<lambda>e. e\<lparr>Dynamic := False\<rparr>) es)"
  using assms
proof (induction es)
  case (Cons e es)
  then obtain js where js: "elements (List.map enc_endpoint es) = Some js"
    "dec_all (dec_struct endpoint_fields) zero_endpoint js = Some (List.map (\<lambda>e. e\<lparr>Dynamic := False\<rparr>) es)"
    by auto
  obtain j where "enc_endpoint e = Some j" "dec_struct endpoint_fields zero_endpoint j = Some (e\<lparr>Dynamic := False\<rparr>)"
    using Cons.prems endpoint_back[of e] by auto
  then show ?case using js by simp
qed simp

lemma elements_None: "elements xs = None \<longleftrightarrow> None \<in> set xs"
  by (induction xs) (auto split: option.splits)

lemma members_None: "members ms = None \<longleftrightarrow> list_ex (\<lambda>(k, v). v = None) ms"
  by (induction ms) (auto split: option.splits)

lemma enc_struct_None: "enc_struct ms = None \<longleftrightarrow> list_ex (\<lambda>(k, v). v = None) ms"
  by (simp add: enc_struct_def members_None)

lemma enc_endpoint_None:
  "enc_endpoint e = None \<longleftrightarrow> \<not> (finite_float (Rate e) \<and> finite_float (QueueTimeout e) \<and> finite_float (LatencyCompensation e))"
  by (simp add: enc_endpoint_def enc_struct_None enc_float_None disj_commute disj_left_commute)

lemma enc_config_None: "enc_config c = None \<longleftrightarrow> \<not> encodable c"
proof -
  have d: "enc_defaults d = None \<longleftrightarrow> \<not> (finite_float (d_QueueTimeout d) \<and> finite_float (d_LatencyCompensation d))" for d
    by (simp add: enc_defaults_def enc_struct_None enc_float_None)
  have s: "enc_server s \<noteq> None" for s by (simp add: enc_server_def enc_struct_None)
  have e: "elements (List.map enc_endpoint es) = None \<longleftrightarrow>
      \<not> list_all (\<lambda>e. finite_float (Rate e) \<and> finite_float (QueueTimeout e) \<and> finite_float (LatencyCompensation e)) es" for es
  proof (induction es)
    case (Cons a es)
    then show ?case
      using enc_endpoint_None[of a] by (cases "enc_endpoint a"; cases "elements (List.map enc_endpoint es)") auto
  qed simp
  show ?thesis
    using s[of "Server c"]
    by (auto simp: enc_config_def enc_struct_None d e encodable_def list_all_iff simp del: not_None_eq)
qed

lemma config_back:
  assumes "config_i64 c"
  shows "(case enc_config c of None \<Rightarrow> \<not> encodable c
          | Some j \<Rightarrow> encodable c \<and> unmarshal_config j
              = Some (c\<lparr>Endpoints := List.map (\<lambda>e. e\<lparr>Dynamic := False\<rparr>) (Endpoints c)\<rparr>))"
proof (cases "encodable c")
  case True
  then have fl: "finite_float (d_QueueTimeout (Defaults c))" "finite_float (d_LatencyCompensation (Defaults c))"
    "list_all (\<lambda>e. endpoint_i64 e \<and> finite_float (Rate e) \<and> finite_float (QueueTimeout e)
       \<and> finite_float (LatencyCompensation e)) (Endpoints c)"
    using assms by (auto simp: encodable_def config_i64_def list_all_iff)
  have i: "is_i64 (Port (Server c))" "defaults_i64 (Defaults c)" using assms by (auto simp: config_i64_def)
  obtain s where s: "enc_server (Server c) = Some s" "\<And>z. dec_struct server_fields z s = Some (Server c)"
    using server_back[OF i(1)] by blast
  obtain d where d: "enc_defaults (Defaults c) = Some d" "\<And>z. dec_struct defaults_fields z d = Some (Defaults c)"
    using defaults_back[OF i(2) fl(1,2)] by blast
  obtain js where js: "elements (List.map enc_endpoint (Endpoints c)) = Some js"
    "dec_all (dec_struct endpoint_fields) zero_endpoint js = Some (List.map (\<lambda>e. e\<lparr>Dynamic := False\<rparr>) (Endpoints c))"
    using endpoints_back[OF fl(3)] by blast
  show ?thesis
    by (cases c) (use s d js True in \<open>simp add: enc_config_def enc_struct_def unmarshal_config_def
      config_fields_def field_def zero_config_def\<close>)
qed (simp add: enc_config_None[THEN iffD2])

text \<open>
  The configuration goes over the wire unharmed: whenever it can be encoded at all, reading
  the object back gives the same configuration, except that no endpoint is dynamic, which is not
  written; and it can be encoded exactly when all its floats are finite.
\<close>

lemma config_json_roundtrip:
  assumes "config_i64 c"
  shows "(case enc_config c of None \<Rightarrow> \<not> encodable c
          | Some j \<Rightarrow> encodable c \<and> unmarshal_config j
              = Some (c\<lparr>Endpoints := List.map (\<lambda>e. e\<lparr>Dynamic := False\<rparr>) (Endpoints c)\<rparr>))"
  by (rule config_back[OF assms])

section \<open>Messages\<close>

text \<open>
  The documents the hub puts in its envelopes: those with floats that can be written, without the
  dynamic flag. \<open>json_config\<close> is such a document for every configuration.
\<close>

fun written :: "json_doc \<Rightarrow> bool" where
  "written (JConfig c) \<longleftrightarrow> encodable c \<and> list_all (\<lambda>e. \<not> Dynamic e) (Endpoints c)"
| "written _ \<longleftrightarrow> True"

lemma json_config_written: "written (json_config c)"
  by (auto simp: json_config_def encodable_def list_all_iff)

lemma event_back: "event_i64 ev \<Longrightarrow> unmarshal_event (enc_event ev) = Some (event_fields ev)"
  by (cases ev) (simp_all add: unmarshal_event_def enc_event_def dec_defs is_i64_def Let_def)

lemma snaps_back:
  "list_all (\<lambda>s. is_i64 (snap_QueueDepth s)) snaps \<Longrightarrow> unmarshal_snaps (JsArr (List.map enc_snapshot snaps)) = Some snaps"
  unfolding unmarshal_snaps_def
  by (induction snaps) (auto simp: enc_snapshot_def dec_defs)

lemma static_id: "list_all (\<lambda>e. \<not> Dynamic e) es \<Longrightarrow> List.map (\<lambda>e. e\<lparr>Dynamic := False\<rparr>) es = es"
  by (induction es) (auto intro: endpoint_config.equality)

text \<open>An object none of whose members is a field changes nothing.\<close>

lemma foreign_members: "list_all (\<lambda>(k, j). map_of fs k = None) ms \<Longrightarrow> dec_members fs x ms = Some x"
  by (induction ms arbitrary: x) auto

lemma config_tree_members:
  "enc_config c = Some j \<Longrightarrow> \<exists>s d es. j = JsObj [(''server'', s), (''defaults'', d), (''endpoints'', es)]"
  by (auto simp: enc_config_def enc_struct_def split: option.splits)

text \<open>
  What a process reads out of a message, for each way it may read it: an event that is decoded is
  compared by its fields.
\<close>

definition read_config :: "json \<Rightarrow> unit + config" where
  "read_config j = (case unmarshal_config j of None \<Rightarrow> Inl () | Some c \<Rightarrow> Inr c)"

definition read_event :: "json \<Rightarrow> unit + event_struct" where
  "read_event j = (case unmarshal_event j of None \<Rightarrow> Inl () | Some e \<Rightarrow> Inr e)"

definition read_line :: "json \<Rightarrow> unit + string" where
  "read_line j = (case unmarshal_line j of None \<Rightarrow> Inl () | Some l \<Rightarrow> Inr l)"

definition read_snaps :: "json \<Rightarrow> endpoint_snapshot list" where
  "read_snaps j = (case unmarshal_snaps j of None \<Rightarrow> [] | Some s \<Rightarrow> s)"

lemma tree_total:
  "written d \<Longrightarrow> doc_i64 d \<Longrightarrow> \<exists>j. tree_of d = Some j"
  using enc_config_None by (cases d) auto

lemma reads_config:
  assumes "written d" and "doc_i64 d" and "tree_of d = Some j"
  shows "read_config j = as_config d"
proof (cases d)
  case (JConfig c)
  then show ?thesis
    using assms config_back[of c] by (auto simp: read_config_def static_id)
next
  case (JEvent ev)
  then show ?thesis
    using assms by (auto simp: read_config_def unmarshal_config_def enc_event_def Let_def config_fields_def
      foreign_members simp del: dec_members.simps)
qed (use assms in \<open>auto simp: read_config_def unmarshal_config_def\<close>)

lemma reads_event:
  assumes "written d" and "doc_i64 d" and "tree_of d = Some j"
  shows "read_event j = map_sum id event_fields (as_event d)"
proof (cases d)
  case (JConfig c)
  then obtain s d' es where "j = JsObj [(''server'', s), (''defaults'', d'), (''endpoints'', es)]"
    using assms config_tree_members[of c j] by auto
  then show ?thesis
    using JConfig by (simp add: read_event_def unmarshal_event_def event_struct_fields_def foreign_members
      zero_event_def del: dec_members.simps)
qed (use assms in \<open>auto simp: read_event_def unmarshal_event_def zero_event_def event_back[unfolded unmarshal_event_def]\<close>)

lemma reads_line:
  assumes "written d" and "doc_i64 d" and "tree_of d = Some j"
  shows "read_line j = as_line d"
proof (cases d)
  case (JConfig c)
  then show ?thesis
    using assms config_tree_members by (fastforce simp: read_line_def unmarshal_line_def)
qed (use assms in \<open>auto simp: read_line_def unmarshal_line_def enc_event_def Let_def\<close>)

lemma reads_snaps:
  assumes "written d" and "doc_i64 d" and "tree_of d = Some j"
  shows "read_snaps j = as_snaps d"
proof (cases d)
  case (JConfig c)
  then show ?thesis
    using assms config_tree_members by (fastforce simp: read_snaps_def unmarshal_snaps_def)
next
  case (JState snaps)
  then show ?thesis using assms snaps_back[of snaps] by (auto simp: read_snaps_def)
qed (use assms in \<open>auto simp: read_snaps_def unmarshal_snaps_def enc_event_def Let_def\<close>)

text \<open>
  C14. Every message of the hub survives the wire: its envelope can be encoded, is decoded to the
  same type and data, and the data read as a configuration, an event, a log line or a list of
  snapshots, whichever the reader takes it for, gives what reading the document gives.
\<close>

theorem wire_messages_read_back:
  assumes "written (w_Data m)" and "doc_i64 (w_Data m)"
  shows "\<exists>j d. enc_wire m = Some j \<and> dec_msg j = Some (w_Type m, Some d)
    \<and> read_config d = as_config (w_Data m) \<and> read_event d = map_sum id event_fields (as_event (w_Data m))
    \<and> read_line d = as_line (w_Data m) \<and> read_snaps d = as_snaps (w_Data m)"
proof -
  obtain d where d: "tree_of (w_Data m) = Some d" using tree_total[OF assms] by blast
  then have "enc_wire m = Some (enc_msg (w_Type m) d)"
    and "dec_msg (enc_msg (w_Type m) d) = Some (w_Type m, Some d)"
    by (simp_all add: enc_wire_def enc_msg_def dec_msg_def)
  then show ?thesis
    using reads_config[OF assms d] reads_event[OF assms d] reads_line[OF assms d] reads_snaps[OF assms d] by blast
qed

theorem wire_messages_read_back_witness:
  "\<exists>j d. enc_wire \<lparr>w_Type = MsgEvent, w_Data = JEvent (EventServed ''/api'' 20 3)\<rparr> = Some j
     \<and> dec_msg j = Some (MsgEvent, Some d) \<and> read_config d = Inr zero_config
     \<and> read_event d = Inr \<lparr>ev_Kind = 1, ev_Path = ''/api'', ev_Priority = 0, ev_WaitedMs = 20, ev_QueueDepth = 3\<rparr>
     \<and> read_line d = Inl () \<and> read_snaps d = []"
  using wire_messages_read_back[of "\<lparr>w_Type = MsgEvent, w_Data = JEvent (EventServed ''/api'' 20 3)\<rparr>"]
  by (simp add: is_i64_def)

text \<open>
  What an attached process is greeted with is the program's configuration: \<open>ConnectAddr\<close> reads the
  configuration message as the document of \<open>json_config\<close> says, the zero configuration when it
  cannot be encoded.
\<close>

lemma config_greeting:
  assumes "config_i64 c"
  shows "read_config (config_data c) = as_config (json_config c)"
proof (cases "encodable c")
  case True
  moreover obtain j where "enc_config c = Some j" using True enc_config_None by fastforce
  ultimately show ?thesis
    using config_back[OF assms] by (simp add: read_config_def config_data_def json_config_def)
next
  case False
  then have "enc_config c = None" by (simp add: enc_config_None)
  with False show ?thesis
    by (simp add: read_config_def config_data_def json_config_def unmarshal_config_def)
qed

end
