(* ===== verification/EndpointType.thy ===== *)
theory EndpointType
  imports EndpointTok Json
begin

text \<open>
  The types of the endpoint's data: the model keeps Go's \<open>int\<close> and \<open>int64\<close> as integers and writes the
  wrap-around where the code can overflow. Here every integer an endpoint holds, hands to a
  client or emits is shown to be one of 64 bits, in every run whose clock readings are times
  of Go's clock.
\<close>

section \<open>Well-typed states\<close>

definition clock_time :: "int \<Rightarrow> bool" where
  "clock_time n \<longleftrightarrow> 0 \<le> n \<and> n < 2 ^ 63"

definition ticket_i64 :: "ticket \<Rightarrow> bool" where
  "ticket_i64 t \<longleftrightarrow> is_i64 (Priority t) \<and> is_i64 (Cost t) \<and> clock_time (EnqueuedAt t)"

definition window_i64 :: "token_window \<Rightarrow> bool" where
  "window_i64 tw \<longleftrightarrow> is_i64 (capacity tw) \<and> is_i64 (remaining tw) \<and> is_i64 (windowSize tw) \<and> resetCh tw \<le> 1"

definition opt_i64 :: "int option \<Rightarrow> bool" where
  "opt_i64 v \<longleftrightarrow> (case v of None \<Rightarrow> True | Some n \<Rightarrow> is_i64 n)"

definition response_i64 :: "response \<Rightarrow> bool" where
  "response_i64 resp \<longleftrightarrow> is_i64 (QueuedForMs resp) \<and> is_i64 (QueueDepth resp) \<and> is_i64 (r_MaxQueueSize resp)
     \<and> is_i64 (r_BurstSize resp) \<and> is_i64 (r_WindowSeconds resp) \<and> opt_i64 (NetworkLatencyMs resp)
     \<and> opt_i64 (TokensConsumed resp) \<and> opt_i64 (TokensRemaining resp) \<and> opt_i64 (WindowCapacity resp)
     \<and> opt_i64 (WaitingForNextWindow resp)"

definition has_ticket :: "'tb sys \<Rightarrow> ticket \<Rightarrow> bool" where
  "has_ticket s t \<longleftrightarrow> t \<in># unreleased s \<or> (\<exists>i. ticket_of (hs s i) = Some t)"

definition sys_i64 :: "'tb sys \<Rightarrow> bool" where
  "sys_i64 s \<longleftrightarrow>
     endpoint_i64 (cfg (endp s)) \<and> is_i64 (pendingTokens (endp s)) \<and> is_i64 (int (QueueLen (endp s)))
     \<and> (\<forall>tw. tokenWindow (endp s) = Some tw \<longrightarrow> window_i64 tw) \<and> (\<forall>t. has_ticket s t \<longrightarrow> ticket_i64 t)
     \<and> (\<forall>i resp. hs s i = HDone (Served resp) \<longrightarrow> response_i64 resp) \<and> list_all event_i64 (sink_events (evs s))"

text \<open>The clock is read when a request arrives and when it is answered.\<close>

fun on_time :: "action \<Rightarrow> bool" where
  "on_time (AStart i now r) = clock_time now"
| "on_time (ARespond now now_ms i) = clock_time now"
| "on_time _ = True"

section \<open>Tickets\<close>

lemma Atoi_i64: "Atoi s = Some n \<Longrightarrow> is_i64 n"
  by (auto simp: Atoi_def Let_def split: list.splits option.splits if_splits)

lemma admitted_i64:
  assumes "admit oor Tokens ep i now r = Inr t" and "clock_time now" and "endpoint_i64 (cfg ep)"
  shows "ticket_i64 t"
proof -
  have p: "is_i64 (parsePriority r)"
    by (auto simp: parsePriority_def Atoi_i64 is_i64_def[of 0] split: option.splits)
  have c: "is_i64 (token_cost (cfg ep) r)"
    using assms(3) by (auto simp: token_cost_def endpoint_i64_def Atoi_i64 split: option.splits)
  have "make_ticket ep i now r = Inr t" using assms(1) by (rule admit_Inr)
  then show ?thesis
    using p c assms(2) by (auto simp: make_ticket_def ticket_i64_def is_i64_def[of 0] Let_def split: option.splits if_splits)
qed

text \<open>A step has no ticket it did not have, but for the one of an admitted request.\<close>

lemma push_tickets:
  assumes "tidy s" and "h_push g i s = Some s'" and "has_ticket s' t"
  shows "has_ticket s t"
proof -
  have wf: "q_wf (tickets (endp s))" using assms(1) by (simp add: tidy_def)
  obtain u r where h: "hs s i = HPush u r" using assms(2) by (auto simp: h_push_def split: phase.splits)
  then have u: "has_ticket s u" by (auto simp: has_ticket_def intro: exI[of _ i])
  show ?thesis
    by (cases rule: q.push_cases[OF wf, of g u])
      (use assms(2,3) h u in \<open>auto simp: h_push_def sys_simps has_ticket_def unreleased_def split: if_splits\<close>)
qed

lemma pop_tickets:
  assumes "tidy s" and "d_pop x s = Some s'" and "has_ticket s' t"
  shows "has_ticket s t"
proof -
  have wf: "q_wf (tickets (endp s))" using assms(1) by (simp add: tidy_def)
  have d: "disp s = DPop" using assms(2) by (auto simp: d_pop_def split: dpc.splits)
  show ?thesis
    by (cases rule: q.pop_cases[OF wf, of x])
      (use assms(2,3) d in \<open>auto simp: d_pop_def sys_simps has_ticket_def unreleased_def\<close>)
qed

lemma scan_tickets:
  assumes "tidy s" and "d_scan ticks s = Some s'" and "has_ticket s' t"
  shows "has_ticket s t"
proof -
  have wf: "q_wf (tickets (endp s))" using assms(1) by (simp add: tidy_def)
  obtain tw where d: "disp s = DScan" "tokenWindow (endp s) = Some tw"
    using assms(2) by (auto simp: d_scan_def split: dpc.splits option.splits)
  show ?thesis
  proof (cases rule: q.popwhere_cases[OF wf, of consume_test "(ticks, tw)"])
    case (1 ts m rest st q')
    then show ?thesis
      using assms(2,3) d by (cases st) (auto simp: d_scan_def sys_simps has_ticket_def unreleased_def)
  qed
qed

lemma exec_tickets:
  assumes "tidy s" and "exec oor Tokens tbWait a s = Some s'" and "has_ticket s' t"
  shows "has_ticket s t \<or> (\<exists>i now r. a = AStart i now r \<and> admit oor Tokens (endp s) i now r = Inr t)"
proof -
  note defs = handler_defs disp_defs d_send_def d_release_def release_def sys_simps ep_Stop_def Let_def
    has_ticket_def unreleased_def
  show ?thesis
    using assms(2,3)
  proof (cases a)
    case (APush g i)
    then show ?thesis using push_tickets[OF assms(1) _ assms(3)] assms(2) by simp
  next
    case (APop x)
    then show ?thesis using pop_tickets[OF assms(1) _ assms(3)] assms(2) by simp
  next
    case (AScan ticks)
    then show ?thesis using scan_tickets[OF assms(1) _ assms(3)] assms(2) by simp
  qed (auto simp: defs split: phase.splits dpc.splits option.splits sum.splits prod.splits choice.splits
      list.splits if_splits)
qed

section \<open>Counters\<close>

lemma consume_i64: "window_i64 tw \<Longrightarrow> consume_test (ticks, tw) t = (ok, ticks', tw') \<Longrightarrow> window_i64 tw'"
  by (auto simp: consume_test_def TryConsume_def tw_tick_def tw_Reset_def window_i64_def Let_def
      split: prod.splits if_splits)

lemma scan_i64:
  "sfilter consume_test (ticks, tw) ts = (m, rest, (ticks', tw')) \<Longrightarrow> window_i64 tw \<Longrightarrow> window_i64 tw'"
proof (induction ts arbitrary: ticks tw m rest)
  case (Cons t ts)
  obtain ok tk1 tw1 where c: "consume_test (ticks, tw) t = (ok, tk1, tw1)" by (cases "consume_test (ticks, tw) t") auto
  then have "window_i64 tw1" using consume_i64 Cons.prems(2) by blast
  then show ?case using Cons.prems(1) c Cons.IH[of tk1 tw1] by (auto split: prod.splits if_splits)
qed simp

lemma exec_window:
  assumes "tidy s" and "exec oor Tokens tbWait a s = Some s'" and "\<forall>tw. tokenWindow (endp s) = Some tw \<longrightarrow> window_i64 tw"
    and "tokenWindow (endp s') = Some tw"
  shows "window_i64 tw"
proof -
  note defs = handler_defs h_push_def disp_defs d_pop_def d_send_def d_release_def release_def sys_simps ep_Stop_def Let_def
    tw_tick_def tw_Reset_def tw_RecvReset_def tw_Stop_def
  show ?thesis
    using assms(2-4)
  proof (cases a)
    case (AScan ticks)
    have wf: "q_wf (tickets (endp s))" using assms(1) by (simp add: tidy_def)
    obtain tw0 where d: "disp s = DScan" "tokenWindow (endp s) = Some tw0"
      using assms(2) AScan by (auto simp: d_scan_def split: dpc.splits option.splits)
    show ?thesis
    proof (cases rule: q.popwhere_cases[OF wf, of consume_test "(ticks, tw0)"])
      case (1 ts m rest st q')
      then show ?thesis
        using assms(2-4) AScan d scan_i64[of ticks tw0 ts m rest]
        by (cases st) (auto simp: d_scan_def sys_simps)
    qed
  qed (auto simp: defs window_i64_def split: phase.splits dpc.splits option.splits sum.splits prod.splits choice.splits
      list.splits if_splits)
qed

lemma exec_pending:
  assumes "exec oor Tokens tbWait a s = Some s'" and "is_i64 (pendingTokens (endp s))"
  shows "is_i64 (pendingTokens (endp s'))"
proof -
  note defs = handler_defs h_push_def disp_defs d_pop_def d_send_def d_scan_def d_release_def release_def sys_simps
    ep_Stop_def Let_def
  show ?thesis
    using assms
    by (cases a) (auto simp: defs split: phase.splits dpc.splits option.splits sum.splits prod.splits choice.splits
      list.splits if_splits)
qed

section \<open>Answers\<close>

lemma Milliseconds_i64: "clock_time a \<Longrightarrow> clock_time b \<Longrightarrow> is_i64 (Milliseconds (a - b))"
proof -
  assume ab: "clock_time a" "clock_time b"
  have "\<bar>go_div d 1000000\<bar> \<le> \<bar>d\<bar>" for d :: int
    using zdiv_mono2[of "\<bar>d\<bar>" 1 1000000] by (cases "d = 0") (simp_all add: go_div_def abs_mult)
  from this[of "a - b"] show ?thesis
    using ab by (auto simp: Milliseconds_def clock_time_def is_i64_def)
qed

lemma network_latency_i64: "opt_i64 (network_latency now_ms r)"
  by (auto simp: network_latency_def opt_i64_def is_i64_def[of 0] Let_def split: option.splits)

lemma respond_i64:
  assumes "endpoint_i64 (cfg ep)" and "is_i64 (int (QueueLen ep))" and "\<forall>tw. tokenWindow ep = Some tw \<longrightarrow> window_i64 tw"
    and "ticket_i64 t" and "clock_time now"
  shows "response_i64 (fst (respond now now_ms ep t r))" "event_i64 (snd (respond now now_ms ep t r))"
proof -
  have m: "is_i64 (Milliseconds (now - EnqueuedAt t))" using assms(4,5) by (simp add: Milliseconds_i64 ticket_i64_def)
  note defs = respond_def buildResponse_def response_i64_def opt_i64_def tw_Capacity_def tw_Remaining_def
    window_i64_def ticket_i64_def endpoint_i64_def Let_def
  show "response_i64 (fst (respond now now_ms ep t r))" "event_i64 (snd (respond now now_ms ep t r))"
    using assms(1-4) m network_latency_i64[of now_ms r]
    by (cases "tokenWindow ep"; simp add: defs)+
qed

lemma exec_answers:
  assumes "exec oor Tokens tbWait a s = Some s'" and "hs s' i = HDone (Served resp)"
  shows "hs s i = HDone (Served resp) \<or>
    (\<exists>now ms t r. a = ARespond now ms i \<and> has_ticket s t \<and> resp = fst (respond now ms (endp s) t r))"
proof -
  note defs = disp_defs d_pop_def d_send_def d_scan_def d_release_def release_def sys_simps ep_Stop_def Let_def
  show ?thesis
    using assms
  proof (cases a)
    case (ARespond now ms j)
    then show ?thesis
      using assms
      by (auto simp: h_respond_def sys_simps has_ticket_def split: phase.splits prod.splits if_splits;
          metis fst_conv ticket_of.simps(7))
  qed (auto simp: handler_defs h_push_def defs split: phase.splits dpc.splits option.splits sum.splits prod.splits
        choice.splits list.splits if_splits)
qed

lemma exec_emits:
  assumes "exec oor Tokens tbWait a s = Some s'"
  shows "evs s' = evs s \<or> (\<exists>e. evs s' = emit e (evs s) \<and>
    ((\<exists>p. e = EventRejected p) \<or> (\<exists>p t. e = EventQueued p (Priority t) \<and> has_ticket s t)
     \<or> (\<exists>now ms i t r. a = ARespond now ms i \<and> has_ticket s t \<and> e = snd (respond now ms (endp s) t r))))"
proof -
  note defs = disp_defs d_pop_def d_send_def d_scan_def d_release_def release_def sys_simps ep_Stop_def Let_def
  show ?thesis
    using assms
  proof (cases a)
    case (ARespond now ms j)
    then obtain t r where h: "hs s j = HReleased t r" using assms by (auto simp: h_respond_def split: phase.splits)
    have "has_ticket s t" using h by (auto simp: has_ticket_def intro: exI[of _ j])
    moreover have "evs s' = emit (snd (respond now ms (endp s) t r)) (evs s)"
      using assms ARespond h by (auto simp: h_respond_def sys_simps split: prod.splits)
    ultimately show ?thesis using ARespond by blast
  next
    case (ACount i)
    then obtain t r where h: "hs s i = HPushed t r" using assms by (auto simp: h_count_def split: phase.splits)
    have "has_ticket s t" using h by (auto simp: has_ticket_def intro: exI[of _ i])
    moreover have "evs s' = emit (EventQueued (Path (cfg (endp s))) (Priority t)) (evs s)"
      using assms ACount h by (auto simp: h_count_def sys_simps Let_def split: if_splits)
    ultimately show ?thesis by blast
  qed (auto simp: handler_defs h_push_def defs split: phase.splits dpc.splits option.splits sum.splits prod.splits
        choice.splits list.splits if_splits)
qed

section \<open>Every step is well typed\<close>

lemma emit_i64: "list_all event_i64 (sink_events sk) \<Longrightarrow> event_i64 e \<Longrightarrow> list_all event_i64 (sink_events (emit e sk))"
  by (cases sk) (auto simp: sink_events_def)

lemma tidy_QueueLen: "tidy s \<Longrightarrow> is_i64 (work_cap (endp s)) \<Longrightarrow> is_i64 (int (QueueLen (endp s)))"
  by (auto simp: tidy_def QueueLen_def is_i64_def)

lemma exec_i64:
  assumes "exec oor Tokens tbWait a s = Some s'" and "on_time a" and "sys_i64 s" and "tidy s"
    and "is_i64 (work_cap (endp s))"
  shows "sys_i64 s'"
proof -
  have c: "cfg (endp s') = cfg (endp s)" "work_cap (endp s') = work_cap (endp s)" using exec_cfg[OF assms(1)] by auto
  have old: "endpoint_i64 (cfg (endp s))" "is_i64 (int (QueueLen (endp s)))" "has_ticket s t \<Longrightarrow> ticket_i64 t"
    "\<forall>tw. tokenWindow (endp s) = Some tw \<longrightarrow> window_i64 tw" for t
    using assms(3) by (auto simp: sys_i64_def)
  have q: "is_i64 (int (QueueLen (endp s')))"
    using tidy_QueueLen[OF tidy_exec[OF assms(4,1)]] assms(5) c(2) by simp
  have t: "ticket_i64 t" if "has_ticket s' t" for t
    using exec_tickets[OF assms(4,1) that] old admitted_i64 assms(2) by auto
  have r: "response_i64 resp" if "hs s' i = HDone (Served resp)" for i resp
    using exec_answers[OF assms(1) that] assms(2,3) respond_i64(1)[OF old(1,2,4)] old(3) by (auto simp: sys_i64_def)
  have e: "list_all event_i64 (sink_events (evs s'))"
    using exec_emits[OF assms(1)]
  proof (elim disjE exE conjE)
    assume "evs s' = evs s"
    then show ?thesis using assms(3) by (simp add: sys_i64_def)
  next
    fix e p assume "evs s' = emit e (evs s)" "e = EventRejected p"
    then show ?thesis using assms(3) by (simp add: sys_i64_def emit_i64)
  next
    fix e p t assume "evs s' = emit e (evs s)" "e = EventQueued p (Priority t)" "has_ticket s t"
    then show ?thesis using assms(3) old(3)[of t] by (simp add: sys_i64_def emit_i64 ticket_i64_def)
  next
    fix e now ms i t r
    assume "evs s' = emit e (evs s)" "a = ARespond now ms i" "has_ticket s t" "e = snd (respond now ms (endp s) t r)"
    then show ?thesis
      using assms(2,3) respond_i64(2)[OF old(1,2,4)] old(3) by (simp add: sys_i64_def emit_i64)
  qed
  show ?thesis
    using c q t r e old(1) exec_window[OF assms(4,1) old(4)] exec_pending[OF assms(1)] assms(3)
    unfolding sys_i64_def by auto
qed

lemma start_i64:
  assumes "endpoint_New oor NewLimiter now c = Ok ep" and "endpoint_i64 c" and "list_all event_i64 (sink_events sk)"
  shows "sys_i64 (start ep sk)"
proof -
  note ok = endpoint_New_Ok[OF assms(1)]
  have "QueueLen ep = 0" using ok(3) by (simp add: QueueLen_def)
  moreover have "window_i64 tw" if "tokenWindow ep = Some tw" for tw
    using ok(13)[OF that] assms(2) by (simp add: window_i64_def endpoint_i64_def)
  ultimately show ?thesis
    using ok(1,5,9) assms(2,3)
    by (auto simp: sys_i64_def start_def has_ticket_def unreleased_def is_i64_def[of 0])
qed

lemma exec_all_i64:
  assumes "exec_all oor Tokens tbWait as s = Some s'" and "list_all on_time as" and "sys_i64 s" and "tidy s"
    and "is_i64 (work_cap (endp s))"
  shows "sys_i64 s'"
  using assms
proof (induction as arbitrary: s)
  case (Cons a as)
  then obtain s1 where s1: "exec oor Tokens tbWait a s = Some s1" "exec_all oor Tokens tbWait as s1 = Some s'"
    by (auto split: option.splits)
  have "sys_i64 s1" using exec_i64[OF s1(1)] Cons.prems by simp
  then show ?case
    using Cons.IH[OF s1(2)] Cons.prems tidy_exec[OF _ s1(1)] exec_cfg[OF s1(1)] by simp
qed simp



end
