(* ===== verification/GoPath.thy ===== *)
theory GoPath
  imports Prelude
begin

text \<open>
  What the program uses of Go's package \<open>path\<close>: \<open>Split\<close>, \<open>Clean\<close> and \<open>Dir\<close>. \<open>Clean\<close> is the
  package's one pass over the path, seen segment by segment: empty and dot segments are
  skipped, a dot-dot removes the previous segment or is kept when there is none and the path
  is relative.
\<close>

fun split_slash :: "string \<Rightarrow> string list" where
  "split_slash [] = [[]]"
| "split_slash (c # cs) =
     (if c = CHR ''/'' then [] # split_slash cs
      else case split_slash cs of [] \<Rightarrow> [[c]] | s # ss \<Rightarrow> (c # s) # ss)"

fun join_slash :: "string list \<Rightarrow> string" where
  "join_slash [] = []"
| "join_slash [s] = s"
| "join_slash (s # t # ss) = s @ CHR ''/'' # join_slash (t # ss)"

text \<open>The kept segments are a stack, the last one first.\<close>

definition clean_seg :: "bool \<Rightarrow> string list \<Rightarrow> string \<Rightarrow> string list" where
  "clean_seg rooted st s =
     (if s = '''' \<or> s = ''.'' then st
      else if s = ''..'' then
        (case st of
           [] \<Rightarrow> if rooted then [] else [''..'']
         | t # st' \<Rightarrow> if t = ''..'' then ''..'' # st else st')
      else s # st)"

definition path_Clean :: "string \<Rightarrow> string" where
  "path_Clean p =
     (if p = '''' then ''.''
      else let rooted = (hd p = CHR ''/'');
               body = join_slash (rev (foldl (clean_seg rooted) [] (split_slash p)))
           in if rooted then CHR ''/'' # body else if body = '''' then ''.'' else body)"

text \<open>\<open>Split\<close> cuts after the last slash; \<open>Dir\<close> cleans the first part.\<close>

definition path_dir_part :: "string \<Rightarrow> string" where
  "path_dir_part p = rev (dropWhile (\<lambda>c. c \<noteq> CHR ''/'') (rev p))"

definition path_Dir :: "string \<Rightarrow> string" where
  "path_Dir p = path_Clean (path_dir_part p)"

section \<open>Lengths\<close>

lemma split_slash_nonempty [simp]: "split_slash p \<noteq> []"
  by (induction p) (auto split: list.splits)

lemma split_slash_length: "sum_list (List.map (\<lambda>s. length s + 1) (split_slash p)) = length p + 1"
proof (induction p)
  case (Cons c cs)
  then show ?case by (cases "split_slash cs") auto
qed simp

lemma split_slash_snoc: "split_slash (p @ ''/'') = split_slash p @ ['''']"
proof (induction p)
  case (Cons c cs)
  then show ?case by (cases "split_slash cs") auto
qed simp

lemma join_slash_length:
  "ss \<noteq> [] \<Longrightarrow> length (join_slash ss) + 1 = sum_list (List.map (\<lambda>s. length s + 1) ss)"
  by (induction ss rule: join_slash.induct) auto

lemma clean_seg_length:
  "sum_list (List.map (\<lambda>s. length s + 1) (clean_seg rooted st s))
     \<le> sum_list (List.map (\<lambda>s. length s + 1) st) + (if s = '''' then 0 else length s + 1)"
  by (auto simp: clean_seg_def split: list.splits)

lemma clean_fold_length:
  "sum_list (List.map (\<lambda>s. length s + 1) (foldl (clean_seg rooted) st ss))
     \<le> sum_list (List.map (\<lambda>s. length s + 1) st)
       + sum_list (List.map (\<lambda>s. if s = '''' then 0 else length s + 1) ss)"
proof (induction ss arbitrary: st)
  case (Cons s ss)
  show ?case using Cons.IH[of "clean_seg rooted st s"] clean_seg_length[of rooted st s] by simp
qed simp

lemma seg_sum_le:
  "sum_list (List.map (\<lambda>s. if s = '''' then 0 else length s + 1) ss)
     \<le> sum_list (List.map (\<lambda>s. length s + 1) ss)"
  by (induction ss) auto

lemma path_Clean_length: "p \<noteq> '''' \<Longrightarrow> length (path_Clean p) \<le> length p"
proof -
  assume p: "p \<noteq> ''''"
  let ?st = "foldl (clean_seg (hd p = CHR ''/'')) [] (split_slash p)"
  have len: "length (join_slash (rev ?st)) + 1 = sum_list (List.map (\<lambda>s. length s + 1) ?st)" if "?st \<noteq> []"
    using join_slash_length[of "rev ?st"] that by (simp add: sum_list_rev rev_map[symmetric])
  have le: "sum_list (List.map (\<lambda>s. length s + 1) ?st)
      \<le> sum_list (List.map (\<lambda>s. if s = '''' then 0 else length s + 1) (split_slash p))"
    using clean_fold_length[of "hd p = CHR ''/''" "[]" "split_slash p"] by simp
  have tot: "sum_list (List.map (\<lambda>s. if s = '''' then 0 else length s + 1) (split_slash p))
      + (if hd p = CHR ''/'' then 1 else 0) \<le> length p + 1"
  proof (cases "hd p = CHR ''/''")
    case True
    then obtain cs where "p = CHR ''/'' # cs" using p by (cases p) auto
    then show ?thesis using seg_sum_le[of "split_slash cs"] split_slash_length[of cs] by simp
  next
    case False
    then show ?thesis using seg_sum_le[of "split_slash p"] split_slash_length[of p] by simp
  qed
  have "1 \<le> length p" using p by (cases p) auto
  then show ?thesis
    using p len le tot by (cases "?st = []") (auto simp: path_Clean_def Let_def split: if_splits)
qed

lemma path_Clean_snoc: "p \<noteq> '''' \<Longrightarrow> path_Clean (p @ ''/'') = path_Clean p"
  by (simp add: path_Clean_def split_slash_snoc clean_seg_def)

lemma path_dir_part_cases:
  obtains "path_dir_part p = ''''" | s rest where "path_dir_part p = s @ ''/''" "p = s @ ''/'' @ rest"
proof (cases "dropWhile (\<lambda>c. c \<noteq> CHR ''/'') (rev p)")
  case Nil
  then show ?thesis using that(1) by (simp add: path_dir_part_def)
next
  case (Cons c cs)
  then have c: "c = CHR ''/''" using hd_dropWhile[of "\<lambda>c. c \<noteq> CHR ''/''" "rev p"] by simp
  then have d: "path_dir_part p = rev cs @ ''/''" using Cons by (simp add: path_dir_part_def)
  have "rev p = takeWhile (\<lambda>c. c \<noteq> CHR ''/'') (rev p) @ c # cs"
    using takeWhile_dropWhile_id[of "\<lambda>c. c \<noteq> CHR ''/''" "rev p"] Cons by simp
  then have "p = rev cs @ [c] @ rev (takeWhile (\<lambda>c. c \<noteq> CHR ''/'') (rev p))"
    by (metis append.assoc rev.simps(2) rev_append rev_rev_ident)
  then show ?thesis using that(2)[OF d] c by auto
qed

text \<open>Each step up the tree shortens the path, except where the walk stops.\<close>

lemma path_Dir_shorter:
  assumes "path_Dir p \<noteq> ''/''" and "path_Dir p \<noteq> ''.''"
  shows "length (path_Dir p) < length p"
proof (cases rule: path_dir_part_cases[of p])
  case 1
  then have "path_Dir p = ''.''" by (simp add: path_Dir_def path_Clean_def)
  then show ?thesis using assms by simp
next
  case (2 s rest)
  have "s \<noteq> ''''"
  proof
    assume "s = ''''"
    then have "path_Dir p = ''/''" using 2 by (simp add: path_Dir_def path_Clean_def clean_seg_def)
    then show False using assms by simp
  qed
  then show ?thesis
    using path_Clean_snoc[of s] path_Clean_length[of s] 2 by (simp add: path_Dir_def)
qed

end
