(* ===== verification/Registry.thy ===== *)
theory Registry
  imports Endpoint GoPath "HOL-Library.AList" "HOL-Library.List_Lexorder" "HOL-Library.Char_ord"
begin

text \<open>
  \<^verbatim>\<open>endpoint/registry.go\<close>: the map from paths to endpoints, the walk up the path tree, the
  creation of dynamic endpoints and the snapshots. The Go map is an association list with
  distinct keys; an endpoint is referred to by its key. Everything under the write lock is one
  step.
\<close>

section \<open>State and operations\<close>

record 'tb registry =
  eps :: "(string \<times> 'tb endpoint) list"
  maxDynamic :: int
  dynamicCount :: int

record endpoint_info =
  Config :: endpoint_config
  i_QueueLen :: nat

definition WithMaxDynamic :: "int \<Rightarrow> 'tb registry \<Rightarrow> 'tb registry" where
  "WithMaxDynamic n r = r\<lparr>maxDynamic := n\<rparr>"

definition StopAll :: "'tb registry \<Rightarrow> 'tb registry" where
  "StopAll r = r\<lparr>eps := List.map (apsnd ep_Stop) (eps r)\<rparr>"

text \<open>The loop of the constructor. On an error the endpoints made so far are stopped and dropped.\<close>

fun add_all ::
  "(float64 \<Rightarrow> int) \<Rightarrow> (float64 \<Rightarrow> int \<Rightarrow> 'tb) \<Rightarrow> int \<Rightarrow> endpoint_config list
   \<Rightarrow> 'tb registry \<Rightarrow> 'tb registry outcome" where
  "add_all oor NewLimiter now [] r = Ok r"
| "add_all oor NewLimiter now (c # cs) r =
     (case endpoint_New oor NewLimiter now c of
        Ok ep \<Rightarrow> add_all oor NewLimiter now cs (r\<lparr>eps := AList.update (Path c) ep (eps r)\<rparr>)
      | Err e \<Rightarrow> Err e
      | Panic m \<Rightarrow> Panic m)"

definition NewRegistryWithOpts ::
  "(float64 \<Rightarrow> int) \<Rightarrow> (float64 \<Rightarrow> int \<Rightarrow> 'tb) \<Rightarrow> int \<Rightarrow> endpoint_config list
   \<Rightarrow> ('tb registry \<Rightarrow> 'tb registry) list \<Rightarrow> 'tb registry outcome" where
  "NewRegistryWithOpts oor NewLimiter now cfgs regOpts =
     add_all oor NewLimiter now cfgs
       (fold (\<lambda>ro. ro) regOpts \<lparr>eps = [], maxDynamic = 1000, dynamicCount = 0\<rparr>)"

definition NewRegistry ::
  "(float64 \<Rightarrow> int) \<Rightarrow> (float64 \<Rightarrow> int \<Rightarrow> 'tb) \<Rightarrow> int \<Rightarrow> endpoint_config list \<Rightarrow> 'tb registry outcome" where
  "NewRegistry oor NewLimiter now cfgs = NewRegistryWithOpts oor NewLimiter now cfgs []"

definition registered :: "'tb registry \<Rightarrow> string \<Rightarrow> bool" where
  "registered r p \<longleftrightarrow> map_of (eps r) p \<noteq> None"

text \<open>\<open>findParentLocked\<close> depends on the keys only: \<open>known p\<close> reads \<open>p\<close> is registered.\<close>

function find_parent :: "(string \<Rightarrow> bool) \<Rightarrow> string \<Rightarrow> string option" where
  "find_parent known p =
     (let p' = path_Dir p
      in if known p' then Some p'
         else if p' = ''/'' \<or> p' = ''.'' then (if known ''/'' then Some ''/'' else None)
         else find_parent known p')"
  by pat_completeness auto
termination
  by (relation "measure (\<lambda>(known, p). length p)") (auto simp: path_Dir_shorter)

declare find_parent.simps [simp del]

definition findParentLocked :: "'tb registry \<Rightarrow> string \<Rightarrow> string option" where
  "findParentLocked r reqPath = find_parent (registered r) reqPath"

definition dynamic_config :: "string \<Rightarrow> endpoint_config \<Rightarrow> endpoint_config" where
  "dynamic_config p par = InheritFrom (zero_endpoint\<lparr>Path := p, Dynamic := True\<rparr>) par"

text \<open>The slow path, under the write lock, the second lookup included.\<close>

definition Match_locked ::
  "(float64 \<Rightarrow> int) \<Rightarrow> (float64 \<Rightarrow> int \<Rightarrow> 'tb) \<Rightarrow> int \<Rightarrow> string \<Rightarrow> 'tb registry
   \<Rightarrow> (string option \<times> 'tb registry) outcome" where
  "Match_locked oor NewLimiter now reqPath r =
     (if registered r reqPath then Ok (Some reqPath, r)
      else case findParentLocked r reqPath of
        None \<Rightarrow> Ok (None, r)
      | Some par \<Rightarrow>
          (if dynamicCount r \<ge> maxDynamic r then Ok (Some par, r)
           else case endpoint_New oor NewLimiter now
                       (dynamic_config reqPath (cfg (the (map_of (eps r) par)))) of
                  Panic m \<Rightarrow> Panic m
                | Err e \<Rightarrow> Ok (Some par, r)
                | Ok ep \<Rightarrow>
                    Ok (Some reqPath, r\<lparr>eps := AList.update reqPath ep (eps r),
                                       dynamicCount := i64 (dynamicCount r + 1)\<rparr>)))"

text \<open>
  \<open>Match\<close>: a lookup under the read lock in the registry \<open>r\<close>, and, on a miss, the slow path in
  the registry \<open>r'\<close> found when the write lock is granted.
\<close>

definition Match ::
  "(float64 \<Rightarrow> int) \<Rightarrow> (float64 \<Rightarrow> int \<Rightarrow> 'tb) \<Rightarrow> int \<Rightarrow> string \<Rightarrow> 'tb registry \<Rightarrow> 'tb registry
   \<Rightarrow> (string option \<times> 'tb registry) outcome" where
  "Match oor NewLimiter now reqPath r r' =
     (if registered r reqPath then Ok (Some reqPath, r)
      else Match_locked oor NewLimiter now reqPath r')"

text \<open>\<open>perm\<close> is the order in which the map is iterated.\<close>

definition Snapshot ::
  "((string \<times> 'tb endpoint) list \<Rightarrow> (string \<times> 'tb endpoint) list) \<Rightarrow> 'tb registry \<Rightarrow> endpoint_info list" where
  "Snapshot perm r =
     sort_key (\<lambda>i. Path (Config i))
       (List.map (\<lambda>(k, ep). \<lparr>Config = cfg ep, i_QueueLen = QueueLen ep\<rparr>) (perm (eps r)))"

definition QueueDepths :: "'tb registry \<Rightarrow> (string \<times> nat) list" where
  "QueueDepths r = List.map (apsnd QueueLen) (eps r)"

section \<open>Runs\<close>

text \<open>
  What happens to a registry while the server runs: a match, or a change of one endpoint's
  state (its queue, limiter and counters, not its configuration) by its handlers and dispatcher.
\<close>

datatype 'tb reg_op = RMatch string int | RTouch string "'tb endpoint"

fun reg_step ::
  "(float64 \<Rightarrow> int) \<Rightarrow> (float64 \<Rightarrow> int \<Rightarrow> 'tb) \<Rightarrow> 'tb reg_op \<Rightarrow> 'tb registry \<Rightarrow> 'tb registry" where
  "reg_step oor NewLimiter (RMatch p now) r =
     (case Match_locked oor NewLimiter now p r of Ok (k, r') \<Rightarrow> r' | Err e \<Rightarrow> r | Panic m \<Rightarrow> r)"
| "reg_step oor NewLimiter (RTouch p ep') r =
     (case map_of (eps r) p of
        Some ep \<Rightarrow> if cfg ep' = cfg ep then r\<lparr>eps := AList.update p ep' (eps r)\<rparr> else r
      | None \<Rightarrow> r)"

definition reg_run ::
  "(float64 \<Rightarrow> int) \<Rightarrow> (float64 \<Rightarrow> int \<Rightarrow> 'tb) \<Rightarrow> 'tb reg_op list \<Rightarrow> 'tb registry \<Rightarrow> 'tb registry" where
  "reg_run oor NewLimiter ops r = fold (reg_step oor NewLimiter) ops r"

text \<open>The configuration registered under a path.\<close>

definition cfg_at :: "'tb registry \<Rightarrow> string \<Rightarrow> endpoint_config option" where
  "cfg_at r p = map_option cfg (map_of (eps r) p)"

section \<open>The walk\<close>

lemma registered_cfg_at: "registered r p \<longleftrightarrow> cfg_at r p \<noteq> None"
  by (simp add: registered_def cfg_at_def)

lemma find_parent_known: "find_parent known p = Some q \<Longrightarrow> known q"
  by (induction known p rule: find_parent.induct)
    (subst (asm) (2) find_parent.simps, auto simp: Let_def split: if_splits)

lemma find_parent_root: "known ''/'' \<Longrightarrow> find_parent known p \<noteq> None"
  by (induction known p rule: find_parent.induct)
    (subst find_parent.simps, auto simp: Let_def)

text \<open>
  Looking for an ancestor among fewer paths may start at the nearest ancestor among more of them.
\<close>

lemma find_parent_skip:
  assumes "find_parent known p = Some q" and "\<And>x. base x \<Longrightarrow> known x" and "base ''/''" and "\<not> base q"
  shows "find_parent base p = find_parent base q"
  using assms
proof (induction known p rule: find_parent.induct)
  case (1 known p)
  let ?d = "path_Dir p"
  show ?case
  proof (cases "known ?d")
    case True
    then have "q = ?d" using "1.prems"(1) by (subst (asm) find_parent.simps) simp
    then have nb: "\<not> base ?d" "?d \<noteq> ''/''" using "1.prems"(3,4) by auto
    show ?thesis
    proof (cases "?d = ''.''")
      case True
      have "path_Dir ''.'' = ''.''" by code_simp
      then show ?thesis
        using nb True \<open>q = ?d\<close> "1.prems"(3)
        by (simp add: find_parent.simps[of base p] find_parent.simps[of base "''.''"])
    next
      case False
      then show ?thesis using nb \<open>q = ?d\<close> by (simp add: find_parent.simps[of base p])
    qed
  next
    case False
    then have nb: "\<not> base ?d" "?d \<noteq> ''/''" using "1.prems"(2,3) by auto
    show ?thesis
    proof (cases "?d = ''.''")
      case True
      then have "q = ''/''"
        using "1.prems"(1) False by (subst (asm) find_parent.simps) (simp split: if_splits)
      then show ?thesis using "1.prems"(3,4) by simp
    next
      case dot: False
      have "find_parent known ?d = Some q"
        using "1.prems"(1) False nb dot by (subst (asm) find_parent.simps) simp
      then have "find_parent base ?d = find_parent base q"
        using "1.IH"[OF refl False] nb dot "1.prems"(2-4) by blast
      then show ?thesis using nb dot by (simp add: find_parent.simps[of base p])
    qed
  qed
qed

lemma find_parent_same:
  assumes "find_parent known p = Some q" and "\<And>x. base x \<Longrightarrow> known x" and "base q"
  shows "find_parent base p = Some q"
  using assms
proof (induction known p rule: find_parent.induct)
  case (1 known p)
  then show ?case
    by (subst find_parent.simps, subst (asm) (3) find_parent.simps) (auto simp: Let_def split: if_splits)
qed

section \<open>The invariant\<close>

text \<open>
  \<open>base\<close> is the configured part of the registry, as the constructor made it. Every other entry
  carries the configuration of the nearest configured ancestor of its path.
\<close>

definition inherited :: "(string \<Rightarrow> endpoint_config option) \<Rightarrow> string \<Rightarrow> endpoint_config \<Rightarrow> bool" where
  "inherited base p c \<longleftrightarrow>
     (\<exists>q b. find_parent (\<lambda>x. base x \<noteq> None) p = Some q \<and> base q = Some b
        \<and> c = b\<lparr>Path := p, Dynamic := True\<rparr>)"

definition reg_inv :: "(string \<Rightarrow> endpoint_config option) \<Rightarrow> nat \<Rightarrow> int \<Rightarrow> 'tb registry \<Rightarrow> bool" where
  "reg_inv base n capac r \<longleftrightarrow>
     distinct (List.map fst (eps r)) \<and> base ''/'' \<noteq> None
     \<and> (\<forall>p c. base p = Some c \<longrightarrow> cfg_at r p = Some c)
     \<and> (\<forall>p c. cfg_at r p = Some c \<longrightarrow> base p = Some c \<or> (base p = None \<and> inherited base p c))
     \<and> maxDynamic r = capac \<and> is_i64 capac
     \<and> 0 \<le> dynamicCount r \<and> dynamicCount r \<le> max 0 capac
     \<and> length (eps r) = n + nat (dynamicCount r)"

lemma cfg_at_update:
  "cfg_at (r\<lparr>eps := AList.update k ep (eps r)\<rparr>) p = (if p = k then Some (cfg ep) else cfg_at r p)"
  by (simp add: cfg_at_def update_conv')

lemma length_update:
  "length (AList.update k v xs) = (if map_of xs k = None then length xs + 1 else length xs)"
  by (induction xs) auto

lemma cfg_at_more [simp]: "cfg_at (r\<lparr>dynamicCount := n\<rparr>) = cfg_at r"
  by (auto simp: cfg_at_def)

lemma registered_base:
  "reg_inv base n capac r \<Longrightarrow> base x \<noteq> None \<Longrightarrow> registered r x"
  by (auto simp: reg_inv_def registered_cfg_at)

text \<open>
  The nearest known ancestor passes on the configuration of the nearest configured one, whoever
  keeps the set of known paths.
\<close>

lemma inherited_step:
  assumes fp: "find_parent known p = Some q" and sub: "\<And>x. base x \<noteq> None \<Longrightarrow> known x"
    and root: "base ''/'' \<noteq> None" and c: "base q = Some c \<or> (base q = None \<and> inherited base q c)"
  shows "inherited base p (dynamic_config p c)"
proof -
  have d: "dynamic_config p c = c\<lparr>Path := p, Dynamic := True\<rparr>"
    by (simp add: dynamic_config_def InheritFrom_bare)
  show ?thesis
  proof (cases "base q = None")
    case False
    then show ?thesis using find_parent_same[of known p q "\<lambda>x. base x \<noteq> None", OF fp sub] c d
      by (auto simp: inherited_def)
  next
    case True
    then obtain q' b where q': "find_parent (\<lambda>x. base x \<noteq> None) q = Some q'" "base q' = Some b"
      "c = b\<lparr>Path := q, Dynamic := True\<rparr>"
      using c unfolding inherited_def by auto
    then have "find_parent (\<lambda>x. base x \<noteq> None) p = Some q'"
      using find_parent_skip[of known p q "\<lambda>x. base x \<noteq> None", OF fp sub root] True by simp
    then show ?thesis using q'(2,3) d by (auto simp: inherited_def)
  qed
qed

lemma inherited_child:
  assumes "reg_inv base n capac r" and "\<not> registered r p" and "findParentLocked r p = Some q"
    and "cfg_at r q = Some c"
  shows "base p = None \<and> inherited base p (dynamic_config p c)"
proof
  have sub: "\<And>x. base x \<noteq> None \<Longrightarrow> registered r x" using registered_base[OF assms(1)] by blast
  then show "base p = None" using assms(2) by blast
  show "inherited base p (dynamic_config p c)"
    by (rule inherited_step[of "registered r" p q, OF _ sub])
      (use assms in \<open>auto simp: findParentLocked_def reg_inv_def\<close>)
qed

lemma Match_locked_cases:
  assumes "Match_locked oor NewLimiter now p r = Ok (k, r')"
  obtains (hit) "registered r p" "k = Some p" "r' = r"
  | (none) "\<not> registered r p" "findParentLocked r p = None" "k = None" "r' = r"
  | (parent) q where "\<not> registered r p" "findParentLocked r p = Some q" "k = Some q" "r' = r"
  | (new) q c ep where "\<not> registered r p" "findParentLocked r p = Some q" "k = Some p"
      "dynamicCount r < maxDynamic r" "cfg_at r q = Some c"
      "endpoint_New oor NewLimiter now (dynamic_config p c) = Ok ep"
      "r' = r\<lparr>eps := AList.update p ep (eps r), dynamicCount := i64 (dynamicCount r + 1)\<rparr>"
proof (cases "registered r p")
  case True
  then have "k = Some p" "r' = r" using assms by (auto simp: Match_locked_def)
  then show ?thesis using hit True by blast
next
  case False
  show ?thesis
  proof (cases "findParentLocked r p")
    case None
    then have "k = None" "r' = r" using assms False by (auto simp: Match_locked_def)
    then show ?thesis using none None False by blast
  next
    case (Some q)
    then have "registered r q" using find_parent_known by (simp add: findParentLocked_def)
    then obtain e where e: "map_of (eps r) q = Some e" by (auto simp: registered_def)
    then have c: "cfg_at r q = Some (cfg e)" by (simp add: cfg_at_def)
    have m: "(if dynamicCount r \<ge> maxDynamic r then Ok (Some q, r)
       else case endpoint_New oor NewLimiter now (dynamic_config p (cfg e)) of
              Panic m \<Rightarrow> Panic m | Err e \<Rightarrow> Ok (Some q, r)
            | Ok ep \<Rightarrow> Ok (Some p, r\<lparr>eps := AList.update p ep (eps r),
                                    dynamicCount := i64 (dynamicCount r + 1)\<rparr>)) = Ok (k, r')"
      using assms by (simp only: Match_locked_def False Some e option.simps if_False option.sel)
    show ?thesis
    proof (cases "dynamicCount r \<ge> maxDynamic r")
      case True
      then show ?thesis using m parent[OF False Some] by simp
    next
      case room: False
      show ?thesis
      proof (cases "endpoint_New oor NewLimiter now (dynamic_config p (cfg e))")
        case (Ok ep)
        then have "k = Some p"
          "r' = r\<lparr>eps := AList.update p ep (eps r), dynamicCount := i64 (dynamicCount r + 1)\<rparr>"
          using m room by simp_all
        then show ?thesis using new[OF False Some _ _ c Ok] room by simp
      next
        case (Err x)
        then show ?thesis using m room parent[OF False Some] by simp
      next
        case (Panic x)
        then show ?thesis using m room by simp
      qed
    qed
  qed
qed

lemma reg_inv_touch:
  assumes "reg_inv base n capac r" and "map_of (eps r) p = Some ep" and "cfg ep' = cfg ep"
  shows "reg_inv base n capac (r\<lparr>eps := AList.update p ep' (eps r)\<rparr>)"
proof -
  have c: "cfg_at (r\<lparr>eps := AList.update p ep' (eps r)\<rparr>) = cfg_at r"
    using assms(2,3) by (auto simp: cfg_at_update fun_eq_iff) (simp add: cfg_at_def)
  show ?thesis
    using assms(1,2) unfolding reg_inv_def c by (simp add: distinct_update length_update)
qed

lemma reg_inv_new:
  assumes "reg_inv base n capac r" and "\<not> registered r p" and "dynamicCount r < maxDynamic r"
    and "base p = None" and "inherited base p (cfg ep)"
  shows "reg_inv base n capac
    (r\<lparr>eps := AList.update p ep (eps r), dynamicCount := i64 (dynamicCount r + 1)\<rparr>)" (is "reg_inv _ _ _ ?r'")
proof -
  have i: "i64 (dynamicCount r + 1) = dynamicCount r + 1"
    using assms(1,3) by (intro i64_id) (auto simp: reg_inv_def is_i64_def)
  have new: "map_of (eps r) p = None" using assms(2) by (simp add: registered_def)
  have c: "cfg_at ?r' = (cfg_at r)(p \<mapsto> cfg ep)" by (auto simp: cfg_at_update fun_eq_iff)
  have "\<forall>x c. base x = Some c \<longrightarrow> cfg_at ?r' x = Some c"
    unfolding c using assms(1,4) by (simp add: reg_inv_def)
  moreover have "\<forall>x c. cfg_at ?r' x = Some c \<longrightarrow> base x = Some c \<or> (base x = None \<and> inherited base x c)"
    unfolding c using assms(1,4,5) by (simp add: reg_inv_def)
  moreover have "length (eps ?r') = n + nat (dynamicCount ?r')"
    using assms(1) new i by (simp add: reg_inv_def length_update nat_add_distrib)
  ultimately show ?thesis
    using assms(1,3) i unfolding reg_inv_def by (simp add: distinct_update)
qed

lemma reg_step_inv:
  assumes "reg_inv base n capac r"
  shows "reg_inv base n capac (reg_step oor NewLimiter x r)"
proof (cases x)
  case (RTouch p ep')
  then show ?thesis using assms reg_inv_touch[OF assms] by (auto split: option.splits)
next
  case (RMatch p now)
  show ?thesis
  proof (cases "Match_locked oor NewLimiter now p r")
    case (Ok kr)
    then obtain k r' where m: "Match_locked oor NewLimiter now p r = Ok (k, r')" by (cases kr) auto
    show ?thesis
    proof (cases rule: Match_locked_cases[OF m])
      case (4 q c ep)
      have "base p = None" "inherited base p (cfg ep)"
        using inherited_child[OF assms 4(1,2,5)] endpoint_New_Ok(1)[OF 4(6)] by auto
      then show ?thesis using reg_inv_new[OF assms 4(1,4)] RMatch m 4(7) by simp
    qed (use assms RMatch m in auto)
  qed (use assms RMatch in auto)
qed

lemma reg_run_inv:
  "reg_inv base n capac r \<Longrightarrow> reg_inv base n capac (reg_run oor NewLimiter ops r)"
  unfolding reg_run_def by (induction ops arbitrary: r) (auto simp: reg_step_inv)

lemma add_all_Ok:
  assumes "add_all oor NewLimiter now cs r = Ok r'" and "distinct (List.map fst (eps r))"
  shows "cfg_at r' = cfg_at r ++ map_of (rev (List.map (\<lambda>c. (Path c, c)) cs))
    \<and> distinct (List.map fst (eps r')) \<and> maxDynamic r' = maxDynamic r \<and> dynamicCount r' = dynamicCount r"
  using assms
proof (induction cs arbitrary: r)
  case (Cons c cs)
  obtain ep where ep: "endpoint_New oor NewLimiter now c = Ok ep"
    "add_all oor NewLimiter now cs (r\<lparr>eps := AList.update (Path c) ep (eps r)\<rparr>) = Ok r'"
    using Cons.prems(1) by (auto split: outcome.splits)
  have "cfg_at (r\<lparr>eps := AList.update (Path c) ep (eps r)\<rparr>) = (cfg_at r)(Path c \<mapsto> c)"
    using endpoint_New_Ok(1)[OF ep(1)] by (auto simp: cfg_at_update)
  then show ?case
    using Cons.IH[OF ep(2)] Cons.prems(2) by (simp add: distinct_update map_add_def fun_eq_iff split: option.splits)
qed simp

lemma New_reg_inv:
  assumes "NewRegistryWithOpts oor NewLimiter now cfgs [WithMaxDynamic capac] = Ok r0"
    and "hasRoot cfgs" and "is_i64 capac"
  shows "reg_inv (cfg_at r0) (length (eps r0)) capac r0"
proof -
  have a: "cfg_at r0 = Map.empty ++ map_of (rev (List.map (\<lambda>c. (Path c, c)) cfgs))
    \<and> distinct (List.map fst (eps r0)) \<and> maxDynamic r0 = capac \<and> dynamicCount r0 = 0"
    using add_all_Ok[OF assms(1)[unfolded NewRegistryWithOpts_def]]
    by (simp add: WithMaxDynamic_def cfg_at_def[abs_def])
  obtain c where "c \<in> set cfgs" "Path c = ''/''" using assms(2) by (auto simp: hasRoot_def list_ex_iff)
  then have "''/'' \<in> fst ` set (rev (List.map (\<lambda>c. (Path c, c)) cfgs))" by force
  then have "cfg_at r0 ''/'' \<noteq> None" using a by (simp add: map_of_eq_None_iff)
  then show ?thesis using a assms(3) by (auto simp: reg_inv_def)
qed

lemma reg_step_keeps:
  "cfg_at r p = Some c \<Longrightarrow> cfg_at (reg_step oor NewLimiter x r) p = Some c"
proof (cases x)
  case (RTouch k ep')
  assume "cfg_at r p = Some c"
  then show ?thesis using RTouch by (auto simp: cfg_at_update cfg_at_def[of r] split: option.splits)
next
  case (RMatch k now)
  assume a: "cfg_at r p = Some c"
  show ?thesis
  proof (cases "Match_locked oor NewLimiter now k r")
    case (Ok kr)
    then obtain j r' where m: "Match_locked oor NewLimiter now k r = Ok (j, r')" by (cases kr) auto
    show ?thesis
    proof (cases rule: Match_locked_cases[OF m])
      case (4 q c' ep)
      then have "p \<noteq> k" using a by (auto simp: registered_cfg_at)
      then show ?thesis using a 4 m RMatch by (simp add: cfg_at_update)
    qed (use a RMatch m in auto)
  qed (use a RMatch in auto)
qed

lemma reg_run_keeps:
  "cfg_at r p = Some c \<Longrightarrow> cfg_at (reg_run oor NewLimiter ops r) p = Some c"
  unfolding reg_run_def by (induction ops arbitrary: r) (auto simp: reg_step_keeps)

lemma reg_run_registered:
  "registered r p \<Longrightarrow> registered (reg_run oor NewLimiter ops r) p"
  using reg_run_keeps[of r p] by (fastforce simp: registered_cfg_at)

section \<open>A small registry\<close>

text \<open>Two configured endpoints and room for one dynamic one.\<close>

definition demo_cfgs :: "endpoint_config list" where
  "demo_cfgs = [(demo_cfg ''fifo'' ''strict'')\<lparr>Path := ''/''\<rparr>, demo_cfg ''fifo'' ''token_window'']"

definition demo_reg :: "(float64 \<times> int) registry" where
  "demo_reg =
     (case NewRegistryWithOpts amd64 demo_bucket 0 demo_cfgs [WithMaxDynamic 1] of
        Ok r \<Rightarrow> r | _ \<Rightarrow> \<lparr>eps = [], maxDynamic = 0, dynamicCount = 0\<rparr>)"

definition demo_reg1 :: "(float64 \<times> int) registry" where
  "demo_reg1 = reg_run amd64 demo_bucket [RMatch ''/api/v2/users'' 0] demo_reg"

lemma demo_reg_New: "NewRegistryWithOpts amd64 demo_bucket 0 demo_cfgs [WithMaxDynamic 1] = Ok demo_reg"
  by code_simp

lemma demo_root: "hasRoot demo_cfgs" and demo_cap: "is_i64 1"
  by code_simp+

lemma demo_reg1_at:
  "cfg_at (reg_run amd64 demo_bucket [RMatch ''/api/v2/users'' 0] demo_reg) ''/api/v2/users''
     = Some ((demo_cfg ''fifo'' ''token_window'')\<lparr>Path := ''/api/v2/users'', Dynamic := True\<rparr>)"
  by code_simp

lemma demo_Match_full:
  "Match_locked amd64 demo_bucket 0 ''/api/v3'' demo_reg1 = Ok (Some ''/api'', demo_reg1)"
  by code_simp

lemma demo_Match_race:
  "Match amd64 demo_bucket 0 ''/api/v2/users'' demo_reg demo_reg1 = Ok (Some ''/api/v2/users'', demo_reg1)"
  by code_simp

lemma demo_walk: "find_parent (List.member [''/'', ''/api'']) ''/api/v2/users'' = Some ''/api''"
  by code_simp

section \<open>Properties\<close>

text \<open>
  C27. What a path is served with: whatever requests came before, an endpoint has the
  configuration given for its path, or, when the path is not configured, exactly that of the
  nearest configured ancestor with its own path and the dynamic mark, also when it was created
  below other dynamic endpoints.
\<close>

theorem dynamic_endpoint_inherits:
  assumes "NewRegistryWithOpts oor NewLimiter now cfgs [WithMaxDynamic capac] = Ok r0"
    and "hasRoot cfgs" and "is_i64 capac"
    and "cfg_at (reg_run oor NewLimiter ops r0) p = Some c"
  shows "cfg_at r0 p = Some c \<or>
    (cfg_at r0 p = None \<and> (\<exists>q b. findParentLocked r0 p = Some q \<and> cfg_at r0 q = Some b
       \<and> c = b\<lparr>Path := p, Dynamic := True\<rparr>))"
proof -
  have "reg_inv (cfg_at r0) (length (eps r0)) capac (reg_run oor NewLimiter ops r0)"
    by (rule reg_run_inv[OF New_reg_inv[OF assms(1-3)]])
  then have "cfg_at r0 p = Some c \<or> (cfg_at r0 p = None \<and> inherited (cfg_at r0) p c)"
    using assms(4) by (simp add: reg_inv_def)
  moreover have "registered r0 = (\<lambda>x. cfg_at r0 x \<noteq> None)" by (auto simp: registered_cfg_at)
  ultimately show ?thesis by (auto simp: inherited_def findParentLocked_def)
qed

theorem dynamic_endpoint_inherits_witness:
  "let c = (demo_cfg ''fifo'' ''token_window'')\<lparr>Path := ''/api/v2/users'', Dynamic := True\<rparr>
   in cfg_at demo_reg ''/api/v2/users'' = Some c \<or>
    (cfg_at demo_reg ''/api/v2/users'' = None \<and> (\<exists>q b. findParentLocked demo_reg ''/api/v2/users'' = Some q
       \<and> cfg_at demo_reg q = Some b \<and> c = b\<lparr>Path := ''/api/v2/users'', Dynamic := True\<rparr>))"
  unfolding Let_def by (rule dynamic_endpoint_inherits[OF demo_reg_New demo_root demo_cap demo_reg1_at])

text \<open>
  C28. The cap holds: however many distinct paths are requested, the registry never has more than
  the configured endpoints and \<open>capac\<close> dynamic ones, and the counter counts exactly the latter.
\<close>

theorem dynamic_endpoints_capped:
  assumes "NewRegistryWithOpts oor NewLimiter now cfgs [WithMaxDynamic capac] = Ok r0"
    and "hasRoot cfgs" and "is_i64 capac"
  shows "int (length (eps (reg_run oor NewLimiter ops r0))) \<le> int (length (eps r0)) + max 0 capac
    \<and> int (length (eps (reg_run oor NewLimiter ops r0)))
        = int (length (eps r0)) + dynamicCount (reg_run oor NewLimiter ops r0)"
proof -
  have "reg_inv (cfg_at r0) (length (eps r0)) capac (reg_run oor NewLimiter ops r0)"
    by (rule reg_run_inv[OF New_reg_inv[OF assms(1-3)]])
  then show ?thesis by (auto simp: reg_inv_def)
qed

theorem dynamic_endpoints_capped_witness:
  "int (length (eps (reg_run amd64 demo_bucket [RMatch ''/x'' 0, RMatch ''/y'' 0] demo_reg)))
      \<le> int (length (eps demo_reg)) + max 0 1
   \<and> int (length (eps (reg_run amd64 demo_bucket [RMatch ''/x'' 0, RMatch ''/y'' 0] demo_reg)))
      = int (length (eps demo_reg))
        + dynamicCount (reg_run amd64 demo_bucket [RMatch ''/x'' 0, RMatch ''/y'' 0] demo_reg)"
  by (rule dynamic_endpoints_capped[OF demo_reg_New demo_root demo_cap])

text \<open>
  A request always finds an endpoint: with a root endpoint configured there is no path
  without one, the answer is the endpoint of the path itself or, when none can be created, the
  nearest registered ancestor, and the registry then stays as it was.
\<close>

lemma Match_always_finds:
  assumes "NewRegistryWithOpts oor NewLimiter now cfgs [WithMaxDynamic capac] = Ok r0"
    and "hasRoot cfgs" and "is_i64 capac" and "r = reg_run oor NewLimiter ops r0"
    and "Match_locked oor NewLimiter t p r = Ok (k, r')"
  shows "\<exists>q. k = Some q \<and> registered r' q
    \<and> (q = p \<or> (findParentLocked r p = Some q \<and> r' = r \<and> \<not> registered r p))"
proof -
  have "reg_inv (cfg_at r0) (length (eps r0)) capac r"
    unfolding assms(4) by (rule reg_run_inv[OF New_reg_inv[OF assms(1-3)]])
  then have "registered r ''/''" by (auto simp: reg_inv_def registered_cfg_at)
  then have "findParentLocked r p \<noteq> None" by (simp add: findParentLocked_def find_parent_root)
  moreover have "registered r q" if "findParentLocked r p = Some q" for q
    using that find_parent_known by (simp add: findParentLocked_def)
  ultimately show ?thesis
    by (cases rule: Match_locked_cases[OF assms(5)])
      (auto simp: registered_cfg_at cfg_at_update)
qed

text \<open>
  C38. The double-checked locking is sound: a \<open>Match\<close> whose lookup sees the registry \<open>r\<close> and whose
  slow path runs later, after any activity of the other goroutines, picks the endpoint that one
  atomic match at the later moment picks.
\<close>

theorem Match_linearizable:
  assumes "r' = reg_run oor NewLimiter ops r"
    and "Match oor NewLimiter now p r r' = Ok (k, s)"
  shows "\<exists>s'. Match_locked oor NewLimiter now p r' = Ok (k, s')"
  using assms reg_run_registered[of r p oor NewLimiter ops]
  by (auto simp: Match_def Match_locked_def split: if_splits)

theorem Match_linearizable_witness:
  "\<exists>s'. Match_locked amd64 demo_bucket 0 ''/api/v2/users'' demo_reg1 = Ok (Some ''/api/v2/users'', s')"
  by (rule Match_linearizable[OF demo_reg1_def demo_Match_race])



lemma cfg_at_Path:
  assumes "NewRegistryWithOpts oor NewLimiter now cfgs [WithMaxDynamic capac] = Ok r0"
    and "hasRoot cfgs" and "is_i64 capac" and "cfg_at (reg_run oor NewLimiter ops r0) p = Some c"
  shows "Path c = p"
proof -
  have "cfg_at r0 = Map.empty ++ map_of (rev (List.map (\<lambda>c. (Path c, c)) cfgs))"
    using add_all_Ok[OF assms(1)[unfolded NewRegistryWithOpts_def]]
    by (simp add: WithMaxDynamic_def cfg_at_def[abs_def])
  then have "Path b = q" if "cfg_at r0 q = Some b" for q b
    using map_of_SomeD[of "rev (List.map (\<lambda>c. (Path c, c)) cfgs)" q b] that by auto
  moreover have "reg_inv (cfg_at r0) (length (eps r0)) capac (reg_run oor NewLimiter ops r0)"
    by (rule reg_run_inv[OF New_reg_inv[OF assms(1-3)]])
  then have "cfg_at r0 p = Some c \<or> inherited (cfg_at r0) p c" using assms(4) by (auto simp: reg_inv_def)
  ultimately show ?thesis by (auto simp: inherited_def)
qed

text \<open>
  The snapshot is sorted by path and does not depend on the order in which the map is
  iterated, and it lists every endpoint once.
\<close>

lemma Snapshot_deterministic:
  assumes "NewRegistryWithOpts oor NewLimiter now cfgs [WithMaxDynamic capac] = Ok r0"
    and "hasRoot cfgs" and "is_i64 capac" and "r = reg_run oor NewLimiter ops r0"
    and "mset (perm (eps r)) = mset (eps r)" and "mset (perm' (eps r)) = mset (eps r)"
  shows "sorted (List.map (\<lambda>i. Path (Config i)) (Snapshot perm r))
    \<and> Snapshot perm r = Snapshot perm' r
    \<and> mset (List.map (\<lambda>i. Path (Config i)) (Snapshot perm r)) = mset (List.map fst (eps r))"
proof -
  let ?g = "\<lambda>(k, ep). \<lparr>Config = cfg ep, i_QueueLen = QueueLen ep\<rparr>" and ?f = "\<lambda>i. Path (Config i)"
  have d: "distinct (List.map fst (eps r))"
    unfolding assms(4) using reg_run_inv[OF New_reg_inv[OF assms(1-3)], of oor NewLimiter ops]
    by (simp add: reg_inv_def)
  have key: "Path (cfg ep) = k" if "(k, ep) \<in> set (eps r)" for k ep
  proof -
    have "map_of (eps r) k = Some ep" by (rule map_of_is_SomeI[OF d that])
    then have "cfg_at (reg_run oor NewLimiter ops r0) k = Some (cfg ep)"
      unfolding assms(4) by (simp add: cfg_at_def)
    then show ?thesis by (rule cfg_at_Path[OF assms(1-3)])
  qed
  have set: "set (perm (eps r)) = set (eps r)" using assms(5) by (rule mset_eq_setD)
  have "inj_on ?f (set (List.map ?g (perm (eps r))))"
  proof (rule inj_onI)
    fix i j assume ij: "i \<in> set (List.map ?g (perm (eps r)))" "j \<in> set (List.map ?g (perm (eps r)))" "?f i = ?f j"
    obtain a x where i: "(a, x) \<in> set (eps r)" "i = ?g (a, x)" using ij(1) set by auto
    obtain b y where j: "(b, y) \<in> set (eps r)" "j = ?g (b, y)" using ij(2) set by auto
    have "a = b" using ij(3) i(2) j(2) key[OF i(1)] key[OF j(1)] by simp
    then have "x = y" using d i(1) j(1) by (metis eq_key_imp_eq_value)
    then show "i = j" using i(2) j(2) by simp
  qed
  then have "Snapshot perm r = Snapshot perm' r"
    unfolding Snapshot_def
    by (rule sort_key_inj_key_eq[rotated]) (simp_all add: assms(5,6))
  moreover have m: "List.map ?f (List.map ?g (eps r)) = List.map fst (eps r)"
    unfolding map_map by (rule map_cong[OF refl]) (use key in auto)
  have "mset (Snapshot perm r) = image_mset ?g (mset (eps r))" by (simp add: Snapshot_def assms(5))
  then have "mset (List.map ?f (Snapshot perm r)) = mset (List.map ?f (List.map ?g (eps r)))"
    by (simp only: mset_map)
  then have "mset (List.map ?f (Snapshot perm r)) = mset (List.map fst (eps r))" unfolding m .
  ultimately show ?thesis by (simp add: Snapshot_def)
qed

end
