(* ===== verification/Server.thy ===== *)
theory Server
  imports Registry
begin

text \<open>
  \<^verbatim>\<open>server/server.go\<close>: the construction of the server from a configuration, the routing of a
  request, and the shutdown. The listener and the connections of \<open>net/http\<close> appear as the set of
  requests it has handed to the handler; what is relied on is its documented shutdown: no new
  request once it is called, and a return when none is left or when the deadline has passed.
\<close>

section \<open>Construction and routing\<close>

definition registry_options :: "config \<Rightarrow> ('tb registry \<Rightarrow> 'tb registry) list" where
  "registry_options c =
     (if 0 < MaxDynamicEndpoints (Defaults c) then [WithMaxDynamic (MaxDynamicEndpoints (Defaults c))] else [])"

text \<open>
  A request handed to the handler: before \<open>Match\<close>, after it and before \<open>activeRequests.Add\<close>, in
  the endpoint's \<open>Handle\<close>, answered.
\<close>

datatype req_phase =
    RNone
  | RAccepted string
  | RMatched string
  | RHandling string
  | RNotFound
  | RDone

text \<open>
  \<open>Shutdown\<close>: not called; in \<open>http.Shutdown\<close>; in \<open>activeRequests.Wait\<close>; before \<open>StopAll\<close>; returned.
\<close>

datatype shutdown_pc = NotCalled | InHttp | InWait | InStopAll | Returned

record 'tb server =
  sreg :: "'tb registry"
  addr :: string
  activeRequests :: nat
  reqs :: "nat \<Rightarrow> req_phase"
  down :: shutdown_pc

definition server_addr :: "config \<Rightarrow> string" where
  "server_addr c = Host (Server c) @ '':'' @ Itoa (Port (Server c))"

definition server_New ::
  "(float64 \<Rightarrow> int) \<Rightarrow> (float64 \<Rightarrow> int \<Rightarrow> 'tb) \<Rightarrow> int \<Rightarrow> config \<Rightarrow> 'tb server outcome" where
  "server_New oor NewLimiter now c =
     (case NewRegistryWithOpts oor NewLimiter now (Endpoints c) (registry_options c) of
        Err e \<Rightarrow> Err e
      | Panic m \<Rightarrow> Panic m
      | Ok r \<Rightarrow> Ok \<lparr>sreg = r, addr = server_addr c, activeRequests = 0,
                     reqs = (\<lambda>_. RNone), down = NotCalled\<rparr>)"

text \<open>\<open>Start\<close> returns what the listener returns; that the server was shut down is no error.\<close>

datatype listen_end = ErrServerClosed | ListenFailed string

definition server_Start :: "listen_end \<Rightarrow> listen_end option" where
  "server_Start err = (if err = ErrServerClosed then None else Some err)"

definition set_req :: "nat \<Rightarrow> req_phase \<Rightarrow> 'tb server \<Rightarrow> 'tb server" where
  "set_req i ph s = s\<lparr>reqs := (reqs s)(i := ph)\<rparr>"

text \<open>The listener hands over a request for \<open>path\<close>; not after \<open>http.Shutdown\<close> was called.\<close>

definition s_accept :: "nat \<Rightarrow> string \<Rightarrow> 'tb server \<Rightarrow> 'tb server option" where
  "s_accept i path s =
     (if reqs s i = RNone \<and> down s = NotCalled then Some (set_req i (RAccepted path) s) else None)"

definition s_route ::
  "(float64 \<Rightarrow> int) \<Rightarrow> (float64 \<Rightarrow> int \<Rightarrow> 'tb) \<Rightarrow> int \<Rightarrow> nat \<Rightarrow> 'tb server \<Rightarrow> 'tb server option" where
  "s_route oor NewLimiter now i s =
     (case reqs s i of
        RAccepted path \<Rightarrow>
          (case Match oor NewLimiter now path (sreg s) (sreg s) of
             Ok (None, r) \<Rightarrow> Some (set_req i RNotFound (s\<lparr>sreg := r\<rparr>))
           | Ok (Some key, r) \<Rightarrow> Some (set_req i (RMatched key) (s\<lparr>sreg := r\<rparr>))
           | _ \<Rightarrow> Some (set_req i RDone s))
      | _ \<Rightarrow> None)"

definition s_add :: "nat \<Rightarrow> 'tb server \<Rightarrow> 'tb server option" where
  "s_add i s =
     (case reqs s i of
        RMatched key \<Rightarrow> Some (set_req i (RHandling key) (s\<lparr>activeRequests := activeRequests s + 1\<rparr>))
      | _ \<Rightarrow> None)"

text \<open>\<open>Handle\<close> returns, and the deferred \<open>Done\<close> runs.\<close>

definition s_done :: "nat \<Rightarrow> 'tb server \<Rightarrow> 'tb server option" where
  "s_done i s =
     (case reqs s i of
        RHandling key \<Rightarrow> Some (set_req i RDone (s\<lparr>activeRequests := activeRequests s - 1\<rparr>))
      | _ \<Rightarrow> None)"

section \<open>Shutdown\<close>

fun in_progress :: "req_phase \<Rightarrow> bool" where
  "in_progress (RAccepted p) = True"
| "in_progress (RMatched p) = True"
| "in_progress (RHandling p) = True"
| "in_progress _ = False"

definition busy :: "'tb server \<Rightarrow> nat set" where
  "busy s = {i. in_progress (reqs s i)}"

text \<open>
  The steps of \<open>Shutdown\<close>. \<open>http.Shutdown\<close> returns when the server is idle, or when the 30 seconds
  are over (\<open>expired\<close>); the wait group has no deadline.
\<close>

inductive s_shutdown :: "bool \<Rightarrow> 'tb server \<Rightarrow> 'tb server \<Rightarrow> bool" where
  call: "down s = NotCalled \<Longrightarrow> s_shutdown expired s (s\<lparr>down := InHttp\<rparr>)"
| http_returns: "down s = InHttp \<Longrightarrow> busy s = {} \<or> expired \<Longrightarrow> s_shutdown expired s (s\<lparr>down := InWait\<rparr>)"
| wait_returns: "down s = InWait \<Longrightarrow> activeRequests s = 0 \<Longrightarrow> s_shutdown expired s (s\<lparr>down := InStopAll\<rparr>)"
| stop_all: "down s = InStopAll \<Longrightarrow> s_shutdown expired s (s\<lparr>sreg := StopAll (sreg s), down := Returned\<rparr>)"

inductive_cases s_shutdown_elim: "s_shutdown expired s s'"

text \<open>A step of the server. Other changes of the endpoints (\<open>touch\<close>) keep their configurations.\<close>

inductive s_step ::
  "(float64 \<Rightarrow> int) \<Rightarrow> (float64 \<Rightarrow> int \<Rightarrow> 'tb) \<Rightarrow> bool \<Rightarrow> 'tb server \<Rightarrow> 'tb server \<Rightarrow> bool"
  for oor NewLimiter expired where
  accept: "s_accept i path s = Some s' \<Longrightarrow> s_step oor NewLimiter expired s s'"
| route: "s_route oor NewLimiter now i s = Some s' \<Longrightarrow> s_step oor NewLimiter expired s s'"
| add: "s_add i s = Some s' \<Longrightarrow> s_step oor NewLimiter expired s s'"
| finish: "s_done i s = Some s' \<Longrightarrow> s_step oor NewLimiter expired s s'"
| shutdown: "s_shutdown expired s s' \<Longrightarrow> s_step oor NewLimiter expired s s'"
| touch: "s' = s\<lparr>sreg := reg_step oor NewLimiter (RTouch p ep) (sreg s)\<rparr> \<Longrightarrow> s_step oor NewLimiter expired s s'"

definition s_reach ::
  "(float64 \<Rightarrow> int) \<Rightarrow> (float64 \<Rightarrow> int \<Rightarrow> 'tb) \<Rightarrow> bool \<Rightarrow> 'tb server \<Rightarrow> 'tb server \<Rightarrow> bool" where
  "s_reach oor NewLimiter expired = (s_step oor NewLimiter expired)\<^sup>*\<^sup>*"

section \<open>Facts\<close>

text \<open>The counter counts the requests in \<open>Handle\<close>; before the deadline nothing starts during the wait.\<close>

definition handling :: "'tb server \<Rightarrow> nat set" where
  "handling s = {i. \<exists>key. reqs s i = RHandling key}"

definition srv_inv :: "bool \<Rightarrow> 'tb server \<Rightarrow> bool" where
  "srv_inv expired s \<longleftrightarrow> finite (handling s) \<and> activeRequests s = card (handling s)
     \<and> (\<not> expired \<and> down s \<notin> {NotCalled, InHttp} \<longrightarrow> busy s = {})"

lemma handling_update:
  "handling (set_req i ph s) = (if \<exists>k. ph = RHandling k then insert i (handling s) else handling s - {i})"
  by (auto simp: handling_def set_req_def)

lemma busy_update:
  "busy (set_req i ph s) = (if in_progress ph then insert i (busy s) else busy s - {i})"
  by (auto simp: busy_def set_req_def)

lemma busyI: "in_progress (reqs s i) \<Longrightarrow> i \<in> busy s"
  by (simp add: busy_def)

lemma frame_more [simp]:
  "handling (s\<lparr>sreg := r\<rparr>) = handling s" "handling (s\<lparr>down := d\<rparr>) = handling s"
  "handling (s\<lparr>activeRequests := n\<rparr>) = handling s" "busy (s\<lparr>sreg := r\<rparr>) = busy s"
  "busy (s\<lparr>down := d\<rparr>) = busy s" "busy (s\<lparr>activeRequests := n\<rparr>) = busy s"
  by (simp_all add: handling_def busy_def)

lemma set_req_simps [simp]:
  "activeRequests (set_req i ph s) = activeRequests s" "down (set_req i ph s) = down s"
  "sreg (set_req i ph s) = sreg s"
  by (simp_all add: set_req_def)

text \<open>A request moves on without entering or leaving \<open>Handle\<close>.\<close>

lemma srv_move:
  assumes "srv_inv expired s" and "i \<notin> handling s" and "\<not> (\<exists>k. ph = RHandling k)"
    and "in_progress ph \<Longrightarrow> i \<in> busy s \<or> down s = NotCalled"
  shows "srv_inv expired (set_req i ph (s\<lparr>sreg := r\<rparr>))"
  using assms by (auto simp: srv_inv_def handling_update busy_update)

lemma srv_step_inv:
  assumes "s_step oor NewLimiter expired s s'" and "srv_inv expired s"
  shows "srv_inv expired s'"
  using assms(1)
proof cases
  case (accept i path)
  then have a: "reqs s i = RNone" "down s = NotCalled" "s' = set_req i (RAccepted path) s"
    by (auto simp: s_accept_def split: if_splits)
  have "srv_inv expired (set_req i (RAccepted path) (s\<lparr>sreg := sreg s\<rparr>))"
    by (rule srv_move[OF assms(2)]) (auto simp: handling_def a)
  then show ?thesis by (simp add: a(3))
next
  case (route now i)
  then obtain path where p: "reqs s i = RAccepted path" by (auto simp: s_route_def split: req_phase.splits)
  obtain ph r where s': "s' = set_req i ph (s\<lparr>sreg := r\<rparr>)" "\<not> (\<exists>k. ph = RHandling k)"
  proof (cases "Match oor NewLimiter now path (sreg s) (sreg s)")
    case (Ok kr)
    then show ?thesis
      using that route p by (cases kr; cases "fst kr") (auto simp: s_route_def)
  next
    case (Err e)
    then show ?thesis using that[of RDone "sreg s"] route p by (auto simp: s_route_def)
  next
    case (Panic m)
    then show ?thesis using that[of RDone "sreg s"] route p by (auto simp: s_route_def)
  qed
  show ?thesis
    unfolding s'(1) by (rule srv_move[OF assms(2) _ s'(2)]) (use p in \<open>auto simp: handling_def busy_def\<close>)
next
  case (add i)
  then obtain key where k: "reqs s i = RMatched key"
    "s' = set_req i (RHandling key) (s\<lparr>activeRequests := activeRequests s + 1\<rparr>)"
    by (auto simp: s_add_def split: req_phase.splits)
  have "i \<notin> handling s" "i \<in> busy s" using k by (auto simp: handling_def busy_def)
  then show ?thesis using assms(2) by (auto simp: k(2) srv_inv_def handling_update busy_update)
next
  case (finish i)
  then obtain key where k: "reqs s i = RHandling key"
    "s' = set_req i RDone (s\<lparr>activeRequests := activeRequests s - 1\<rparr>)"
    by (auto simp: s_done_def split: req_phase.splits)
  have "i \<in> handling s" using k by (auto simp: handling_def)
  then show ?thesis using assms(2) by (auto simp: k(2) srv_inv_def handling_update busy_update)
next
  case shutdown
  then show ?thesis using assms(2) by cases (auto simp: srv_inv_def)
next
  case (touch p ep)
  then show ?thesis using assms(2) by (simp add: srv_inv_def)
qed

lemma srv_reach_inv:
  "s_reach oor NewLimiter expired s s' \<Longrightarrow> srv_inv expired s \<Longrightarrow> srv_inv expired s'"
  unfolding s_reach_def by (induction rule: rtranclp_induct) (auto intro: srv_step_inv)

lemma server_New_Ok:
  assumes "server_New oor NewLimiter now c = Ok srv"
  shows "NewRegistryWithOpts oor NewLimiter now (Endpoints c) (registry_options c) = Ok (sreg srv)"
    "reqs srv = (\<lambda>_. RNone)" "down srv = NotCalled" "activeRequests srv = 0"
  using assms by (auto simp: server_New_def split: outcome.splits)

lemma server_New_inv:
  assumes "server_New oor NewLimiter now c = Ok srv"
  shows "srv_inv expired srv"
  using server_New_Ok[OF assms] by (simp add: srv_inv_def handling_def)

section \<open>The registry of a running server\<close>

definition dynamic_cap :: "config \<Rightarrow> int" where
  "dynamic_cap c = (if 0 < MaxDynamicEndpoints (Defaults c) then MaxDynamicEndpoints (Defaults c) else 1000)"

lemma server_registry:
  assumes "server_New oor NewLimiter now c = Ok srv"
  shows "NewRegistryWithOpts oor NewLimiter now (Endpoints c) [WithMaxDynamic (dynamic_cap c)] = Ok (sreg srv)"
  using server_New_Ok(1)[OF assms]
  by (auto simp: registry_options_def dynamic_cap_def NewRegistryWithOpts_def WithMaxDynamic_def split: if_splits)

text \<open>The registry changes by the steps of \<open>reg_run\<close>, up to the stop at the end.\<close>

lemma Match_is_locked: "Match oor NewLimiter now p r r = Match_locked oor NewLimiter now p r"
  by (simp add: Match_def Match_locked_def)

lemma reg_inv_StopAll:
  assumes "reg_inv base n capac r"
  shows "reg_inv base n capac (StopAll r)"
proof -
  have "map_of (List.map (apsnd ep_Stop) xs) p = map_option ep_Stop (map_of xs p)" for xs :: "(string \<times> 'a endpoint) list" and p
    by (induction xs) auto
  then have c: "cfg_at (StopAll r) = cfg_at r"
    by (auto simp: cfg_at_def StopAll_def ep_Stop_def option.map_comp comp_def)
  have "List.map fst (eps (StopAll r)) = List.map fst (eps r)" by (simp add: StopAll_def)
  then show ?thesis using assms unfolding reg_inv_def c by (simp add: StopAll_def)
qed

definition srv_reg_inv :: "(string \<Rightarrow> endpoint_config option) \<Rightarrow> nat \<Rightarrow> int \<Rightarrow> 'tb server \<Rightarrow> bool" where
  "srv_reg_inv base n capac s \<longleftrightarrow> reg_inv base n capac (sreg s) \<and> (\<forall>i. reqs s i \<noteq> RNotFound)"

lemma route_finds:
  assumes "reg_inv base n capac r" and "Match_locked oor NewLimiter now p r = Ok (k, r')"
  shows "k \<noteq> None \<and> reg_inv base n capac r'"
proof -
  have "registered r ''/''" using assms(1) by (auto simp: reg_inv_def registered_cfg_at)
  then have "findParentLocked r p \<noteq> None" by (simp add: findParentLocked_def find_parent_root)
  then have "k \<noteq> None" by (cases rule: Match_locked_cases[OF assms(2)]) auto
  moreover have "r' = reg_step oor NewLimiter (RMatch p now) r" using assms(2) by simp
  then have "reg_inv base n capac r'" using reg_step_inv[OF assms(1)] by metis
  ultimately show ?thesis by simp
qed

lemma srv_reg_step:
  assumes "s_step oor NewLimiter expired s s'" and "srv_reg_inv base n capac s"
  shows "srv_reg_inv base n capac s'"
  using assms(1)
proof cases
  case (route now i)
  then obtain path where p: "reqs s i = RAccepted path" by (auto simp: s_route_def split: req_phase.splits)
  have inv: "reg_inv base n capac (sreg s)" using assms(2) by (simp add: srv_reg_inv_def)
  show ?thesis
  proof (cases "Match_locked oor NewLimiter now path (sreg s)")
    case (Ok kr)
    obtain k r where kr: "kr = (k, r)" by (cases kr) auto
    have "k \<noteq> None \<and> reg_inv base n capac r" by (rule route_finds[OF inv Ok[unfolded kr]])
    then obtain q where "k = Some q" "reg_inv base n capac r" by blast
    then show ?thesis
      using route p Ok kr assms(2)
      by (auto simp: s_route_def Match_is_locked srv_reg_inv_def set_req_def split: if_splits)
  qed (use route p assms(2) in \<open>auto simp: s_route_def Match_is_locked srv_reg_inv_def set_req_def
        split: if_splits\<close>)
next
  case shutdown
  then show ?thesis using assms(2) by cases (auto simp: srv_reg_inv_def reg_inv_StopAll)
next
  case (touch p ep)
  then show ?thesis using assms(2) reg_step_inv by (auto simp: srv_reg_inv_def simp del: reg_step.simps)
qed (use assms(2) in \<open>auto simp: s_accept_def s_add_def s_done_def srv_reg_inv_def set_req_def
      split: req_phase.splits if_splits\<close>)

lemma srv_reg_reach:
  "s_reach oor NewLimiter expired s s' \<Longrightarrow> srv_reg_inv base n capac s \<Longrightarrow> srv_reg_inv base n capac s'"
  unfolding s_reach_def by (induction rule: rtranclp_induct) (auto intro: srv_reg_step)

section \<open>Properties\<close>

text \<open>
  The shutdown waits for the requests: at the moment it decides to stop the dispatchers no
  request is in an endpoint's handler, and none at all is in progress when \<open>http.Shutdown\<close>
  returned before its deadline, so no request is cut off with a 503.
\<close>

lemma shutdown_waits_for_requests:
  assumes "server_New oor NewLimiter now c = Ok srv" and "s_reach oor NewLimiter expired srv s"
    and "s_shutdown expired s s'" and "down s' = InStopAll"
  shows "handling s = {} \<and> (\<not> expired \<longrightarrow> busy s = {})"
proof -
  have inv: "srv_inv expired s" by (rule srv_reach_inv[OF assms(2) server_New_inv[OF assms(1)]])
  show ?thesis using assms(3,4) inv by (cases rule: s_shutdown_elim) (auto simp: srv_inv_def)
qed

definition demo_config :: config where
  "demo_config = zero_config\<lparr>Server := \<lparr>Host = ''127.0.0.1'', Port = 8080\<rparr>, Endpoints := demo_cfgs\<rparr>"

definition demo_srv :: "(float64 \<times> int) server" where
  "demo_srv = \<lparr>sreg = demo_reg\<lparr>maxDynamic := 1000\<rparr>, addr = ''127.0.0.1:8080'', activeRequests = 0,
     reqs = (\<lambda>_. RNone), down = NotCalled\<rparr>"

lemma demo_srv_reg:
  "NewRegistryWithOpts amd64 demo_bucket 0 demo_cfgs [] = Ok (demo_reg\<lparr>maxDynamic := 1000\<rparr>)"
  by code_simp

lemma demo_srv_New: "server_New amd64 demo_bucket 0 demo_config = Ok demo_srv"
proof -
  have "Itoa 8080 = ''8080''" by code_simp
  then show ?thesis
    using demo_srv_reg
    by (simp add: server_New_def server_addr_def demo_config_def zero_config_def zero_defaults_def registry_options_def demo_srv_def)
qed

lemma demo_srv_down:
  "s_reach amd64 demo_bucket False demo_srv (demo_srv\<lparr>down := InWait\<rparr>)"
proof -
  have "s_shutdown False demo_srv (demo_srv\<lparr>down := InHttp\<rparr>)"
    by (rule call) (simp add: demo_srv_def)
  then have one: "s_step amd64 demo_bucket False demo_srv (demo_srv\<lparr>down := InHttp\<rparr>)"
    by (rule s_step.shutdown)
  have "s_shutdown False (demo_srv\<lparr>down := InHttp\<rparr>) ((demo_srv\<lparr>down := InHttp\<rparr>)\<lparr>down := InWait\<rparr>)"
    by (rule http_returns) (simp_all add: demo_srv_def busy_def)
  then have two: "s_step amd64 demo_bucket False (demo_srv\<lparr>down := InHttp\<rparr>)
      ((demo_srv\<lparr>down := InHttp\<rparr>)\<lparr>down := InWait\<rparr>)"
    by (rule s_step.shutdown)
  have "((demo_srv\<lparr>down := InHttp\<rparr>)\<lparr>down := InWait\<rparr>) = demo_srv\<lparr>down := InWait\<rparr>" by simp
  then show ?thesis
    unfolding s_reach_def using rtranclp.rtrancl_into_rtrancl[OF r_into_rtranclp[of "s_step amd64 demo_bucket False", OF one] two]
    by argo
qed

end
