(* ===== verification/AttachServe.thy ===== *)
theory AttachServe
  imports AttachHub GoStrconv
begin

text \<open>
  \<^verbatim>\<open>Serve\<close> and \<^verbatim>\<open>SocketPath\<close> of \<^verbatim>\<open>attach/server.go\<close>: the accept loop, the connections it starts, and
  its return. A connection is a number, which is also that of its subscription; its loop is
  \<open>serveConn\<close>.
\<close>

definition SocketPath :: "int \<Rightarrow> string" where
  "SocketPath pid = ''/tmp/rls-'' @ Itoa pid @ ''.sock''"

section \<open>The accept loop\<close>

text \<open>
  Listening; waiting for the connections with the result that will be returned, a failure or not;
  returned. \<open>open_conns\<close> is the wait group, \<open>socket\<close> whether the socket file is there.
\<close>

datatype serve_pc = Listening | Draining bool | ServeReturned bool

record serve_state =
  serve_pc :: serve_pc
  open_conns :: "nat set"
  ctx_done :: bool
  socket :: bool
  the_hub :: hub
  written :: "nat \<Rightarrow> wire_msg list"

text \<open>The bind may fail; the stale socket has been removed by then.\<close>

definition serve_start :: "bool \<Rightarrow> hub \<Rightarrow> serve_state" where
  "serve_start bind_ok h =
     \<lparr>serve_pc = (if bind_ok then Listening else ServeReturned True), open_conns = {}, ctx_done = False,
      socket = bind_ok, the_hub = h, written = (\<lambda>_. [])\<rparr>"

datatype serve_in =
    CtxDone
  | Accepted nat "endpoint_snapshot list option"
  | AcceptFailed
  | ConnTurn nat conn_in
  | Drained
  | Broadcast wire_msg

text \<open>
  A connection subscribes when it starts, takes turns, and leaves the wait group when its loop
  ends; \<open>serveConn\<close> sees the end of the context only once it has come.
\<close>

fun serve_step :: "serve_in \<Rightarrow> serve_state \<Rightarrow> serve_state" where
  "serve_step CtxDone s = s\<lparr>ctx_done := True\<rparr>"
| "serve_step (Accepted k st) s =
     (if serve_pc s = Listening \<and> k \<notin> open_conns s
      then s\<lparr>open_conns := insert k (open_conns s), the_hub := Subscribe k st (the_hub s),
             written := (written s)(k := [])\<rparr>
      else s)"
| "serve_step AcceptFailed s =
     (if serve_pc s = Listening then s\<lparr>serve_pc := Draining (\<not> ctx_done s)\<rparr> else s)"
| "serve_step (ConnTurn k x) s =
     (if k \<in> open_conns s \<and> (x = ConnDone \<longrightarrow> ctx_done s)
      then (let (on, h, out) = serveConn k x (the_hub s, written s k)
            in s\<lparr>the_hub := h, written := (written s)(k := out),
                 open_conns := (if on then open_conns s else open_conns s - {k})\<rparr>)
      else s)"
| "serve_step Drained s =
     (case serve_pc s of
        Draining failed \<Rightarrow>
          if open_conns s = {} then s\<lparr>serve_pc := ServeReturned failed, socket := False\<rparr> else s
      | _ \<Rightarrow> s)"
| "serve_step (Broadcast m) s = s\<lparr>the_hub := broadcast m (the_hub s)\<rparr>"

definition serve_run :: "serve_in list \<Rightarrow> serve_state \<Rightarrow> serve_state" where
  "serve_run xs s = fold serve_step xs s"

section \<open>Subscriptions follow connections\<close>

definition serve_inv :: "serve_state \<Rightarrow> bool" where
  "serve_inv s \<longleftrightarrow>
     subs (the_hub s) = open_conns s
     \<and> (case serve_pc s of ServeReturned f \<Rightarrow> open_conns s = {} \<and> \<not> socket s | _ \<Rightarrow> socket s)
     \<and> (serve_pc s = ServeReturned False \<or> serve_pc s = Draining False \<longrightarrow> ctx_done s)"

lemma Subscribe_subs [simp]: "subs (Subscribe k st h) = insert k (subs h)"
  by (simp add: Subscribe_def hub_put_def Let_def split: option.splits)

lemma unsub_subs [simp]: "subs (unsub k h) = subs h - {k}"
  by (simp add: unsub_def)

lemma broadcast_subs [simp]: "subs (broadcast m h) = subs h"
  by (simp add: broadcast_def)

lemma hub_recv_subs: "hub_recv k h = Some (m, h') \<Longrightarrow> subs h' = subs h"
  by (auto simp: hub_recv_def)

lemma serveConn_subs:
  "serveConn k x (h, out) = (on, h', out') \<Longrightarrow> subs h' = (if on then subs h else subs h - {k})"
proof (cases x)
  case (ConnMsg ok)
  assume "serveConn k x (h, out) = (on, h', out')"
  then show ?thesis using ConnMsg hub_recv_subs[of k h]
    by (cases "hub_recv k h") (auto split: if_splits)
qed auto

lemma serve_step_inv: "serve_inv s \<Longrightarrow> serve_inv (serve_step x s)"
proof (cases x)
  case (ConnTurn k y)
  assume inv: "serve_inv s"
  obtain on h out where t: "serveConn k y (the_hub s, written s k) = (on, h, out)" by (metis prod_cases3)
  then show ?thesis using inv ConnTurn serveConn_subs[OF t]
    by (auto simp: serve_inv_def split: serve_pc.splits)
qed (auto simp: serve_inv_def split: serve_pc.splits)

lemma serve_run_inv: "serve_inv s \<Longrightarrow> serve_inv (serve_run xs s)"
  unfolding serve_run_def by (induction xs arbitrary: s) (auto simp: serve_step_inv)

lemma serve_start_inv: "serve_inv (serve_start ok (NewHub c))"
  by (simp add: serve_inv_def serve_start_def NewHub_def)


end
