(* ===== verification/LogSink.thy ===== *)
theory LogSink
  imports AttachHub
begin

text \<open>
  \<^verbatim>\<open>tui.LogSink\<close> and its writer: what the logger writes is cut into lines, which are passed on
  through a lossy channel to the log panel and the hub.
\<close>

definition newline :: char where
  "newline = CHR 0x0A"

definition trim_newlines :: "string \<Rightarrow> string" where
  "trim_newlines p = rev (dropWhile (\<lambda>c. c = newline) (rev p))"

fun split_newline :: "string \<Rightarrow> string list" where
  "split_newline [] = [[]]"
| "split_newline (c # cs) =
     (if c = newline then [] # split_newline cs
      else case split_newline cs of [] \<Rightarrow> [[c]] | s # ss \<Rightarrow> (c # s) # ss)"

definition log_lines :: "string \<Rightarrow> string list" where
  "log_lines p = List.filter (\<lambda>l. l \<noteq> '''') (split_newline (trim_newlines p))"

text \<open>\<open>Write\<close> reports the number of bytes it was given, and no error.\<close>

definition log_Write :: "nat \<Rightarrow> string \<Rightarrow> string list \<Rightarrow> nat \<times> string list" where
  "log_Write bufSize p ch = (length p, fold (offer bufSize) (log_lines p) ch)"

section \<open>Lines\<close>

lemma split_newline_nonempty [simp]: "split_newline p \<noteq> []"
  by (induction p) (auto split: list.splits)

lemma split_newline_no_newline: "l \<in> set (split_newline p) \<Longrightarrow> newline \<notin> set l"
proof (induction p arbitrary: l)
  case (Cons c cs)
  then show ?case by (cases "split_newline cs") (auto split: if_splits)
qed simp

lemma split_newline_line: "newline \<notin> set l \<Longrightarrow> split_newline (l @ newline # p) = l # split_newline p"
  by (induction l) auto

lemma split_newline_single: "newline \<notin> set l \<Longrightarrow> split_newline l = [l]"
  by (induction l) auto

lemma trim_snoc: "trim_newlines (p @ [newline]) = trim_newlines p"
  by (simp add: trim_newlines_def)

lemma trim_id: "p \<noteq> [] \<Longrightarrow> last p \<noteq> newline \<Longrightarrow> trim_newlines p = p"
  by (cases p rule: rev_cases) (auto simp: trim_newlines_def)

fun unlines :: "string list \<Rightarrow> string" where
  "unlines [] = []"
| "unlines (l # ls) = l @ newline # unlines ls"

lemma unlines_last: "ls \<noteq> [] \<Longrightarrow> \<exists>ls' l. ls = ls' @ [l] \<and> unlines ls = unlines ls' @ l @ [newline]"
proof (induction ls)
  case (Cons l ls)
  then show ?case
  proof (cases ls)
    case Nil
    then have "l # ls = [] @ [l] \<and> unlines (l # ls) = unlines [] @ l @ [newline]" by simp
    then show ?thesis by blast
  next
    case (Cons k ks)
    then obtain ls' m where "ls = ls' @ [m]" "unlines ls = unlines ls' @ m @ [newline]"
      using Cons.IH by blast
    then have "l # ls = (l # ls') @ [m] \<and> unlines (l # ls) = unlines (l # ls') @ m @ [newline]" by simp
    then show ?thesis by blast
  qed
qed simp

lemma split_unlines:
  "list_all (\<lambda>l. newline \<notin> set l) ls \<Longrightarrow> newline \<notin> set l \<Longrightarrow> split_newline (unlines ls @ l) = ls @ [l]"
  by (induction ls) (auto simp: split_newline_line split_newline_single)

text \<open>
  Round trip of the log: a batch of non-empty lines, each ended by a newline as the logger
  does, is cut into exactly these lines, and all of them are passed on while there is room;
  what is passed on never contains a newline, whatever is written.
\<close>

lemma log_lines_roundtrip:
  assumes "list_all (\<lambda>l. l \<noteq> '''' \<and> newline \<notin> set l) ls" and "length ch + length ls \<le> bufSize"
  shows "snd (log_Write bufSize (unlines ls) ch) = ch @ ls \<and> newline \<notin> \<Union> (set ` set (log_lines p))"
proof
  have "log_lines (unlines ls) = ls"
  proof (cases "ls = []")
    case True
    then show ?thesis by (simp add: log_lines_def trim_newlines_def)
  next
    case False
    then obtain ls' l where ls: "ls = ls' @ [l]" "unlines ls = unlines ls' @ l @ [newline]"
      using unlines_last by blast
    then have l: "l \<noteq> ''''" "newline \<notin> set l" "list_all (\<lambda>l. newline \<notin> set l) ls'"
      using assms(1) by (auto simp: list_all_iff)
    then have "last l \<noteq> newline" using last_in_set by metis
    then have "trim_newlines (unlines ls) = unlines ls' @ l"
      using l ls(2) trim_snoc[of "unlines ls' @ l"] trim_id[of "unlines ls' @ l"] by simp
    moreover have "List.filter (\<lambda>l. l \<noteq> '''') ls = ls" using assms(1) by (simp add: list_all_iff)
    ultimately show ?thesis using split_unlines[OF l(3,2)] ls(1) by (simp add: log_lines_def)
  qed
  moreover have "length ch + length ls \<le> bufSize \<Longrightarrow> fold (offer bufSize) ls ch = ch @ ls"
    by (induction ls arbitrary: ch) (auto simp: offer_def)
  ultimately show "snd (log_Write bufSize (unlines ls) ch) = ch @ ls"
    using assms(2) by (simp add: log_Write_def)
  show "newline \<notin> \<Union> (set ` set (log_lines p))"
    using split_newline_no_newline by (auto simp: log_lines_def)
qed

end
