(* ===== verification/TuiTree.thy ===== *)
theory TuiTree
  imports Registry "HOL-Library.Sublist"
begin

text \<open>
  The path walks of \<^verbatim>\<open>tui/model.go\<close>: the ancestors of a path as the terminal interface computes
  them, the tree labels built from them, and their agreement with the server's own walk over
  package \<open>path\<close>.
\<close>

section \<open>One step up\<close>

text \<open>
  \<open>TrimRight\<close>, \<open>LastIndex\<close> and the slice before it; \<open>None\<close> when there is no slash left.
\<close>

definition trim_slashes :: "string \<Rightarrow> string" where
  "trim_slashes p = rev (dropWhile (\<lambda>c. c = CHR ''/'') (rev p))"

definition up_cand :: "string \<Rightarrow> string option" where
  "up_cand p =
     (let dir = trim_slashes p; pre = path_dir_part dir
      in if pre = '''' then None
         else if butlast pre = '''' then Some ''/'' else Some (butlast pre))"

lemma trim_slashes_length: "length (trim_slashes p) \<le> length p"
  using length_dropWhile_le[of "\<lambda>c. c = CHR ''/''" "rev p"] by (simp add: trim_slashes_def)

lemma trim_slashes_last: "trim_slashes p \<noteq> [] \<Longrightarrow> last (trim_slashes p) \<noteq> CHR ''/''"
  using hd_dropWhile[of "\<lambda>c. c = CHR ''/''" "rev p"] by (auto simp: trim_slashes_def last_rev)

text \<open>Every step shortens the path, so that the walks end.\<close>

lemma up_cand_shorter: "up_cand p = Some c \<Longrightarrow> length c < length p"
proof (cases rule: path_dir_part_cases[of "trim_slashes p"])
  case (2 s rest)
  assume c: "up_cand p = Some c"
  moreover have "up_cand p = Some (if s = '''' then ''/'' else s)" using 2(1) by (simp add: up_cand_def)
  ultimately have len: "length c \<le> length s + 1" "s \<noteq> '''' \<Longrightarrow> length c = length s" by (auto split: if_splits)
  have "rest \<noteq> []" using trim_slashes_last[of p] 2(2) by auto
  then have "length s + 2 \<le> length (trim_slashes p)" using 2(2) by (cases rest) auto
  then show ?thesis using len trim_slashes_length[of p] by linarith
qed (simp add: up_cand_def)

section \<open>The walk\<close>

text \<open>The loop of \<open>addDynamicEndpoint\<close> and \<open>buildTreeLabels\<close>: \<open>known\<close> reads a path has an entry.\<close>

function walk_up :: "(string \<Rightarrow> bool) \<Rightarrow> string \<Rightarrow> string \<Rightarrow> string option" where
  "walk_up known p tmp =
     (case up_cand tmp of
        None \<Rightarrow> None
      | Some c \<Rightarrow>
          if c \<noteq> p \<and> known c then Some c
          else if c = ''/'' then None
          else walk_up known p c)"
  by pat_completeness auto
termination
  by (relation "measure (\<lambda>(known, p, tmp). length tmp)") (auto simp: up_cand_shorter)

declare walk_up.simps [simp del]

lemma walk_up_known: "walk_up known p tmp = Some c \<Longrightarrow> known c \<and> length c < length tmp"
proof (induction known p tmp rule: walk_up.induct)
  case (1 known p tmp)
  then show ?case
    by (subst (asm) (2) walk_up.simps) (force split: option.splits if_splits dest: up_cand_shorter)
qed

text \<open>The loop that counts the ancestors: it starts at the parent and moves on while it finds one.\<close>

function count_up :: "(string \<Rightarrow> bool) \<Rightarrow> string \<Rightarrow> nat" where
  "count_up known ancestor =
     (if ancestor = '''' then 0
      else case walk_up known ancestor ancestor of
             None \<Rightarrow> 1
           | Some a \<Rightarrow> Suc (count_up known a))"
  by pat_completeness auto
termination
  by (relation "measure (\<lambda>(known, a). length a)") (auto simp: walk_up_known)

declare count_up.simps [simp del]

text \<open>The reference: the candidates above a path, nearest first.\<close>

function up_chain :: "string \<Rightarrow> string list" where
  "up_chain p =
     (case up_cand p of
        None \<Rightarrow> []
      | Some c \<Rightarrow> if c = ''/'' then [c] else c # up_chain c)"
  by pat_completeness auto
termination
  by (relation "measure length") (auto simp: up_cand_shorter)

declare up_chain.simps [simp del]

lemma up_chain_induct [case_names top root step]:
  assumes "\<And>p. up_cand p = None \<Longrightarrow> up_chain p = [] \<Longrightarrow> P p"
    and "\<And>p. up_cand p = Some ''/'' \<Longrightarrow> up_chain p = [''/''] \<Longrightarrow> P p"
    and "\<And>p c. up_cand p = Some c \<Longrightarrow> c \<noteq> ''/'' \<Longrightarrow> up_chain p = c # up_chain c \<Longrightarrow> P c \<Longrightarrow> P p"
  shows "P p"
proof (induction p rule: up_chain.induct)
  case (1 p)
  show ?case
  proof (cases "up_cand p")
    case None
    then show ?thesis using assms(1) by (simp add: up_chain.simps[of p])
  next
    case (Some c)
    then show ?thesis using assms(2)[of p] assms(3)[of p c] 1
      by (cases "c = ''/''") (simp_all add: up_chain.simps[of p])
  qed
qed

lemma up_chain_shorter: "c \<in> set (up_chain p) \<Longrightarrow> length c < length p"
proof (induction p rule: up_chain_induct)
  case (root p)
  then show ?case using up_cand_shorter[OF root(1)] by simp
next
  case (step p d)
  then show ?case using up_cand_shorter[OF step(1)] by force
qed simp

lemma up_cand_root [simp]: "up_cand ''/'' = None" "up_cand '''' = None"
  by (simp_all add: up_cand_def trim_slashes_def path_dir_part_def)

lemma up_chain_root [simp]: "up_chain ''/'' = []" "up_chain '''' = []"
  by (simp_all add: up_chain.simps)

lemma up_chain_nonempty: "'''' \<notin> set (up_chain p)"
proof (induction p rule: up_chain_induct)
  case (step p c)
  then have "c \<noteq> ''''" by (auto simp: up_cand_def Let_def split: if_splits)
  then show ?case using step by simp
qed simp_all

lemma walk_up_find: "length tmp \<le> length p \<Longrightarrow> walk_up known p tmp = List.find known (up_chain tmp)"
proof (induction known p tmp rule: walk_up.induct)
  case (1 known p tmp)
  show ?case
  proof (cases "up_cand tmp")
    case None
    then show ?thesis by (simp add: walk_up.simps[of _ _ tmp] up_chain.simps[of tmp])
  next
    case (Some c)
    then have "length c < length p" using up_cand_shorter 1(2) by fastforce
    then show ?thesis using Some 1
      by (auto simp: walk_up.simps[of _ _ tmp] up_chain.simps[of tmp])
  qed
qed

lemma up_chain_suffix: "List.find known (up_chain p) = Some a \<Longrightarrow>
  length (List.filter known (up_chain p)) = Suc (length (List.filter known (up_chain a)))"
proof (induction p rule: up_chain_induct)
  case (root p)
  then show ?case by (auto split: if_splits)
next
  case (step p c)
  then show ?case by (cases "known c") simp_all
qed simp

lemma count_up_length: "a \<noteq> '''' \<Longrightarrow> count_up known a = Suc (length (List.filter known (up_chain a)))"
proof (induction known a rule: count_up.induct)
  case (1 known a)
  have w: "walk_up known a a = List.find known (up_chain a)" by (rule walk_up_find) simp
  show ?case
  proof (cases "List.find known (up_chain a)")
    case None
    then have "List.filter known (up_chain a) = []" by (auto simp: find_None_iff filter_empty_conv)
    then show ?thesis using None w 1(2) by (simp add: count_up.simps[of _ a])
  next
    case (Some b)
    then have "b \<in> set (up_chain a)" by (auto simp: find_Some_iff)
    then have "b \<noteq> ''''" using up_chain_nonempty[of a] by blast
    then show ?thesis using Some w 1 up_chain_suffix[OF Some] by (simp add: count_up.simps[of _ a])
  qed
qed

section \<open>Labels\<close>

record tree_entry =
  te_label :: string
  te_depth :: nat
  te_dynamic :: bool

definition trim_prefix :: "string \<Rightarrow> string \<Rightarrow> string" where
  "trim_prefix pre s = (if prefix pre s then drop (length pre) s else s)"

text \<open>One turn of the loop, for the path \<open>p\<close>; the empty string stands for no parent.\<close>

definition tree_label :: "(string \<Rightarrow> bool) \<Rightarrow> string \<Rightarrow> bool \<Rightarrow> tree_entry" where
  "tree_label known p dyn =
     (let parent = (case walk_up known p p of None \<Rightarrow> '''' | Some c \<Rightarrow> c)
      in if parent = '''' \<or> parent = p then \<lparr>te_label = p, te_depth = 0, te_dynamic = dyn\<rparr>
         else let depth = count_up known parent;
                  label = trim_prefix ''/'' (trim_prefix parent p)
              in \<lparr>te_label = label, te_depth = (if 3 < depth then 3 else depth), te_dynamic = dyn\<rparr>)"

text \<open>\<open>buildTreeLabels\<close> reads the path and the dynamic mark of every row.\<close>

definition buildTreeLabels :: "(string \<times> bool) list \<Rightarrow> tree_entry list" where
  "buildTreeLabels rows =
     List.map (\<lambda>(p, dyn). tree_label (\<lambda>q. q \<in> fst ` set rows) p dyn) rows"

lemma up_cand_prefix: "up_cand p = Some c \<Longrightarrow> prefix c p"
proof (cases rule: path_dir_part_cases[of "trim_slashes p"])
  case (2 s rest)
  assume "up_cand p = Some c"
  then have "c = (if s = '''' then ''/'' else s)" using 2(1) by (auto simp: up_cand_def)
  moreover obtain zs where "p = trim_slashes p @ zs"
    using takeWhile_dropWhile_id[of "\<lambda>c. c = CHR ''/''" "rev p"]
    by (metis rev_append rev_rev_ident trim_slashes_def)
  ultimately show ?thesis using 2(2) by (auto simp: prefix_def)
qed (simp add: up_cand_def)

lemma up_chain_prefix: "c \<in> set (up_chain p) \<Longrightarrow> prefix c p"
proof (induction p rule: up_chain_induct)
  case (root p)
  then show ?case using up_cand_prefix[OF root(1)] by simp
next
  case (step p d)
  then show ?case using up_cand_prefix[OF step(1)] by (auto intro: prefix_order.trans)
qed simp


section \<open>Agreement with the server's walk\<close>

text \<open>The clean paths: no empty, dot or dot-dot segment and no slash at the end.\<close>

definition seg_ok :: "string \<Rightarrow> bool" where
  "seg_ok s \<longleftrightarrow> s \<noteq> '''' \<and> CHR ''/'' \<notin> set s \<and> s \<noteq> ''.'' \<and> s \<noteq> ''..''"

definition mk_path :: "string list \<Rightarrow> string" where
  "mk_path segs = concat (List.map (Cons (CHR ''/'')) segs)"

lemma mk_path_snoc: "mk_path (segs @ [s]) = mk_path segs @ CHR ''/'' # s"
  by (simp add: mk_path_def)

lemma mk_path_Nil [simp]: "mk_path segs = [] \<longleftrightarrow> segs = []"
  by (cases segs) (auto simp: mk_path_def)

lemma path_dir_part_slash: "CHR ''/'' \<notin> set s \<Longrightarrow> path_dir_part (x @ CHR ''/'' # s) = x @ ''/''"
  by (simp add: path_dir_part_def dropWhile_append3 dropWhile_append)

lemma up_cand_mk:
  "seg_ok s \<Longrightarrow> up_cand (mk_path (segs @ [s])) = Some (if segs = [] then ''/'' else mk_path segs)"
proof -
  assume s: "seg_ok s"
  then have "trim_slashes (mk_path (segs @ [s])) = mk_path (segs @ [s])"
    by (cases s rule: rev_cases) (auto simp: trim_slashes_def mk_path_snoc seg_ok_def)
  then show ?thesis using s by (simp add: up_cand_def mk_path_snoc path_dir_part_slash seg_ok_def)
qed

lemma split_slash_seg: "CHR ''/'' \<notin> set s \<Longrightarrow> split_slash (s @ x) = (s @ hd (split_slash x)) # tl (split_slash x)"
proof (induction s)
  case Nil
  then show ?case by (cases "split_slash x") auto
qed auto

lemma split_slash_mk: "list_all seg_ok segs \<Longrightarrow> split_slash (mk_path segs) = [] # segs"
proof (induction segs)
  case (Cons s segs)
  then show ?case using split_slash_seg[of s "mk_path segs"] by (simp add: mk_path_def seg_ok_def)
qed (simp add: mk_path_def)

lemma clean_fold_segs: "list_all seg_ok segs \<Longrightarrow> foldl (clean_seg True) st segs = rev segs @ st"
  by (induction segs arbitrary: st) (auto simp: clean_seg_def seg_ok_def)

lemma join_slash_mk: "segs \<noteq> [] \<Longrightarrow> CHR ''/'' # join_slash segs = mk_path segs"
  by (induction segs rule: join_slash.induct) (auto simp: mk_path_def)

lemma path_Clean_mk: "list_all seg_ok segs \<Longrightarrow> segs \<noteq> [] \<Longrightarrow> path_Clean (mk_path segs) = mk_path segs"
proof -
  assume s: "list_all seg_ok segs" "segs \<noteq> []"
  then have "hd (mk_path segs) = CHR ''/''" by (cases segs) (auto simp: mk_path_def)
  moreover have "foldl (clean_seg True) [] ([] # segs) = rev segs"
    using clean_fold_segs[OF s(1), of "[]"] by (simp add: clean_seg_def)
  ultimately show ?thesis using s by (simp add: path_Clean_def split_slash_mk join_slash_mk)
qed

lemma path_Dir_mk:
  "list_all seg_ok (segs @ [s]) \<Longrightarrow> path_Dir (mk_path (segs @ [s])) = (if segs = [] then ''/'' else mk_path segs)"
proof -
  assume s: "list_all seg_ok (segs @ [s])"
  then have d: "path_dir_part (mk_path (segs @ [s])) = mk_path segs @ ''/''"
    by (simp add: mk_path_snoc path_dir_part_slash seg_ok_def)
  show ?thesis
  proof (cases "segs = []")
    case True
    then show ?thesis using d by (simp add: path_Dir_def mk_path_def path_Clean_def clean_seg_def)
  next
    case False
    then show ?thesis using d s path_Clean_snoc[of "mk_path segs"] path_Clean_mk[of segs] by (simp add: path_Dir_def)
  qed
qed

lemma mk_path_not_root: "list_all seg_ok segs \<Longrightarrow> mk_path segs \<noteq> ''/'' \<and> mk_path segs \<noteq> ''.''"
  by (cases segs) (auto simp: mk_path_def seg_ok_def Cons_eq_append_conv)

text \<open>
  On clean paths the interface finds the same parent as the server: the hand-written walk and
  the walk over \<open>path.Dir\<close> agree.
\<close>

lemma walks_agree:
  assumes "list_all seg_ok segs" and "segs \<noteq> []"
  shows "walk_up known (mk_path segs) (mk_path segs) = find_parent known (mk_path segs)"
proof -
  have "find_parent known (mk_path segs) = List.find known (up_chain (mk_path segs))"
    using assms
  proof (induction segs rule: rev_induct)
    case (snoc s segs)
    let ?c = "if segs = [] then ''/'' else mk_path segs"
    have up: "up_cand (mk_path (segs @ [s])) = Some ?c" and dir: "path_Dir (mk_path (segs @ [s])) = ?c"
      using up_cand_mk path_Dir_mk snoc.prems(1) by auto
    note unroll = find_parent.simps[of known "mk_path (segs @ [s])", unfolded dir]
      up_chain.simps[of "mk_path (segs @ [s])", unfolded up]
    show ?case unfolding unroll
      using snoc mk_path_not_root[of segs] by (cases "segs = []") (simp_all add: Let_def)
  qed simp
  then show ?thesis by (simp add: walk_up_find)
qed

end
