(* ===== verification/TuiModel.thy ===== *)
theory TuiModel
  imports TuiTree AttachHub
begin

text \<open>
  \<^verbatim>\<open>tui/model.go\<close>: the state of the terminal interface and its update function. Times are
  nanoseconds; \<open>rand.Intn\<close> is a draw, as in the random queue. The registry, when the interface
  runs inside the server, is the snapshot that a tick reads. Commands are values; the text of the
  status bar is kept as what it is formatted from.
\<close>

section \<open>State\<close>

record endpoint_state =
  st_cfg :: endpoint_config
  enqueuedAt :: "int list"
  served :: int
  rejected :: int
  waitSamples :: "int list"
  lastWaitMs :: int
  totalWaitMs :: int
  st_dynamic :: bool

definition new_state :: "endpoint_config \<Rightarrow> bool \<Rightarrow> endpoint_state" where
  "new_state c dyn =
     \<lparr>st_cfg = c, enqueuedAt = [], served = 0, rejected = 0, waitSamples = [], lastWaitMs = 0,
      totalWaitMs = 0, st_dynamic = dyn\<rparr>"

abbreviation st_path :: "endpoint_state \<Rightarrow> string" where
  "st_path st \<equiv> Path (st_cfg st)"

datatype status = NoStatus | Disconnected | StatsReset string | ServedStatus string int int

record tui_model =
  rows :: "endpoint_state list"
  selected :: int
  paused :: bool
  width :: int
  height :: int
  logLines :: "string list"
  serverAddr :: string
  lastStatus :: status
  warnAfter :: int
  critAfter :: int
  showInfo :: bool
  attachedPID :: int
  treeLabels :: "tree_entry list"

record dot_thresholds =
  Warn :: int
  Crit :: int

definition DefaultDotThresholds :: dot_thresholds where
  "DefaultDotThresholds = \<lparr>Warn = 2 * 10 ^ 9, Crit = 5 * 10 ^ 9\<rparr>"

definition labels_of :: "endpoint_state list \<Rightarrow> tree_entry list" where
  "labels_of sts = buildTreeLabels (List.map (\<lambda>st. (st_path st, st_dynamic st)) sts)"

text \<open>The rows are filled from the snapshots of an attached server, the first row of a path each.\<close>

fun seed_row :: "int \<Rightarrow> endpoint_snapshot \<Rightarrow> endpoint_state list \<Rightarrow> endpoint_state list" where
  "seed_row now snap [] = []"
| "seed_row now snap (st # sts) =
     (if st_path st = snap_Path snap \<and> snap_QueueDepth snap > 0
      then st\<lparr>enqueuedAt := replicate (nat (snap_QueueDepth snap)) now\<rparr> # sts
      else st # seed_row now snap sts)"

definition NewModel ::
  "config \<Rightarrow> dot_thresholds \<Rightarrow> int \<Rightarrow> endpoint_snapshot list \<Rightarrow> int \<Rightarrow> tui_model" where
  "NewModel c thresholds pid snapshots now =
     (let states = fold (seed_row now) snapshots (List.map (\<lambda>e. new_state e False) (Endpoints c))
      in \<lparr>rows = states, selected = 0, paused = False, width = 80, height = 24, logLines = [],
          serverAddr = ''http://'' @ Host (Server c) @ '':'' @ Itoa (Port (Server c)),
          lastStatus = NoStatus, warnAfter = Warn thresholds, critAfter = Crit thresholds,
          showInfo = True, attachedPID = pid, treeLabels = labels_of states\<rparr>)"

section \<open>Samples\<close>

definition appendSample :: "int list \<Rightarrow> int \<Rightarrow> int list" where
  "appendSample samples v =
     (let s = samples @ [v] in if 200 < length s then drop (length s - 200) s else s)"

definition computePercentiles :: "int list \<Rightarrow> int \<times> int \<times> int" where
  "computePercentiles samples =
     (let n = length samples; cp = sort samples
      in if n = 0 then (0, 0, 0)
         else (cp ! ((n - 1) * 50 div 100), cp ! ((n - 1) * 90 div 100), cp ! ((n - 1) * 99 div 100)))"

section \<open>Discovery\<close>

fun indexForPath :: "string \<Rightarrow> endpoint_state list \<Rightarrow> nat option" where
  "indexForPath p [] = None"
| "indexForPath p (st # sts) = (if st_path st = p then Some 0 else map_option Suc (indexForPath p sts))"

definition fallback_config :: "string \<Rightarrow> endpoint_config" where
  "fallback_config p =
     zero_endpoint\<lparr>Path := p, Dynamic := True, Rate := Fin 1, Unit := ''rps'', Scheduler := ''fifo'',
       Algorithm := ''strict'', MaxQueueSize := 1000, Overflow := ''reject''\<rparr>"

fun insert_row :: "endpoint_state \<Rightarrow> endpoint_state list \<Rightarrow> endpoint_state list" where
  "insert_row new [] = [new]"
| "insert_row new (st # sts) = (if st_path new < st_path st then new # st # sts else st # insert_row new sts)"

definition discovered_config :: "string \<Rightarrow> endpoint_state list \<Rightarrow> endpoint_config" where
  "discovered_config p sts =
     (case walk_up (\<lambda>q. indexForPath q sts \<noteq> None) p p of
        Some q \<Rightarrow> dynamic_config p (st_cfg (sts ! the (indexForPath q sts)))
      | None \<Rightarrow> fallback_config p)"

definition addDynamicEndpoint :: "string \<Rightarrow> tui_model \<Rightarrow> tui_model" where
  "addDynamicEndpoint p m =
     (let sts = insert_row (new_state (discovered_config p (rows m)) True) (rows m)
      in m\<lparr>rows := sts, treeLabels := labels_of sts,
           selected := (if selected m \<ge> int (length sts) then int (length sts) - 1 else selected m)\<rparr>)"

text \<open>\<open>existing\<close> maps a path to the last row that has it.\<close>

definition syncEndpoints :: "endpoint_info list option \<Rightarrow> tui_model \<Rightarrow> tui_model" where
  "syncEndpoints reg m =
     (case reg of
        None \<Rightarrow> m
      | Some snap \<Rightarrow>
          (let sts = List.map (\<lambda>info.
                 case List.find (\<lambda>st. st_path st = Path (Config info)) (rev (rows m)) of
                   Some st \<Rightarrow> st\<lparr>st_cfg := Config info, st_dynamic := Dynamic (Config info)\<rparr>
                 | None \<Rightarrow> new_state (Config info) (Dynamic (Config info))) snap;
               sel = (if selected m \<ge> int (length sts) then int (length sts) - 1 else selected m)
           in m\<lparr>rows := sts, treeLabels := labels_of sts, selected := (if sel < 0 then 0 else sel)\<rparr>))"

section \<open>Events\<close>

definition dot_add :: "int \<Rightarrow> nat \<Rightarrow> endpoint_state \<Rightarrow> endpoint_state" where
  "dot_add now r st =
     (let q = enqueuedAt st
      in st\<lparr>enqueuedAt :=
             (if Scheduler (st_cfg st) = ''lifo'' then now # q
              else if Scheduler (st_cfg st) = ''random'' then
                (let pos = Intn r (length q + 1) in take pos q @ now # drop pos q)
              else q @ [now])\<rparr>)"

definition dot_remove :: "nat \<Rightarrow> endpoint_state \<Rightarrow> endpoint_state" where
  "dot_remove r st =
     (let q = enqueuedAt st
      in if q = [] then st
         else st\<lparr>enqueuedAt :=
                 (if Scheduler (st_cfg st) = ''random'' then
                    (let i = Intn r (length q) in take i q @ drop (i + 1) q)
                  else tl q)\<rparr>)"

definition count_served :: "int \<Rightarrow> endpoint_state \<Rightarrow> endpoint_state" where
  "count_served waited st =
     st\<lparr>served := i64 (served st + 1), lastWaitMs := waited, totalWaitMs := i64 (totalWaitMs st + waited),
        waitSamples := appendSample (waitSamples st) waited\<rparr>"

fun event_row :: "int \<Rightarrow> nat \<Rightarrow> event \<Rightarrow> endpoint_state \<Rightarrow> endpoint_state" where
  "event_row now r (EventQueued p prio) st = dot_add now r st"
| "event_row now r (EventServed p waited depth) st = count_served waited (dot_remove r st)"
| "event_row now r (EventRejected p) st = st\<lparr>rejected := i64 (rejected st + 1)\<rparr>"

fun ev_path :: "event \<Rightarrow> string" where
  "ev_path (EventQueued p prio) = p"
| "ev_path (EventServed p waited depth) = p"
| "ev_path (EventRejected p) = p"

datatype cmd = Quit | TickEvery | WaitForEvent | WaitForLog | Bel | Inject string string

definition ensure_row :: "string \<Rightarrow> tui_model \<Rightarrow> tui_model" where
  "ensure_row p m = (if indexForPath p (rows m) = None then addDynamicEndpoint p m else m)"

definition handleServerEvent :: "int \<Rightarrow> nat \<Rightarrow> event \<Rightarrow> tui_model \<Rightarrow> tui_model \<times> cmd list" where
  "handleServerEvent now r ev m =
     (let m1 = ensure_row (ev_path ev) m
      in case indexForPath (ev_path ev) (rows m1) of
           None \<Rightarrow> (m1, [])
         | Some i \<Rightarrow>
             (let m2 = m1\<lparr>rows := (rows m1)[i := event_row now r ev (rows m1 ! i)]\<rparr>
              in case ev of
                   EventServed p waited depth \<Rightarrow>
                     (m2\<lparr>lastStatus := ServedStatus p waited depth\<rparr>, if int i = selected m2 then [Bel] else [])
                 | _ \<Rightarrow> (m2, [])))"

section \<open>Keys and messages\<close>

definition reset_stats :: "endpoint_state \<Rightarrow> endpoint_state" where
  "reset_stats st = st\<lparr>served := 0, rejected := 0, waitSamples := [], lastWaitMs := 0, totalWaitMs := 0\<rparr>"

definition handleKey :: "string \<Rightarrow> tui_model \<Rightarrow> tui_model \<times> cmd list" where
  "handleKey key m =
     (if key = ''q'' \<or> key = ''ctrl+c'' then (m, [Quit])
      else if key = ''up'' \<or> key = ''k'' then
        (if selected m > 0 then m\<lparr>selected := selected m - 1\<rparr> else m, [])
      else if key = ''down'' \<or> key = ''j'' then
        (if selected m < int (length (rows m)) - 1 then m\<lparr>selected := selected m + 1\<rparr> else m, [])
      else if key = ''r'' then
        (if length (rows m) > 0 \<and> selected m < int (length (rows m))
         then let i = nat (selected m)
              in (m\<lparr>rows := (rows m)[i := reset_stats (rows m ! i)],
                    lastStatus := StatsReset (st_path (rows m ! i))\<rparr>, [])
         else (m, []))
      else if key = ''p'' then (m\<lparr>paused := \<not> paused m\<rparr>, [])
      else if key = ''i'' then (m\<lparr>showInfo := \<not> showInfo m\<rparr>, [])
      else if key = '' '' then
        (if length (rows m) > 0 \<and> selected m < int (length (rows m))
         then (m, [Inject (serverAddr m) (st_path (rows m ! nat (selected m)))])
         else (m, []))
      else (m, []))"

text \<open>
  The messages of the runtime. A server event carries the time and the draw its handling uses, a
  tick the snapshot it would read.
\<close>

datatype tui_msg =
    WindowSize int int
  | KeyPress string
  | TickMsg "endpoint_info list option"
  | ServerEvent int nat event
  | DisconnectedMsg
  | LogLine string
  | OtherMsg

fun Update :: "tui_msg \<Rightarrow> tui_model \<Rightarrow> tui_model \<times> cmd list" where
  "Update (WindowSize w h) m = (m\<lparr>width := w, height := h\<rparr>, [])"
| "Update (KeyPress k) m = handleKey k m"
| "Update (TickMsg reg) m = (if paused m then m else syncEndpoints reg m, [TickEvery])"
| "Update (ServerEvent now r ev) m =
     (if \<not> paused m then (let (m1, c) = handleServerEvent now r ev m in (m1, c @ [WaitForEvent]))
      else (m, [WaitForEvent]))"
| "Update DisconnectedMsg m = (m\<lparr>lastStatus := Disconnected\<rparr>, [Quit])"
| "Update (LogLine l) m =
     (let ls = logLines m @ [l]
      in (m\<lparr>logLines := (if 200 < length ls then drop (length ls - 200) ls else ls)\<rparr>, [WaitForLog]))"
| "Update OtherMsg m = (m, [])"

definition Init :: "cmd list" where
  "Init = [WaitForEvent, WaitForLog, TickEvery]"

text \<open>\<open>waitForEvent\<close> and \<open>waitForLog\<close>: a value, or the closed channel (\<open>None\<close>).\<close>

definition event_msg :: "int \<Rightarrow> nat \<Rightarrow> event option \<Rightarrow> tui_msg" where
  "event_msg now r v = (case v of Some ev \<Rightarrow> ServerEvent now r ev | None \<Rightarrow> DisconnectedMsg)"

definition log_msg :: "string option \<Rightarrow> tui_msg" where
  "log_msg v = (case v of Some l \<Rightarrow> LogLine l | None \<Rightarrow> DisconnectedMsg)"

definition tui_run :: "tui_msg list \<Rightarrow> tui_model \<Rightarrow> tui_model" where
  "tui_run msgs m = fold (\<lambda>x m. fst (Update x m)) msgs m"

section \<open>Rows\<close>

lemma labels_of_update:
  "i < length sts \<Longrightarrow> st_path st = st_path (sts ! i) \<Longrightarrow> st_dynamic st = st_dynamic (sts ! i)
   \<Longrightarrow> labels_of (sts[i := st]) = labels_of sts"
proof -
  let ?f = "\<lambda>st. (st_path st, st_dynamic st)"
  assume "i < length sts" "st_path st = st_path (sts ! i)" "st_dynamic st = st_dynamic (sts ! i)"
  then have "List.map ?f (sts[i := st]) = List.map ?f sts"
    by (subst map_update, subst list_update_same_conv) simp_all
  then show ?thesis by (simp add: labels_of_def)
qed

lemma length_labels_of [simp]: "length (labels_of sts) = length sts"
  by (simp add: labels_of_def buildTreeLabels_def)

lemma indexForPath_Some: "indexForPath p sts = Some i \<Longrightarrow> i < length sts \<and> st_path (sts ! i) = p"
  by (induction sts arbitrary: i) (auto split: if_splits)

lemma indexForPath_None: "indexForPath p sts = None \<longleftrightarrow> p \<notin> st_path ` set sts"
  by (induction sts) auto

lemma insert_row_set [simp]: "set (insert_row new sts) = insert new (set sts)"
  by (induction sts) auto

lemma insert_row_length [simp]: "length (insert_row new sts) = Suc (length sts)"
  by (induction sts) auto

lemma event_row_cfg [simp]:
  "st_cfg (event_row now r ev st) = st_cfg st" "st_dynamic (event_row now r ev st) = st_dynamic st"
  by (cases ev; simp add: dot_add_def dot_remove_def count_served_def Let_def)+

lemma appendSample_length: "length s \<le> 200 \<Longrightarrow> length (appendSample s v) \<le> 200"
  by (simp add: appendSample_def Let_def)

lemma event_row_samples:
  "length (waitSamples st) \<le> 200 \<Longrightarrow> length (waitSamples (event_row now r ev st)) \<le> 200"
  by (cases ev) (simp_all add: dot_add_def dot_remove_def count_served_def Let_def appendSample_length)

lemma reset_stats_simps [simp]:
  "st_cfg (reset_stats st) = st_cfg st" "st_dynamic (reset_stats st) = st_dynamic st"
  "waitSamples (reset_stats st) = []" "enqueuedAt (reset_stats st) = enqueuedAt st"
  by (simp_all add: reset_stats_def)

section \<open>The invariant\<close>

definition rows_ok :: "endpoint_state list \<Rightarrow> bool" where
  "rows_ok sts \<longleftrightarrow> list_all (\<lambda>st. length (waitSamples st) \<le> 200) sts"

definition tui_inv :: "tui_model \<Rightarrow> bool" where
  "tui_inv m \<longleftrightarrow>
     0 \<le> selected m \<and> selected m < max 1 (int (length (rows m)))
     \<and> treeLabels m = labels_of (rows m) \<and> rows_ok (rows m) \<and> length (logLines m) \<le> 200"

lemma rows_ok_update: "rows_ok sts \<Longrightarrow> length (waitSamples st) \<le> 200 \<Longrightarrow> rows_ok (sts[i := st])"
  using set_update_subset_insert[of sts i st] by (auto simp: rows_ok_def list_all_iff)

lemma rows_ok_seed: "rows_ok sts \<Longrightarrow> rows_ok (seed_row now snap sts)"
  by (induction sts) (auto simp: rows_ok_def)

lemma rows_ok_seeds: "rows_ok sts \<Longrightarrow> rows_ok (fold (seed_row now) snaps sts)"
  by (induction snaps arbitrary: sts) (auto simp: rows_ok_seed)

lemma NewModel_inv: "tui_inv (NewModel c thresholds pid snapshots now)"
  using rows_ok_seeds[of "List.map (\<lambda>e. new_state e False) (Endpoints c)" now snapshots]
  by (simp add: tui_inv_def NewModel_def Let_def rows_ok_def list_all_iff new_state_def)

lemma addDynamicEndpoint_inv: "tui_inv m \<Longrightarrow> tui_inv (addDynamicEndpoint p m)"
  by (auto simp: tui_inv_def addDynamicEndpoint_def Let_def rows_ok_def list_all_iff new_state_def)

lemma syncEndpoints_inv: "tui_inv m \<Longrightarrow> tui_inv (syncEndpoints reg m)"
proof (cases reg)
  case (Some snap)
  assume inv: "tui_inv m"
  have "length (waitSamples st) \<le> 200" if "List.find P (rev (rows m)) = Some st" for P st
    using that inv by (auto simp: tui_inv_def rows_ok_def list_all_iff dest!: find_Some_iff[THEN iffD1])
      (metis length_rev nth_mem set_rev)
  then show ?thesis using inv Some
    by (auto simp: tui_inv_def syncEndpoints_def Let_def rows_ok_def list_all_iff new_state_def
        split: option.splits)
qed (simp add: syncEndpoints_def)

lemma tui_inv_row:
  assumes "tui_inv m" and "i < length (rows m)" and "st_path st = st_path (rows m ! i)"
    and "st_dynamic st = st_dynamic (rows m ! i)" and "length (waitSamples st) \<le> 200"
  shows "tui_inv (m\<lparr>rows := (rows m)[i := st]\<rparr>)"
  using assms by (simp add: tui_inv_def labels_of_update rows_ok_update)

lemma tui_inv_status [simp]: "tui_inv (m\<lparr>lastStatus := s\<rparr>) = tui_inv m"
  by (simp add: tui_inv_def)

lemma rows_ok_nth: "tui_inv m \<Longrightarrow> i < length (rows m) \<Longrightarrow> length (waitSamples (rows m ! i)) \<le> 200"
  by (simp add: tui_inv_def rows_ok_def list_all_length)

lemma ensure_row_index: "indexForPath p (rows (ensure_row p m)) \<noteq> None"
  by (auto simp: ensure_row_def addDynamicEndpoint_def Let_def indexForPath_None new_state_def
      discovered_config_def dynamic_config_def fallback_config_def InheritFrom_bare split: option.splits)

text \<open>The effect of an event on the rows: one row, which there is, is updated.\<close>

lemma handleServerEvent_effect:
  obtains i s where "i < length (rows (ensure_row (ev_path ev) m))"
    and "indexForPath (ev_path ev) (rows (ensure_row (ev_path ev) m)) = Some i"
    and "fst (handleServerEvent now r ev m) =
      (let m1 = ensure_row (ev_path ev) m
       in m1\<lparr>rows := (rows m1)[i := event_row now r ev (rows m1 ! i)], lastStatus := s\<rparr>)"
proof -
  let ?m1 = "ensure_row (ev_path ev) m"
  obtain i where i: "indexForPath (ev_path ev) (rows ?m1) = Some i" using ensure_row_index by blast
  define m1 where "m1 = ?m1"
  have "\<exists>s. fst (handleServerEvent now r ev m) =
      m1\<lparr>rows := (rows m1)[i := event_row now r ev (rows m1 ! i)], lastStatus := s\<rparr>"
  proof (cases ev)
    case (EventServed p waited depth)
    then show ?thesis using i unfolding handleServerEvent_def m1_def[symmetric] Let_def
      by (intro exI[of _ "ServedStatus p waited depth"]) simp
  qed (use i in \<open>unfold handleServerEvent_def m1_def[symmetric] Let_def,
      auto intro: exI[of _ "lastStatus m1"]\<close>)
  then show ?thesis using that indexForPath_Some[OF i] i by (auto simp: m1_def Let_def)
qed

lemma handleServerEvent_inv: "tui_inv m \<Longrightarrow> tui_inv (fst (handleServerEvent now r ev m))"
proof (rule handleServerEvent_effect[of ev m now r])
  fix i s
  let ?m1 = "ensure_row (ev_path ev) m"
  assume "tui_inv m" and i: "i < length (rows ?m1)" "indexForPath (ev_path ev) (rows ?m1) = Some i"
    and e: "fst (handleServerEvent now r ev m) = (let m1 = ?m1
       in m1\<lparr>rows := (rows m1)[i := event_row now r ev (rows m1 ! i)], lastStatus := s\<rparr>)"
  then have inv1: "tui_inv ?m1" using addDynamicEndpoint_inv by (simp add: ensure_row_def)
  then have "tui_inv (?m1\<lparr>rows := (rows ?m1)[i := event_row now r ev (rows ?m1 ! i)]\<rparr>)"
    using i by (intro tui_inv_row) (auto intro: event_row_samples rows_ok_nth)
  then show ?thesis using e by (simp add: Let_def)
qed

lemma handleKey_inv: "tui_inv m \<Longrightarrow> tui_inv (fst (handleKey key m))"
proof -
  assume inv: "tui_inv m"
  have "tui_inv (m\<lparr>rows := (rows m)[nat (selected m) := reset_stats (rows m ! nat (selected m))]\<rparr>)"
    if "selected m < int (length (rows m))"
    using inv that by (intro tui_inv_row) (auto simp: tui_inv_def)
  then show ?thesis using inv by (auto simp: handleKey_def Let_def tui_inv_def)
qed

lemma Update_inv: "tui_inv m \<Longrightarrow> tui_inv (fst (Update msg m))"
proof (cases msg)
  case (ServerEvent now r ev)
  assume "tui_inv m"
  then show ?thesis using ServerEvent handleServerEvent_inv[of m now r ev]
    by (cases "handleServerEvent now r ev m") simp
qed (auto simp: handleKey_inv syncEndpoints_inv, auto simp: tui_inv_def Let_def)

lemma tui_run_inv: "tui_inv m \<Longrightarrow> tui_inv (tui_run msgs m)"
  unfolding tui_run_def by (induction msgs arbitrary: m) (auto simp: Update_inv)

text \<open>
  C23. Whatever keys, events, ticks and log lines arrive and in whatever order, the interface keeps
  a selection that points at a row (or at the first position when there are none), tree
  labels that are those of the rows it shows, and bounded histories.
\<close>

theorem tui_stays_consistent:
  "let m = tui_run msgs (NewModel c thresholds pid snapshots now)
   in 0 \<le> selected m \<and> selected m < max 1 (int (length (rows m)))
     \<and> treeLabels m = labels_of (rows m)
     \<and> list_all (\<lambda>st. length (waitSamples st) \<le> 200) (rows m) \<and> length (logLines m) \<le> 200"
  using tui_run_inv[OF NewModel_inv, of msgs c thresholds pid snapshots now]
  by (simp add: tui_inv_def rows_ok_def Let_def)

end
