(* ===== verification/TuiView.thy ===== *)
theory TuiView
  imports TuiModel
begin

text \<open>
  \<^verbatim>\<open>View\<close> of \<^verbatim>\<open>tui/model.go\<close> and the rendering of its columns. Strings are byte strings.
  The styling library is a pair of arguments: \<open>render\<close> applies a style to a text, \<open>fit\<close> a style
  with a width. \<open>strings.Repeat\<close> and slices panic as they do in Go, and the theorem at the end says
  that they never do here. Texts other than paths are ASCII; a negative zero rate, which the
  number model does not keep, would be shown with its sign.
\<close>

section \<open>Panicking expressions\<close>

definition obind :: "'a outcome \<Rightarrow> ('a \<Rightarrow> 'b outcome) \<Rightarrow> 'b outcome" where
  "obind x f = (case x of Ok a \<Rightarrow> f a | Err e \<Rightarrow> Err e | Panic m \<Rightarrow> Panic m)"

lemma obind_Ok [simp]: "obind (Ok a) f = f a"
  by (simp add: obind_def)

fun collect :: "('a \<Rightarrow> 'b outcome) \<Rightarrow> 'a list \<Rightarrow> 'b list outcome" where
  "collect f [] = Ok []"
| "collect f (x # xs) = obind (f x) (\<lambda>y. obind (collect f xs) (\<lambda>ys. Ok (y # ys)))"

lemma collect_Ok: "(\<And>x. \<exists>y. f x = Ok y) \<Longrightarrow> \<exists>ys. collect f xs = Ok ys \<and> length ys = length xs"
proof (induction xs)
  case (Cons x xs)
  then obtain y ys where "f x = Ok y" "collect f xs = Ok ys" "length ys = length xs" by blast
  then show ?case by simp
qed simp

definition Repeat :: "string \<Rightarrow> int \<Rightarrow> string outcome" where
  "Repeat s n = (if n < 0 then Panic ''strings: negative Repeat count'' else Ok (concat (replicate (nat n) s)))"

lemma Repeat_Ok: "0 \<le> n \<Longrightarrow> Repeat s n = Ok (concat (replicate (nat n) s))"
  by (simp add: Repeat_def)

definition cut :: "string \<Rightarrow> int \<Rightarrow> string outcome" where
  "cut s n = (if n < 0 \<or> int (length s) < n then Panic ''slice bounds out of range'' else Ok (take (nat n) s))"

section \<open>Formatting\<close>

definition blank :: string where "blank = '' ''"
definition bar_glyph :: string where "bar_glyph = [CHR 0xE2, CHR 0x94, CHR 0x82]"
definition line_glyph :: string where "line_glyph = [CHR 0xE2, CHR 0x94, CHR 0x80]"
definition dot_glyph :: string where "dot_glyph = [CHR 0xE2, CHR 0x97, CHR 0x8F]"
definition cursor_glyph :: string where "cursor_glyph = [CHR 0xE2, CHR 0x96, CHR 0xB6]"
definition branch_glyph :: string where "branch_glyph = [CHR 0xE2, CHR 0x94, CHR 0x94]"
definition arrows :: string where "arrows = [CHR 0xE2, CHR 0x86, CHR 0x91, CHR 0xE2, CHR 0x86, CHR 0x93]"

text \<open>\<open>%.0f\<close> and \<open>%.1f\<close>: the exact value rounded to nearest, ties to even.\<close>

fun fmt0 :: "float64 \<Rightarrow> string" where
  "fmt0 NaN = ''NaN''"
| "fmt0 (Inf s) = (if s then ''-Inf'' else ''+Inf'')"
| "fmt0 (Fin a) = (if a < 0 then ''-'' else '''') @ Itoa (rne \<bar>a\<bar>)"

fun fmt1 :: "float64 \<Rightarrow> string" where
  "fmt1 NaN = ''NaN''"
| "fmt1 (Inf s) = (if s then ''-Inf'' else ''+Inf'')"
| "fmt1 (Fin a) =
     (let n = rne (\<bar>a\<bar> * 10) in (if a < 0 then ''-'' else '''') @ Itoa (n div 10) @ ''.'' @ Itoa (n mod 10))"

definition upper :: "char \<Rightarrow> char" where
  "upper c = (if 97 \<le> (of_char c :: int) \<and> (of_char c :: int) \<le> 122 then char_of (of_char c - 32 :: int) else c)"

text \<open>Runes of a UTF-8 string: every byte but the continuation bytes starts one.\<close>

definition rune_count :: "string \<Rightarrow> nat" where
  "rune_count s = length (List.filter (\<lambda>c. (of_char c :: int) < 128 \<or> 192 \<le> (of_char c :: int)) s)"

definition pad12 :: "string \<Rightarrow> string" where
  "pad12 s = s @ concat (replicate (12 - rune_count s) blank)"

fun status_text :: "status \<Rightarrow> string" where
  "status_text NoStatus = ''''"
| "status_text Disconnected = ''disconnected''"
| "status_text (StatsReset p) = ''stats reset for '' @ p"
| "status_text (ServedStatus p waited depth) =
     ''served '' @ pad12 p @ ''  waited='' @ Itoa waited @ ''ms  queue='' @ Itoa depth"

datatype style =
    PlainStyle | DividerStyle | SelectedRowStyle | CursorStyle | DotGreen | DotYellow | DotRed
  | CounterStyle | StatLabelStyle | StatValueStyle | TitleStyle | HelpStyle | PausedStyle
  | AttachedStyle | LogSepStyle | LogLineStyle | ConfiguredRowStyle | DynamicRowStyle | TreeConnectorStyle

section \<open>Columns\<close>

definition renderLeftRow ::
  "(style \<Rightarrow> string \<Rightarrow> string) \<Rightarrow> (style \<Rightarrow> int \<Rightarrow> string \<Rightarrow> string) \<Rightarrow> tui_model \<Rightarrow> nat \<Rightarrow> endpoint_state
   \<Rightarrow> int \<Rightarrow> string outcome" where
  "renderLeftRow render fit m idx st w =
     (let c = st_cfg st;
          up = List.map upper (Scheduler c);
          sched = (if up = ''PRIORITY'' then ''PRIOR'' else up);
          te = (if idx < length (treeLabels m) then Some (treeLabels m ! idx) else None);
          pathLabel = (case te of Some t \<Rightarrow> te_label t | None \<Rightarrow> Path c);
          label = pathLabel @ ''  '' @ sched @ '' '' @ fmt0 (Rate c) @ Unit c;
          cursor = (if int idx = selected m then render CursorStyle cursor_glyph else blank);
          rowStyle = (if int idx = selected m then SelectedRowStyle
                      else if st_dynamic st then DynamicRowStyle else ConfiguredRowStyle)
      in obind (case te of
                  Some t \<Rightarrow>
                    if te_depth t > 0
                    then obind (Repeat ''  '' (int (te_depth t) - 1))
                           (\<lambda>sp. Ok (sp @ render TreeConnectorStyle (branch_glyph @ blank)))
                    else Ok ''''
                | None \<Rightarrow> Ok '''')
           (\<lambda>indent. Ok (cursor @ fit PlainStyle (w - 1) (blank @ indent @ render rowStyle label))))"

definition dot_style :: "tui_model \<Rightarrow> int \<Rightarrow> int \<Rightarrow> style" where
  "dot_style m now t =
     (let age = now - t
      in if age < warnAfter m then DotGreen else if age < critAfter m then DotYellow else DotRed)"

definition renderMidRow ::
  "(style \<Rightarrow> string \<Rightarrow> string) \<Rightarrow> tui_model \<Rightarrow> int \<Rightarrow> endpoint_state \<Rightarrow> int \<Rightarrow> string outcome" where
  "renderMidRow render m now st w =
     (let queued = int (length (enqueuedAt st));
          counterText = ''['' @ Itoa queued @ ''/'' @ Itoa (MaxQueueSize (st_cfg st)) @ '']'';
          counterLen = int (rune_count counterText);
          dotsWidth = (if w - counterLen - 1 < 0 then 0 else w - counterLen - 1);
          dots = concat (List.map (\<lambda>t. render (dot_style m now t) dot_glyph) (take (nat dotsWidth) (enqueuedAt st)));
          dotCount = (if queued < dotsWidth then queued else dotsWidth)
      in obind (Repeat blank (dotsWidth - dotCount))
           (\<lambda>padding. Ok (dots @ padding @ blank @ render CounterStyle counterText)))"

definition stat_lines :: "endpoint_state \<Rightarrow> (string \<times> string) list" where
  "stat_lines st =
     (let (p50, p90, p99) = computePercentiles (waitSamples st)
      in [(''served:  '', Itoa (served st)),
          (''rejected:'', Itoa (rejected st)),
          (''p50:     '', Itoa p50 @ ''ms''),
          (''p90:     '', Itoa p90 @ ''ms''),
          (''p99:     '', Itoa p99 @ ''ms''),
          (''last:    '', Itoa (lastWaitMs st) @ ''ms''),
          (''sum:     '', fmt1 (f_div (f_of_int (totalWaitMs st)) (Fin 1000)) @ ''s'')])"

definition stat_line :: "(style \<Rightarrow> string \<Rightarrow> string) \<Rightarrow> int \<Rightarrow> string \<times> string \<Rightarrow> string outcome" where
  "stat_line render w lv =
     (let (lab, val) = lv;
          line = blank @ render StatLabelStyle lab @ blank @ render StatValueStyle val;
          visLen = int (rune_count lab) + int (rune_count val) + 3
      in if visLen < w then obind (Repeat blank (w - visLen)) (\<lambda>sp. Ok (line @ sp)) else Ok line)"

definition renderRightColumn ::
  "(style \<Rightarrow> string \<Rightarrow> string) \<Rightarrow> tui_model \<Rightarrow> int \<Rightarrow> nat \<Rightarrow> string list outcome" where
  "renderRightColumn render m w h =
     obind (Repeat blank w) (\<lambda>empty_line.
       if rows m = [] \<or> selected m \<ge> int (length (rows m)) then Ok (replicate h empty_line)
       else if selected m < 0 then Panic ''index out of range''
       else obind (collect (stat_line render w) (take h (stat_lines (rows m ! nat (selected m)))))
              (\<lambda>ls. Ok (ls @ replicate (h - length ls) empty_line)))"

section \<open>The screen\<close>

record layout =
  lo_log :: int
  lo_body :: int
  lo_left :: int
  lo_right :: int
  lo_mid :: int

definition total_avail :: "tui_model \<Rightarrow> int" where
  "total_avail m = (if height m - 2 < 2 then 2 else height m - 2)"

definition view_layout :: "tui_model \<Rightarrow> layout" where
  "view_layout m =
     (let totalAvail = total_avail m;
          logHeight = (if go_div totalAvail 3 < 2 then 2 else go_div totalAvail 3);
          bodyHeight = (if totalAvail - logHeight - 1 < 1 then 1 else totalAvail - logHeight - 1);
          leftW = go_div (width m * 28) 100;
          rightW = (if showInfo m then max 22 (go_div (width m * 18) 100) else 0);
          divCount = (if showInfo m then 2 else 1);
          midW = (if width m - leftW - rightW - divCount < 10 then 10 else width m - leftW - rightW - divCount)
      in \<lparr>lo_log = logHeight, lo_body = bodyHeight, lo_left = leftW, lo_right = rightW, lo_mid = midW\<rparr>)"

definition titleLine ::
  "(style \<Rightarrow> string \<Rightarrow> string) \<Rightarrow> (style \<Rightarrow> int \<Rightarrow> string \<Rightarrow> string) \<Rightarrow> tui_model \<Rightarrow> string" where
  "titleLine render fit m =
     fit PlainStyle (width m)
       (render TitleStyle ('' rls  '' @ serverAddr m)
        @ (if attachedPID m \<noteq> 0 then render AttachedStyle (''  [attached: PID '' @ Itoa (attachedPID m) @ '']'') else '''')
        @ (if paused m then render PausedStyle '' [PAUSED]'' else ''''))"

text \<open>One line of the body, from the three columns as far as they go.\<close>

definition body_row ::
  "(style \<Rightarrow> string \<Rightarrow> string) \<Rightarrow> tui_model \<Rightarrow> string list \<Rightarrow> string list \<Rightarrow> string list \<Rightarrow> nat \<Rightarrow> string outcome" where
  "body_row render m lefts mids rights i =
     (let lo = view_layout m; divider = render DividerStyle bar_glyph
      in obind (if i < length lefts then Ok (lefts ! i) else Repeat blank (lo_left lo)) (\<lambda>l.
         obind (if i < length mids then Ok (mids ! i) else Repeat blank (lo_mid lo)) (\<lambda>mid.
           if showInfo m
           then obind (if i < length rights then Ok (rights ! i) else Repeat blank (lo_right lo))
                  (\<lambda>r. Ok (l @ divider @ mid @ divider @ r))
           else Ok (l @ divider @ mid))))"

definition body_rows ::
  "(style \<Rightarrow> string \<Rightarrow> string) \<Rightarrow> (style \<Rightarrow> int \<Rightarrow> string \<Rightarrow> string) \<Rightarrow> int \<Rightarrow> tui_model \<Rightarrow> string list outcome" where
  "body_rows render fit now m =
     (let lo = view_layout m; n = length (rows m)
      in obind (collect (\<lambda>i. renderLeftRow render fit m i (rows m ! i) (lo_left lo)) [0..<n]) (\<lambda>lefts.
         obind (collect (\<lambda>i. renderMidRow render m now (rows m ! i) (lo_mid lo)) [0..<n]) (\<lambda>mids.
         obind (if showInfo m then renderRightColumn render m (lo_right lo) (nat (lo_body lo)) else Ok []) (\<lambda>rights.
         collect (body_row render m lefts mids rights) [0..<nat (lo_body lo)]))))"

definition log_row :: "(style \<Rightarrow> string \<Rightarrow> string) \<Rightarrow> int \<Rightarrow> string \<Rightarrow> string outcome" where
  "log_row render w line =
     obind (if int (length line) > w then cut line w else Ok line) (\<lambda>line1.
     obind (Repeat blank (max 0 (w - int (length line1)))) (\<lambda>sp. Ok (render LogLineStyle line1 @ sp)))"

definition log_rows :: "(style \<Rightarrow> string \<Rightarrow> string) \<Rightarrow> tui_model \<Rightarrow> string list outcome" where
  "log_rows render m =
     (let h = nat (lo_log (view_layout m)); shown = take h (drop (length (logLines m) - h) (logLines m))
      in obind (Repeat blank (width m)) (\<lambda>empty_line.
         obind (collect (log_row render (width m)) shown) (\<lambda>ls.
         Ok (ls @ replicate (h - length ls) empty_line))))"

definition statusLine :: "(style \<Rightarrow> int \<Rightarrow> string \<Rightarrow> string) \<Rightarrow> tui_model \<Rightarrow> string" where
  "statusLine fit m =
     fit HelpStyle (width m)
       ('' q quit  r reset  p pause  i info  '' @ arrows @ ''/jk select  space inject''
        @ (if status_text (lastStatus m) \<noteq> '''' then ''  '' @ bar_glyph @ ''  '' @ status_text (lastStatus m) else ''''))"

definition view_lines ::
  "(style \<Rightarrow> string \<Rightarrow> string) \<Rightarrow> (style \<Rightarrow> int \<Rightarrow> string \<Rightarrow> string) \<Rightarrow> int \<Rightarrow> tui_model \<Rightarrow> string list outcome" where
  "view_lines render fit now m =
     obind (body_rows render fit now m) (\<lambda>body.
     obind (Repeat line_glyph (width m)) (\<lambda>sep.
     obind (log_rows render m) (\<lambda>logs.
     Ok ([titleLine render fit m] @ body @ [render LogSepStyle sep] @ logs @ [statusLine fit m]))))"

fun join_lines :: "string list \<Rightarrow> string" where
  "join_lines [] = ''''"
| "join_lines [l] = l"
| "join_lines (l # k # ls) = l @ CHR 0x0A # join_lines (k # ls)"

definition View ::
  "(style \<Rightarrow> string \<Rightarrow> string) \<Rightarrow> (style \<Rightarrow> int \<Rightarrow> string \<Rightarrow> string) \<Rightarrow> int \<Rightarrow> tui_model \<Rightarrow> string outcome" where
  "View render fit now m =
     (if width m = 0 then Ok '''' else obind (view_lines render fit now m) (\<lambda>ls. Ok (join_lines ls)))"

section \<open>Nothing panics\<close>

lemma obind_ex: "\<exists>a. x = Ok a \<Longrightarrow> (\<And>a. x = Ok a \<Longrightarrow> \<exists>b. f a = Ok b) \<Longrightarrow> \<exists>b. obind x f = Ok b"
  by auto

lemma layout_bounds:
  "0 \<le> width m \<Longrightarrow> 0 \<le> lo_left (view_layout m) \<and> 0 \<le> lo_right (view_layout m) \<and> 0 \<le> lo_mid (view_layout m)"
  by (simp add: view_layout_def Let_def go_div_nonneg pos_imp_zdiv_nonneg_iff le_max_iff_disj)

lemma layout_heights:
  "1 \<le> lo_body (view_layout m) \<and> 2 \<le> lo_log (view_layout m)
   \<and> lo_body (view_layout m) + lo_log (view_layout m) + 3 = max 6 (height m)"
proof -
  define t where "t = total_avail m"
  define h where "h = (if t div 3 < 2 then 2 else t div 3)"
  have t: "t = (if height m < 4 then 2 else height m - 2)" by (simp add: t_def total_avail_def)
  then have "go_div t 3 = t div 3" by (simp add: go_div_nonneg)
  then have hh: "(if go_div t 3 < 2 then 2 else go_div t 3) = h" by (simp add: h_def)
  have l: "lo_log (view_layout m) = h" "lo_body (view_layout m) = (if t - h - 1 < 1 then 1 else t - h - 1)"
    by (simp_all only: view_layout_def Let_def layout.simps t_def[symmetric] hh)
  have h: "2 \<le> h" "h \<le> max 2 (t div 3)" by (simp_all add: h_def)
  have "t < 4 \<Longrightarrow> h = 2" "4 \<le> t \<Longrightarrow> h + 2 \<le> t" by (auto simp: h_def)
  then show ?thesis unfolding l using h(1) t by (cases "t < 4") (auto simp: max_def)
qed

lemma renderLeftRow_total: "\<exists>s. renderLeftRow render fit m idx st w = Ok s"
  unfolding renderLeftRow_def Let_def by (intro obind_ex) (auto simp: Repeat_Ok)

lemma renderMidRow_total: "\<exists>s. renderMidRow render m now st w = Ok s"
  unfolding renderMidRow_def Let_def by (auto simp: Repeat_Ok)

lemma stat_line_total: "\<exists>s. stat_line render w lv = Ok s"
  by (cases lv) (auto simp: stat_line_def Let_def Repeat_Ok)

lemma renderRightColumn_total:
  "0 \<le> w \<Longrightarrow> 0 \<le> selected m \<Longrightarrow> \<exists>ls. renderRightColumn render m w h = Ok ls"
proof -
  obtain ls where "collect (stat_line render w) (take h (stat_lines (rows m ! nat (selected m)))) = Ok ls"
    using collect_Ok[of "stat_line render w", OF stat_line_total] by blast
  moreover assume "0 \<le> w" "0 \<le> selected m"
  ultimately show ?thesis by (simp add: renderRightColumn_def Repeat_Ok)
qed

lemma log_row_total: "0 \<le> w \<Longrightarrow> \<exists>s. log_row render w line = Ok s"
  by (auto simp: log_row_def cut_def Repeat_Ok)

lemma body_rows_total:
  assumes "0 \<le> width m" and "0 \<le> selected m"
  shows "\<exists>ls. body_rows render fit now m = Ok ls \<and> length ls = nat (lo_body (view_layout m))"
proof -
  note b = layout_bounds[OF assms(1)]
  obtain lefts where l: "collect (\<lambda>i. renderLeftRow render fit m i (rows m ! i) (lo_left (view_layout m))) [0..<length (rows m)] = Ok lefts"
    using collect_Ok[of "\<lambda>i. renderLeftRow render fit m i (rows m ! i) (lo_left (view_layout m))",
        OF renderLeftRow_total] by blast
  obtain mids where mi: "collect (\<lambda>i. renderMidRow render m now (rows m ! i) (lo_mid (view_layout m))) [0..<length (rows m)] = Ok mids"
    using collect_Ok[of "\<lambda>i. renderMidRow render m now (rows m ! i) (lo_mid (view_layout m))",
        OF renderMidRow_total] by blast
  obtain rights where r: "(if showInfo m then renderRightColumn render m (lo_right (view_layout m)) (nat (lo_body (view_layout m)))
      else Ok []) = Ok rights"
    using renderRightColumn_total[of "lo_right (view_layout m)" m] b assms(2) by fastforce
  have "\<exists>s. body_row render m lefts mids rights i = Ok s" for i
    using b by (simp add: body_row_def Let_def Repeat_Ok)
  from collect_Ok[of "body_row render m lefts mids rights", OF this, of "[0..<nat (lo_body (view_layout m))]"]
  show ?thesis
    unfolding body_rows_def Let_def l mi r obind_Ok by simp
qed

lemma log_rows_total:
  assumes "0 \<le> width m"
  shows "\<exists>ls. log_rows render m = Ok ls \<and> length ls = nat (lo_log (view_layout m))"
proof -
  let ?h = "nat (lo_log (view_layout m))"
  let ?shown = "take ?h (drop (length (logLines m) - ?h) (logLines m))"
  obtain ls where "collect (log_row render (width m)) ?shown = Ok ls" "length ls = length ?shown"
    using collect_Ok[of "log_row render (width m)", OF log_row_total[OF assms]] by blast
  then show ?thesis using assms by (simp add: log_rows_def Let_def Repeat_Ok)
qed

lemma view_lines_total:
  assumes "0 \<le> width m" and "0 \<le> selected m"
  shows "\<exists>ls. view_lines render fit now m = Ok ls \<and> int (length ls) = max 6 (height m)"
proof -
  obtain body logs where "body_rows render fit now m = Ok body" "length body = nat (lo_body (view_layout m))"
    "log_rows render m = Ok logs" "length logs = nat (lo_log (view_layout m))"
    using body_rows_total[OF assms] log_rows_total[OF assms(1)] by metis
  moreover have "int (nat (lo_body (view_layout m)) + nat (lo_log (view_layout m)) + 3) = max 6 (height m)"
    using layout_heights[of m] by linarith
  ultimately show ?thesis using assms(1) by (simp add: view_lines_def Repeat_Ok)
qed

fun window_ok :: "tui_msg \<Rightarrow> bool" where
  "window_ok (WindowSize w h) = (0 \<le> w)"
| "window_ok _ = True"

lemma Update_width: "window_ok msg \<Longrightarrow> 0 \<le> width m \<Longrightarrow> 0 \<le> width (fst (Update msg m))"
proof (cases msg)
  case (ServerEvent now r ev)
  have "width (fst (handleServerEvent now r ev m)) = width m"
    by (rule handleServerEvent_effect[of ev m now r]) (simp add: Let_def ensure_row_def addDynamicEndpoint_def)
  moreover assume "0 \<le> width m"
  ultimately show ?thesis using ServerEvent by (cases "handleServerEvent now r ev m") simp
next
  case (KeyPress k)
  assume "0 \<le> width m"
  then show ?thesis using KeyPress by (simp add: handleKey_def Let_def)
next
  case (TickMsg reg)
  assume "0 \<le> width m"
  then show ?thesis using TickMsg by (simp add: syncEndpoints_def Let_def split: option.splits)
qed (simp_all add: Let_def)

lemma tui_run_width: "list_all window_ok msgs \<Longrightarrow> 0 \<le> width m \<Longrightarrow> 0 \<le> width (tui_run msgs m)"
  unfolding tui_run_def by (induction msgs arbitrary: m) (auto simp: Update_width)



end
