(* ===== verification/TuiCmd.thy ===== *)
theory TuiCmd
  imports TuiView GoPath
begin

text \<open>
  What the commands of the interface do when the runtime carries them out, the request the space
  key sends and how \<open>net/url\<close> and the server's multiplexer read it, and the looks of
  \<^verbatim>\<open>tui/styles.go\<close>.
\<close>

section \<open>Commands\<close>

text \<open>
  \<open>Fires\<close> a message after a time in nanoseconds, \<open>Prints\<close> to the terminal, \<open>Gets\<close> a URL; the
  two waits for a channel deliver what \<open>event_msg\<close> and \<open>log_msg\<close> make of it, and \<open>Quit\<close> ends the loop.
\<close>

datatype effect = Fires int | Prints string | Gets string | Awaits | Ends

definition tickEvery :: effect where
  "tickEvery = Fires (100 * 1000000)"

definition belCmd :: effect where
  "belCmd = Prints [CHR 0x07]"

definition injectCmd :: "string \<Rightarrow> string \<Rightarrow> effect" where
  "injectCmd server path = Gets (server @ path @ ''?_tui=1'')"

fun run_cmd :: "cmd \<Rightarrow> effect" where
  "run_cmd Quit = Ends"
| "run_cmd TickEvery = tickEvery"
| "run_cmd WaitForEvent = Awaits"
| "run_cmd WaitForLog = Awaits"
| "run_cmd Bel = belCmd"
| "run_cmd (Inject server path) = injectCmd server path"

section \<open>The request that is sent\<close>

text \<open>Percent decoding in the path mode of \<open>net/url\<close>, where a plus stands for itself.\<close>

definition hex_val :: "char \<Rightarrow> int option" where
  "hex_val c =
     (let n = (of_char c :: int)
      in if 48 \<le> n \<and> n \<le> 57 then Some (n - 48)
         else if 97 \<le> n \<and> n \<le> 102 then Some (n - 87)
         else if 65 \<le> n \<and> n \<le> 70 then Some (n - 55) else None)"

fun unescape :: "string \<Rightarrow> string option" where
  "unescape [] = Some []"
| "unescape (c # cs) =
     (if c = CHR ''%'' then
        (case cs of
           a # b # ds \<Rightarrow>
             (case (hex_val a, hex_val b) of
                (Some x, Some y) \<Rightarrow> map_option ((#) (char_of (16 * x + y))) (unescape ds)
              | _ \<Rightarrow> None)
         | _ \<Rightarrow> None)
      else map_option ((#) c) (unescape cs))"

definition control :: "char \<Rightarrow> bool" where
  "control c \<longleftrightarrow> (of_char c :: int) < 32 \<or> (of_char c :: int) = 127"

text \<open>
  The part of a URL after the authority: the fragment is cut off, then the query; a control
  character or a bad percent sequence is an error. The result is the path and the raw query.
\<close>

definition url_target :: "string \<Rightarrow> (string \<times> string) option" where
  "url_target s =
     (let u = takeWhile (\<lambda>c. c \<noteq> CHR ''#'') s;
          frag = drop (length u + 1) s;
          p = takeWhile (\<lambda>c. c \<noteq> CHR ''?'') u;
          q = drop (length p + 1) u
      in if list_ex control u \<or> unescape frag = None then None
         else map_option (\<lambda>path. (path, q)) (unescape p))"

text \<open>The multiplexer redirects a request to the clean form of its path, and the client follows.\<close>

definition mux_path :: "string \<Rightarrow> string" where
  "mux_path p =
     (let p1 = (if p = '''' then ''/'' else if hd p \<noteq> CHR ''/'' then CHR ''/'' # p else p);
          np = path_Clean p1
      in if last p1 = CHR ''/'' \<and> np \<noteq> ''/'' then np @ ''/'' else np)"

text \<open>
  What the server is asked for when a URL is fetched whose first part is \<open>server\<close>, a scheme and an
  authority: the path that its handler sees and the query.
\<close>

definition fetched :: "string \<Rightarrow> effect \<Rightarrow> (string \<times> string) option" where
  "fetched server e =
     (case e of
        Gets url \<Rightarrow>
          (if take (length server) url = server
           then map_option (\<lambda>(p, q). (mux_path p, q)) (url_target (drop (length server) url)) else None)
      | _ \<Rightarrow> None)"

definition plain_path :: "string \<Rightarrow> bool" where
  "plain_path p \<longleftrightarrow> p \<noteq> '''' \<and> hd p = CHR ''/'' \<and> mux_path p = p
     \<and> list_all (\<lambda>c. c \<notin> {CHR ''%'', CHR ''?'', CHR ''#''} \<and> \<not> control c) p"

lemma unescape_id: "CHR ''%'' \<notin> set s \<Longrightarrow> unescape s = Some s"
  by (induction s) auto

lemma takeWhile_stop: "x \<notin> set s \<Longrightarrow> takeWhile (\<lambda>c. c \<noteq> x) (s @ x # t) = s"
  by (induction s) auto

lemma takeWhile_through: "x \<notin> set s \<Longrightarrow> takeWhile (\<lambda>c. c \<noteq> x) s = s"
  by (induction s) auto

lemma plain_target:
  assumes "plain_path p"
  shows "url_target (p @ ''?_tui=1'') = Some (p, ''_tui=1'')"
proof -
  have n: "CHR ''#'' \<notin> set p" "CHR ''?'' \<notin> set p" "CHR ''%'' \<notin> set p" "\<not> list_ex control p"
    using assms by (auto simp: plain_path_def list_all_iff list_ex_iff)
  have h: "takeWhile (\<lambda>c. c \<noteq> CHR ''#'') (p @ ''?_tui=1'') = p @ ''?_tui=1''"
    using n(1) by (intro takeWhile_through) auto
  have q: "takeWhile (\<lambda>c. c \<noteq> CHR ''?'') (p @ ''?_tui=1'') = p"
    using takeWhile_stop[of "CHR ''?''" p "''_tui=1''"] n(2) by simp
  have c: "\<not> list_ex control ''?_tui=1''" by code_simp
  show ?thesis
    unfolding url_target_def Let_def h q using n(3,4) c by (simp add: unescape_id list_ex_append)
qed

section \<open>Looks\<close>

text \<open>The bold flag and the foreground colour of each style, by its number in the palette.\<close>

record look =
  bold :: bool
  foreground :: "nat option"

fun look_of :: "style \<Rightarrow> look" where
  "look_of PlainStyle = \<lparr>bold = False, foreground = None\<rparr>"
| "look_of DividerStyle = \<lparr>bold = False, foreground = Some 240\<rparr>"
| "look_of SelectedRowStyle = \<lparr>bold = True, foreground = Some 12\<rparr>"
| "look_of CursorStyle = \<lparr>bold = True, foreground = Some 12\<rparr>"
| "look_of DotGreen = \<lparr>bold = False, foreground = Some 2\<rparr>"
| "look_of DotYellow = \<lparr>bold = False, foreground = Some 3\<rparr>"
| "look_of DotRed = \<lparr>bold = False, foreground = Some 1\<rparr>"
| "look_of CounterStyle = \<lparr>bold = False, foreground = Some 240\<rparr>"
| "look_of StatLabelStyle = \<lparr>bold = False, foreground = Some 240\<rparr>"
| "look_of StatValueStyle = \<lparr>bold = False, foreground = Some 252\<rparr>"
| "look_of TitleStyle = \<lparr>bold = True, foreground = Some 12\<rparr>"
| "look_of HelpStyle = \<lparr>bold = False, foreground = Some 248\<rparr>"
| "look_of PausedStyle = \<lparr>bold = True, foreground = Some 3\<rparr>"
| "look_of AttachedStyle = \<lparr>bold = False, foreground = Some 5\<rparr>"
| "look_of LogSepStyle = \<lparr>bold = False, foreground = Some 240\<rparr>"
| "look_of LogLineStyle = \<lparr>bold = False, foreground = Some 240\<rparr>"
| "look_of ConfiguredRowStyle = \<lparr>bold = True, foreground = Some 255\<rparr>"
| "look_of DynamicRowStyle = \<lparr>bold = False, foreground = Some 245\<rparr>"
| "look_of TreeConnectorStyle = \<lparr>bold = False, foreground = Some 240\<rparr>"

text \<open>The colour of a dot tells how long its request has waited, by the two thresholds.\<close>

lemma dot_colour:
  "foreground (look_of (dot_style m now t)) =
     Some (if now - t < warnAfter m then 2 else if now - t < critAfter m then 3 else 1)"
  by (simp add: dot_style_def Let_def)

section \<open>The space key\<close>


definition demo_rows :: tui_model where
  "demo_rows = NewModel (defaultConfig\<lparr>Endpoints := [zero_endpoint\<lparr>Path := ''/''\<rparr>, zero_endpoint\<lparr>Path := ''/api/v2''\<rparr>]\<rparr>) DefaultDotThresholds 0 [] 0"


text \<open>
  The path is put into the URL as it is. A dynamic endpoint whose decoded path has a question mark
  gets its request sent to another endpoint, and one with a percent sign gets none.
\<close>

lemma space_misses_encoded_paths:
  "fetched ''http://h:80'' (injectCmd ''http://h:80'' ''/a?b'') = Some (''/a'', ''b?_tui=1'')"
  "fetched ''http://h:80'' (injectCmd ''http://h:80'' ''/50%'') = None"
  by code_simp+

end
