(* ===== verification/TuiProps.thy ===== *)
theory TuiProps
  imports TuiModel
begin

text \<open>
  Properties of the terminal interface: what a row shows after any stream of events, the
  percentiles, the reconciliation with the registry, and where the selection goes when a row is
  inserted.
\<close>

section \<open>One row among the others\<close>

definition st_at :: "string \<Rightarrow> endpoint_state list \<Rightarrow> endpoint_state option" where
  "st_at p sts = List.find (\<lambda>st. st_path st = p) sts"

lemma st_at_simps [simp]:
  "st_at p [] = None" "st_at p (st # sts) = (if st_path st = p then Some st else st_at p sts)"
  by (simp_all add: st_at_def)

lemma st_at_index: "st_at p sts = map_option (\<lambda>i. sts ! i) (indexForPath p sts)"
  by (induction sts) (auto simp: option.map_comp comp_def)

lemma st_at_path: "st_at p sts = Some st \<Longrightarrow> st_path st = p \<and> st \<in> set sts"
  by (induction sts) (auto split: if_splits)

lemma st_at_update:
  "indexForPath p sts = Some i \<Longrightarrow> st_path st = p
   \<Longrightarrow> st_at q (sts[i := st]) = (if q = p then Some st else st_at q sts)"
proof (induction sts arbitrary: i)
  case (Cons s sts)
  show ?case
  proof (cases "st_path s = p")
    case True
    then show ?thesis using Cons.prems by auto
  next
    case False
    then obtain j where "indexForPath p sts = Some j" "i = Suc j" using Cons.prems(1) by auto
    then show ?thesis using Cons False by auto
  qed
qed simp

lemma st_at_insert:
  "p \<notin> st_path ` set sts \<Longrightarrow> st_path new = p
   \<Longrightarrow> st_at q (insert_row new sts) = (if q = p then Some new else st_at q sts)"
  by (induction sts) auto

lemma discovered_config_Path [simp]: "Path (discovered_config p sts) = p"
  by (simp add: discovered_config_def dynamic_config_def fallback_config_def InheritFrom_bare split: option.splits)

text \<open>The row of a path, as the next event for it will find it.\<close>

definition row_for :: "string \<Rightarrow> endpoint_state list \<Rightarrow> endpoint_state" where
  "row_for p sts =
     (case st_at p sts of Some st \<Rightarrow> st | None \<Rightarrow> new_state (discovered_config p sts) True)"

lemma ensure_row_at:
  "st_at q (rows (ensure_row p m)) = (if q = p then Some (row_for p (rows m)) else st_at q (rows m))"
proof (cases "indexForPath p (rows m)")
  case None
  let ?new = "new_state (discovered_config p (rows m)) True"
  have "p \<notin> st_path ` set (rows m)" using None by (simp add: indexForPath_None)
  then have "st_at q (insert_row ?new (rows m)) = (if q = p then Some ?new else st_at q (rows m))"
    by (rule st_at_insert) (simp add: new_state_def)
  moreover have "st_at p (rows m) = None" using None by (simp add: st_at_index)
  ultimately show ?thesis using None by (simp add: ensure_row_def addDynamicEndpoint_def Let_def row_for_def)
next
  case (Some i)
  then show ?thesis by (simp add: ensure_row_def row_for_def st_at_index)
qed

lemma event_at:
  "st_at q (rows (fst (handleServerEvent now r ev m))) =
     (if q = ev_path ev then Some (event_row now r ev (row_for q (rows m))) else st_at q (rows m))"
proof (rule handleServerEvent_effect[of ev m now r])
  fix i s
  let ?m1 = "ensure_row (ev_path ev) m"
  assume i: "i < length (rows ?m1)" "indexForPath (ev_path ev) (rows ?m1) = Some i"
    and e: "fst (handleServerEvent now r ev m) = (let m1 = ?m1
       in m1\<lparr>rows := (rows m1)[i := event_row now r ev (rows m1 ! i)], lastStatus := s\<rparr>)"
  have st: "rows ?m1 ! i = row_for (ev_path ev) (rows m)"
    using ensure_row_at[of "ev_path ev" "ev_path ev" m] i(2) by (simp add: st_at_index)
  then have "st_path (event_row now r ev (rows ?m1 ! i)) = ev_path ev"
    using indexForPath_Some[OF i(2)] by simp
  then show ?thesis
    using e st st_at_update[OF i(2)] ensure_row_at[of q "ev_path ev" m] by (auto simp: Let_def)
qed

lemma handleServerEvent_paused: "paused (fst (handleServerEvent now r ev m)) = paused m"
  by (rule handleServerEvent_effect[of ev m now r])
    (simp add: Let_def ensure_row_def addDynamicEndpoint_def)

section \<open>Streams of events\<close>

type_synonym timed_event = "int \<times> nat \<times> event"

definition event_msgs :: "timed_event list \<Rightarrow> tui_msg list" where
  "event_msgs xs = List.map (\<lambda>(now, r, ev). ServerEvent now r ev) xs"

definition row_after :: "timed_event list \<Rightarrow> endpoint_state \<Rightarrow> endpoint_state" where
  "row_after xs st = fold (\<lambda>(now, r, ev) st. event_row now r ev st) xs st"

definition own_events :: "string \<Rightarrow> timed_event list \<Rightarrow> timed_event list" where
  "own_events p xs = List.filter (\<lambda>(now, r, ev). ev_path ev = p) xs"

lemma rows_independent:
  "\<not> paused m \<Longrightarrow> st_at p (rows m) = Some st
   \<Longrightarrow> st_at p (rows (tui_run (event_msgs xs) m)) = Some (row_after (own_events p xs) st)"
proof (induction xs arbitrary: m st)
  case Nil
  then show ?case by (simp add: tui_run_def event_msgs_def row_after_def own_events_def)
next
  case (Cons x xs)
  obtain now r ev where x: "x = (now, r, ev)" by (cases x)
  let ?m1 = "fst (handleServerEvent now r ev m)"
  let ?st1 = "if ev_path ev = p then event_row now r ev st else st"
  have upd: "fst (Update (ServerEvent now r ev) m) = ?m1" using Cons.prems(1)
    by (cases "handleServerEvent now r ev m") simp
  then have run: "tui_run (event_msgs (x # xs)) m = tui_run (event_msgs xs) ?m1"
    by (simp add: tui_run_def event_msgs_def x)
  have "st_at p (rows ?m1) = Some ?st1"
    using event_at[of p now r ev m] Cons.prems(2) by (auto simp: row_for_def)
  then show ?case
    unfolding run using Cons.IH[of ?m1 ?st1] Cons.prems(1) handleServerEvent_paused[of now r ev m] x
    by (auto simp: row_after_def own_events_def)
qed

fun dots :: "event list \<Rightarrow> nat \<Rightarrow> nat" where
  "dots [] n = n"
| "dots (EventQueued p prio # es) n = dots es (Suc n)"
| "dots (EventServed p waited depth # es) n = dots es (n - 1)"
| "dots (EventRejected p # es) n = dots es n"

fun is_served :: "event \<Rightarrow> bool" where
  "is_served (EventServed p waited depth) = True"
| "is_served _ = False"

fun is_rejected :: "event \<Rightarrow> bool" where
  "is_rejected (EventRejected p) = True"
| "is_rejected _ = False"

definition evs_of :: "timed_event list \<Rightarrow> event list" where
  "evs_of xs = List.map (\<lambda>(now, r, ev). ev) xs"

lemma dot_add_length [simp]: "length (enqueuedAt (dot_add now r st)) = Suc (length (enqueuedAt st))"
  using Intn_less[of "length (enqueuedAt st) + 1" r] by (simp add: dot_add_def Let_def)

lemma dot_remove_length [simp]: "length (enqueuedAt (dot_remove r st)) = length (enqueuedAt st) - 1"
  using Intn_less[of "length (enqueuedAt st)" r] by (cases "enqueuedAt st") (simp_all add: dot_remove_def Let_def)

lemma dot_frame [simp]:
  "served (dot_add now r st) = served st" "rejected (dot_add now r st) = rejected st"
  "served (dot_remove r st) = served st" "rejected (dot_remove r st) = rejected st"
  by (simp_all add: dot_add_def dot_remove_def Let_def)

lemma count_served_frame [simp]:
  "served (count_served w st) = i64 (served st + 1)" "rejected (count_served w st) = rejected st"
  "enqueuedAt (count_served w st) = enqueuedAt st"
  by (simp_all add: count_served_def)

lemma i64_add_left: "i64 (i64 x + y) = i64 (x + y)"
  by (simp add: i64_def) (metis (no_types, opaque_lifting) add.assoc add.commute diff_add_cancel mod_add_left_eq)

lemma row_after_counts:
  "is_i64 (served st) \<Longrightarrow> is_i64 (rejected st) \<Longrightarrow>
     length (enqueuedAt (row_after xs st)) = dots (evs_of xs) (length (enqueuedAt st))
     \<and> served (row_after xs st) = i64 (served st + int (length (List.filter is_served (evs_of xs))))
     \<and> rejected (row_after xs st) = i64 (rejected st + int (length (List.filter is_rejected (evs_of xs))))"
proof (induction xs arbitrary: st)
  case Nil
  then show ?case by (simp add: row_after_def evs_of_def i64_id)
next
  case (Cons x xs)
  obtain now r ev where x: "x = (now, r, ev)" by (cases x)
  have step: "row_after (x # xs) st = row_after xs (event_row now r ev st)" by (simp add: row_after_def x)
  have "is_i64 (served (event_row now r ev st)) \<and> is_i64 (rejected (event_row now r ev st))"
    using Cons.prems by (cases ev) simp_all
  then show ?case
    unfolding step using Cons.IH[of "event_row now r ev st"]
    by (cases ev) (simp_all add: evs_of_def x i64_add_left algebra_simps)
qed

text \<open>
  What a row shows: for every scheduler, whatever positions the random one draws and whatever
  happens on other paths (rows discovered in between included), the row of a path has one dot
  for each request queued and not yet served, and its counters are the numbers of its served and
  rejected requests.
\<close>

lemma row_counts_events:
  assumes "\<not> paused m" and "st_at p (rows m) = Some st" and "is_i64 (served st)" and "is_i64 (rejected st)"
  shows "\<exists>st'. st_at p (rows (tui_run (event_msgs xs) m)) = Some st'
    \<and> st_cfg st' = st_cfg st
    \<and> length (enqueuedAt st') = dots (evs_of (own_events p xs)) (length (enqueuedAt st))
    \<and> served st' = i64 (served st + int (length (List.filter is_served (evs_of (own_events p xs)))))
    \<and> rejected st' = i64 (rejected st + int (length (List.filter is_rejected (evs_of (own_events p xs)))))"
proof -
  have "st_cfg (row_after ys st) = st_cfg st" for ys
    by (induction ys arbitrary: st) (auto simp: row_after_def)
  then show ?thesis using rows_independent[OF assms(1,2)] row_after_counts[OF assms(3,4)] by blast
qed

definition demo_tui :: tui_model where
  "demo_tui = NewModel (zero_config\<lparr>Endpoints := [zero_endpoint\<lparr>Path := ''/''\<rparr>,
     zero_endpoint\<lparr>Path := ''/b'', Scheduler := ''random''\<rparr>]\<rparr>) DefaultDotThresholds 0 [] 0"

definition demo_events :: "timed_event list" where
  "demo_events = [(1, 0, EventQueued ''/b'' 0), (2, 5, EventQueued ''/b'' 0), (3, 0, EventQueued ''/a'' 0),
     (4, 7, EventServed ''/b'' 3 1), (5, 0, EventRejected ''/b'')]"

section \<open>Percentiles\<close>

lemma sorted_rank:
  "sorted ys \<Longrightarrow> k < length ys \<Longrightarrow>
     length (List.filter (\<lambda>x. x < ys ! k) ys) \<le> k \<and> k < length (List.filter (\<lambda>x. x \<le> ys ! k) ys)"
proof
  assume s: "sorted ys" and k: "k < length ys"
  have "List.filter (\<lambda>x. x < ys ! k) (drop k ys) = []"
    using s k by (auto simp: filter_empty_conv in_set_conv_nth not_less intro!: sorted_nth_mono)
  then have "length (List.filter (\<lambda>x. x < ys ! k) (take k ys @ drop k ys)) \<le> length (take k ys)"
    by (metis append_Nil2 filter_append length_filter_le)
  then show "length (List.filter (\<lambda>x. x < ys ! k) ys) \<le> k" using k by simp
  have "List.filter (\<lambda>x. x \<le> ys ! k) (take (Suc k) ys) = take (Suc k) ys"
    using s k by (auto simp: in_set_conv_nth filter_id_conv intro!: sorted_nth_mono)
  then have "length (List.filter (\<lambda>x. x \<le> ys ! k) (take (Suc k) ys)) = Suc k" using k by simp
  then have "Suc k \<le> length (List.filter (\<lambda>x. x \<le> ys ! k) (take (Suc k) ys @ drop (Suc k) ys))"
    by (simp only: filter_append length_append)
  then show "k < length (List.filter (\<lambda>x. x \<le> ys ! k) ys)" by simp
qed

lemma filter_sort_length: "length (List.filter P (sort xs)) = length (List.filter P xs)"
  by (metis mset_filter mset_sort size_mset)

text \<open>A sample that at most \<open>k\<close> percent of the others lie below, and more than that up to it.\<close>

definition is_percentile :: "int list \<Rightarrow> nat \<Rightarrow> int \<Rightarrow> bool" where
  "is_percentile samples k v \<longleftrightarrow>
     v \<in> set samples
     \<and> 100 * length (List.filter (\<lambda>x. x < v) samples) \<le> (length samples - 1) * k
     \<and> (length samples - 1) * k < 100 * length (List.filter (\<lambda>x. x \<le> v) samples)"

lemma percentile_index:
  assumes "samples \<noteq> []" and "k \<le> 100"
  shows "is_percentile samples k (sort samples ! ((length samples - 1) * k div 100))"
proof -
  let ?n = "length samples" and ?i = "(length samples - 1) * k div 100"
  have "(?n - 1) * k \<le> (?n - 1) * 100" using assms(2) by (rule mult_le_mono2)
  then have "?i \<le> ?n - 1" by linarith
  then have i: "?i < length (sort samples)" using assms(1) by (cases samples) auto
  have bounds: "100 * a \<le> N" if "a \<le> N div 100" for a N :: nat using that by linarith
  have bounds': "N < 100 * b" if "N div 100 < b" for b N :: nat using that by linarith
  show ?thesis
    using sorted_rank[OF sorted_sort i] nth_mem[OF i] unfolding filter_sort_length is_percentile_def
    by (auto intro: bounds bounds')
qed

text \<open>
  The percentiles: for any number of samples the three values are samples, they are ordered,
  and each has its rank; the indices never leave the slice.
\<close>

lemma percentiles_correct:
  assumes "samples \<noteq> []"
  shows "\<exists>p50 p90 p99. computePercentiles samples = (p50, p90, p99) \<and> p50 \<le> p90 \<and> p90 \<le> p99
    \<and> is_percentile samples 50 p50 \<and> is_percentile samples 90 p90 \<and> is_percentile samples 99 p99"
proof -
  let ?n = "length samples"
  have n: "(?n - 1) * 99 div 100 < length (sort samples)" using assms by (cases samples) auto
  have "(?n - 1) * 50 div 100 \<le> (?n - 1) * 90 div 100" "(?n - 1) * 90 div 100 \<le> (?n - 1) * 99 div 100"
    by (simp_all add: div_le_mono)
  then have "sort samples ! ((?n - 1) * 50 div 100) \<le> sort samples ! ((?n - 1) * 90 div 100)"
    "sort samples ! ((?n - 1) * 90 div 100) \<le> sort samples ! ((?n - 1) * 99 div 100)"
    using n by (simp_all add: sorted_nth_mono)
  moreover have "computePercentiles samples = (sort samples ! ((?n - 1) * 50 div 100),
      sort samples ! ((?n - 1) * 90 div 100), sort samples ! ((?n - 1) * 99 div 100))"
    using assms by (simp add: computePercentiles_def Let_def)
  moreover have "is_percentile samples 50 (sort samples ! ((?n - 1) * 50 div 100))"
    "is_percentile samples 90 (sort samples ! ((?n - 1) * 90 div 100))"
    "is_percentile samples 99 (sort samples ! ((?n - 1) * 99 div 100))"
    by (rule percentile_index[OF assms], simp)+
  ultimately show ?thesis by blast
qed

section \<open>The selection\<close>

text \<open>
  When an event makes the interface insert a row above the selected one, the selection stays at
  its index and so moves to another endpoint: a reset or an injected request then goes to the
  newly discovered one.
\<close>

lemma insertion_moves_selection:
  "let m = tui_run [KeyPress ''j''] demo_tui;
       m' = tui_run [ServerEvent 1 0 (EventQueued ''/a'' 0)] m
   in st_path (rows m ! nat (selected m)) = ''/b'' \<and> st_path (rows m' ! nat (selected m')) = ''/a''
     \<and> snd (Update (KeyPress '' '') m') = [Inject (serverAddr demo_tui) ''/a'']"
  unfolding Let_def by code_simp

end
