(* ===== verification/TuiAttach.thy ===== *)
theory TuiAttach
  imports TuiProps AttachClient EndpointRun
begin

text \<open>
  The parts together: what an attached terminal interface shows of a server it is connected to
  through the hub, and where the two drift apart.
\<close>

section \<open>Configurations\<close>

text \<open>The paths of the segments between slashes, none empty, dot or dot-dot; and the root.\<close>

definition is_clean :: "string \<Rightarrow> bool" where
  "is_clean p \<longleftrightarrow> p = ''/'' \<or>
     (let segs = tl (split_slash p) in segs \<noteq> [] \<and> list_all seg_ok segs \<and> p = mk_path segs)"

text \<open>The rows know the configured endpoints, and the others have what the server would give them.\<close>

definition mirrors :: "(string \<Rightarrow> endpoint_config option) \<Rightarrow> endpoint_state list \<Rightarrow> bool" where
  "mirrors base sts \<longleftrightarrow>
     base ''/'' \<noteq> None
     \<and> (\<forall>p. base p \<noteq> None \<longrightarrow> st_at p sts \<noteq> None)
     \<and> (\<forall>p st. st_at p sts = Some st \<longrightarrow>
          base p = Some (st_cfg st) \<or> (base p = None \<and> inherited base p (st_cfg st)))"

lemma discovered_inherits:
  assumes "mirrors base sts" and "is_clean p" and "st_at p sts = None"
  shows "base p = None \<and> inherited base p (discovered_config p sts)"
proof
  show none: "base p = None" using assms(1,3) by (auto simp: mirrors_def)
  then obtain segs where segs: "segs \<noteq> []" "list_all seg_ok segs" "p = mk_path segs"
    using assms(1,2) by (auto simp: is_clean_def mirrors_def Let_def)
  define known where "known = (\<lambda>q. indexForPath q sts \<noteq> None)"
  have k: "known q \<longleftrightarrow> st_at q sts \<noteq> None" for q by (simp add: known_def st_at_index)
  have walk: "walk_up known p p = find_parent known p" using walks_agree[OF segs(2,1)] segs(3) by simp
  have "known ''/''" using assms(1) k by (simp add: mirrors_def)
  then obtain q where q: "find_parent known p = Some q" using find_parent_root by blast
  then obtain st where st: "st_at q sts = Some st" using find_parent_known k by blast
  then have "discovered_config p sts = dynamic_config p (st_cfg st)"
    unfolding discovered_config_def known_def[symmetric] walk q by (auto simp: st_at_index)
  moreover have "inherited base p (dynamic_config p (st_cfg st))"
    using q by (rule inherited_step) (use assms(1) st k in \<open>auto simp: mirrors_def\<close>)
  ultimately show "inherited base p (discovered_config p sts)" by simp
qed

lemma mirrors_event:
  assumes "mirrors base (rows m)" and "is_clean (ev_path ev)"
  shows "mirrors base (rows (fst (handleServerEvent now r ev m)))"
proof -
  let ?m1 = "fst (handleServerEvent now r ev m)"
  have "base p = Some (st_cfg st) \<or> (base p = None \<and> inherited base p (st_cfg st))"
    if "st_at p (rows ?m1) = Some st" for p st
  proof (cases "p = ev_path ev")
    case True
    then have "st_cfg st = st_cfg (row_for p (rows m))"
      using that event_at[of p now r ev m] by auto
    then show ?thesis using assms discovered_inherits[OF assms(1), of p] True
      by (cases "st_at p (rows m)") (auto simp: row_for_def mirrors_def new_state_def)
  next
    case False
    then show ?thesis using that event_at[of p now r ev m] assms(1) by (auto simp: mirrors_def)
  qed
  then show ?thesis using assms(1) event_at[of _ now r ev m] by (auto simp: mirrors_def)
qed

lemma mirrors_events:
  "mirrors base (rows m) \<Longrightarrow> \<not> paused m \<Longrightarrow> list_all (\<lambda>(now, r, ev). is_clean (ev_path ev)) xs
   \<Longrightarrow> mirrors base (rows (tui_run (event_msgs xs) m))"
proof (induction xs arbitrary: m)
  case (Cons x xs)
  obtain now r ev where x: "x = (now, r, ev)" by (cases x)
  have "tui_run (event_msgs (x # xs)) m = tui_run (event_msgs xs) (fst (handleServerEvent now r ev m))"
    using Cons.prems(2) by (cases "handleServerEvent now r ev m") (simp add: tui_run_def event_msgs_def x)
  then show ?case
    using Cons.IH[of "fst (handleServerEvent now r ev m)"] Cons.prems mirrors_event[of base m ev now r]
      handleServerEvent_paused[of now r ev m] x by simp
qed (simp add: tui_run_def event_msgs_def)

lemma seed_row_cfgs [simp]: "List.map st_cfg (seed_row now snap sts) = List.map st_cfg sts"
  by (induction sts) auto

lemma seed_rows_cfgs [simp]: "List.map st_cfg (fold (seed_row now) snaps sts) = List.map st_cfg sts"
  by (induction snaps arbitrary: sts) auto

lemma st_at_cfgs: "map_option st_cfg (st_at p sts) = map_of (List.map (\<lambda>c. (Path c, c)) (List.map st_cfg sts)) p"
  by (induction sts) auto

lemma mirrored_Endpoints:
  "list_all (\<lambda>e. \<not> Dynamic e) (Endpoints c) \<Longrightarrow> Endpoints (mirrored c) = Endpoints c"
  by (induction "Endpoints c") (auto simp: mirrored_def patch_host_def list_all_iff intro!: map_idI)

lemma NewModel_mirrors:
  assumes "list_all (\<lambda>e. \<not> Dynamic e) (Endpoints c)" and "hasRoot (Endpoints c)"
  shows "mirrors (map_of (List.map (\<lambda>e. (Path e, e)) (Endpoints c))) (rows (NewModel (mirrored c) th pid snaps now))"
proof -
  let ?base = "map_of (List.map (\<lambda>e. (Path e, e)) (Endpoints c))"
  let ?sts = "rows (NewModel (mirrored c) th pid snaps now)"
  have "List.map st_cfg ?sts = Endpoints c"
    by (simp add: NewModel_def Let_def mirrored_Endpoints[OF assms(1)] comp_def new_state_def)
  then have at: "map_option st_cfg (st_at p ?sts) = ?base p" for p by (simp add: st_at_cfgs)
  have "?base ''/'' \<noteq> None"
    using assms(2) unfolding hasRoot_def list_ex_iff map_of_eq_None_iff by force
  moreover have "st_at p ?sts \<noteq> None" if "?base p \<noteq> None" for p
    using at[of p] that by (cases "st_at p ?sts") simp_all
  moreover have "?base p = Some (st_cfg st)" if "st_at p ?sts = Some st" for p st
    using at[of p] unfolding that by simp
  ultimately show ?thesis unfolding mirrors_def by blast
qed

lemma map_of_rev_distinct: "distinct (List.map fst xs) \<Longrightarrow> map_of (rev xs) = map_of xs"
proof
  fix k
  assume "distinct (List.map fst xs)"
  then have "map_of (rev xs) k = Some y \<longleftrightarrow> map_of xs k = Some y" for y
    by (simp add: map_of_eq_Some_iff rev_map[symmetric])
  then show "map_of (rev xs) k = map_of xs k" by (metis not_Some_eq)
qed

lemma inherited_unique: "inherited base p c \<Longrightarrow> inherited base p d \<Longrightarrow> c = d"
  by (auto simp: inherited_def)


text \<open>A server with two configured endpoints, a client, and an event of a third path.\<close>

definition demo_server_cfg :: config where
  "demo_server_cfg = zero_config\<lparr>Server := \<lparr>Host = ''0.0.0.0'', Port = 8080\<rparr>, Endpoints := demo_cfgs\<rparr>"

definition demo_stream :: "timed_event list" where
  "demo_stream = [(1, 0, EventQueued ''/api/v2/users'' 0)]"

lemma demo_attach:
  "NewRegistryWithOpts amd64 demo_bucket 0 (Endpoints demo_server_cfg) [WithMaxDynamic 1] = Ok demo_reg"
  "hasRoot (Endpoints demo_server_cfg)" "distinct (List.map Path (Endpoints demo_server_cfg))"
  "list_all (\<lambda>e. \<not> Dynamic e) (Endpoints demo_server_cfg)"
  using demo_reg_New demo_root by (simp_all add: demo_server_cfg_def) (simp_all add: demo_cfgs_def demo_cfg_def zero_endpoint_def)

lemma demo_stream_clean: "list_all (\<lambda>(now, r, ev). is_clean (ev_path ev)) demo_stream"
  by (simp add: demo_stream_def is_clean_def mk_path_def seg_ok_def)


section \<open>Where they drift apart\<close>

text \<open>
  On a path with a slash at the end the interface makes up another configuration than the
  server: it takes the directory above as the parent, where the server takes the path without
  the slash.
\<close>

lemma trailing_slash_diverges:
  "find_parent (List.member [''/'', ''/api'']) ''/api/'' = Some ''/api''
    \<and> walk_up (List.member [''/'', ''/api'']) ''/api/'' ''/api/'' = Some ''/''"
  by code_simp

text \<open>The client of a queued request disconnects; the dispatcher then pops its ticket.\<close>

definition ghost_run :: "action list" where
  "ghost_run = [AStart 1 0 demo_req, APush 0 1, ACount 1, ASignal 1, ASelect TakeGone 1, AGone 1,
     AWork, AGrant 100000000 [], APop 0, ASend]"

definition ghost_tui :: tui_model where
  "ghost_tui = tui_run (event_msgs (List.map (\<lambda>ev. (1, 0, ev)) (snd (the (evs (demo_after ''strict'' ghost_run))))))
     (NewModel (zero_config\<lparr>Endpoints := [demo_one ''strict'']\<rparr>) DefaultDotThresholds 0 [] 0)"

text \<open>
  A request that is abandoned while it waits leaves a dot that never goes away: the endpoint
  has emitted that it was queued and emits nothing when it is dropped, so with the queue empty
  and every goroutine idle the interface still shows one waiting request.
\<close>

lemma abandoned_request_keeps_dot:
  "reach amd64 fst (\<lambda>_ _. None) (start (demo_ep ''strict'') (Some (4, []))) (demo_after ''strict'' ghost_run)
    \<and> QueueLen (endp (demo_after ''strict'' ghost_run)) = 0
    \<and> disp (demo_after ''strict'' ghost_run) = DIdle \<and> hs (demo_after ''strict'' ghost_run) 1 = HDone Gone
    \<and> map_option (\<lambda>st. length (enqueuedAt st)) (st_at (Path (demo_one ''strict'')) (rows ghost_tui)) = Some 1"
proof -
  have "runs_ok ''strict'' ghost_run" by code_simp
  moreover have "QueueLen (endp (demo_after ''strict'' ghost_run)) = 0"
    "disp (demo_after ''strict'' ghost_run) = DIdle" "hs (demo_after ''strict'' ghost_run) 1 = HDone Gone"
    by code_simp+
  moreover have "snd (the (evs (demo_after ''strict'' ghost_run))) = [EventQueued (Path (demo_one ''strict'')) 0]"
    by code_simp
  then have "map_option (\<lambda>st. length (enqueuedAt st)) (st_at (Path (demo_one ''strict'')) (rows ghost_tui)) = Some 1"
    unfolding ghost_tui_def by (simp only: list.map) code_simp
  ultimately show ?thesis using reach_demo by blast
qed

text \<open>
  A request is pushed and its event waits in the hub's input when a client subscribes: the state
  it is sent counts the request, and then the event arrives.
\<close>

definition twice_lines :: "scan_item list" where
  "twice_lines = List.map Line
     (chans (hub_Run [InEvent (Some (EventQueued ''/'' 0))]
        (Subscribe 1 (Some [\<lparr>snap_Path = ''/'', snap_QueueDepth = 1\<rparr>]) (NewHub defaultConfig))) 1)"

definition attached_model :: "scan_item list \<Rightarrow> tui_model option" where
  "attached_model items =
     (case ConnectAddr (Some items) of
        Inl e \<Rightarrow> None
      | Inr (c, rest) \<Rightarrow>
          Some (tui_run (event_msgs (List.map (\<lambda>ev. (1, 0, ev)) (events (reader rest))))
            (NewModel c DefaultDotThresholds 7 (hd (state_sent (reader rest))) 0)))"

text \<open>
  The snapshot and the event stream overlap: a request whose event is still on its way to the
  hub when a client attaches is counted in the snapshot and again by the event, and one waiting
  request shows as two.
\<close>

lemma attach_counts_twice:
  "map_option (\<lambda>m. map_option (\<lambda>st. length (enqueuedAt st)) (st_at ''/'' (rows m))) (attached_model twice_lines)
     = Some (Some 2)"
  by code_simp

end
