(* ===== verification/EventAccount.thy ===== *)
theory EventAccount
  imports EndpointRun TuiProps
begin

text \<open>
  The events of an endpoint against the fate of its requests: while the sink has room, the events
  emitted so far determine how many requests have been answered, refused, and are shown as
  waiting. The last part carries this over to the rows of the terminal interface.
\<close>

section \<open>What an event says of a request\<close>

fun answered :: "phase \<Rightarrow> bool" where
  "answered (HDone (Served r)) = True"
| "answered _ = False"

fun refused :: "phase \<Rightarrow> bool" where
  "refused (HDone (Rejected m)) = True"
| "refused _ = False"

text \<open>Queued, announced and not answered: still waiting, or abandoned.\<close>

fun shown :: "phase \<Rightarrow> bool" where
  "shown (HSignal t r) = True"
| "shown (HWait t r) = True"
| "shown (HCancelled t r) = True"
| "shown (HReleased t r) = True"
| "shown (HDone Gone) = True"
| "shown _ = False"

text \<open>The move of one request, with what it emits; a request may leave silently at a shutdown.\<close>

definition move_ok :: "string \<Rightarrow> bool \<Rightarrow> phase \<Rightarrow> phase \<Rightarrow> event list \<Rightarrow> bool" where
  "move_ok p stopped old new es \<longleftrightarrow>
     (case es of
        [] \<Rightarrow> answered new = answered old \<and> refused new = refused old
              \<and> (shown new = shown old \<or> (stopped \<and> shown old))
      | [EventRejected q] \<Rightarrow> q = p \<and> refused new \<and> \<not> refused old \<and> \<not> answered old \<and> \<not> shown old
      | [EventQueued q n] \<Rightarrow> q = p \<and> shown new \<and> \<not> shown old \<and> \<not> answered old \<and> \<not> refused old
      | [EventServed q w d] \<Rightarrow> q = p \<and> answered new \<and> shown old \<and> \<not> answered old \<and> \<not> refused old
      | _ \<Rightarrow> False)"

lemma move_stay: "move_ok p stopped ph ph []"
  by (simp add: move_ok_def)

definition moves :: "nat \<Rightarrow> 'tb sys \<Rightarrow> 'tb sys \<Rightarrow> bool" where
  "moves i s s' \<longleftrightarrow>
     (\<exists>new es. hs s' = (hs s)(i := new) \<and> evs s' = fold emit es (evs s)
        \<and> move_ok (Path (cfg (endp s))) (ctx_done (endp s)) (hs s i) new es
        \<and> (ctx_done (endp s) \<longrightarrow> ctx_done (endp s')))"

lemma moves_silent:
  "hs s' = (hs s)(i := new) \<Longrightarrow> evs s' = evs s
   \<Longrightarrow> move_ok (Path (cfg (endp s))) (ctx_done (endp s)) (hs s i) new []
   \<Longrightarrow> (ctx_done (endp s) \<longrightarrow> ctx_done (endp s')) \<Longrightarrow> moves i s s'"
  unfolding moves_def by (intro exI[of _ new] exI[of _ "[]"]) simp

lemma moves_tell:
  "hs s' = (hs s)(i := new) \<Longrightarrow> evs s' = emit e (evs s)
   \<Longrightarrow> move_ok (Path (cfg (endp s))) (ctx_done (endp s)) (hs s i) new [e]
   \<Longrightarrow> (ctx_done (endp s) \<longrightarrow> ctx_done (endp s')) \<Longrightarrow> moves i s s'"
  unfolding moves_def by (intro exI[of _ new] exI[of _ "[e]"]) simp

lemma moves_none:
  "hs s' = hs s \<Longrightarrow> evs s' = evs s \<Longrightarrow> (ctx_done (endp s) \<longrightarrow> ctx_done (endp s')) \<Longrightarrow> moves 0 s s'"
  by (rule moves_silent[where new = "hs s 0"]) (simp_all add: move_stay)

lemma start_moves: "h_start oor Tokens i now r s = Some s' \<Longrightarrow> moves i s s'"
  by (auto simp: h_start_def sys_simps move_ok_def split: phase.splits sum.splits
      intro: moves_silent moves_tell)

lemma push_moves: "h_push g i s = Some s' \<Longrightarrow> moves i s s'"
  by (auto simp: h_push_def sys_simps move_ok_def Let_def split: phase.splits prod.splits if_splits
      intro: moves_silent moves_tell)

lemma retry_moves: "h_retry stop i s = Some s' \<Longrightarrow> moves i s s'"
  by (auto simp: h_retry_def sys_simps move_ok_def split: phase.splits if_splits intro: moves_silent)

lemma count_moves: "h_count i s = Some s' \<Longrightarrow> moves i s s'"
  by (auto simp: h_count_def sys_simps move_ok_def Let_def split: phase.splits if_splits intro: moves_tell)

lemma signal_moves: "h_signal i s = Some s' \<Longrightarrow> moves i s s'"
  by (auto simp: h_signal_def sys_simps move_ok_def split: phase.splits if_splits intro: moves_silent)

lemma select_moves: "h_select ch i s = Some s' \<Longrightarrow> moves i s s'"
  by (auto simp: h_select_def sys_simps move_ok_def split: phase.splits choice.splits if_splits intro: moves_silent)

lemma gone_moves: "h_gone i s = Some s' \<Longrightarrow> moves i s s'"
  by (auto simp: h_gone_def sys_simps move_ok_def Let_def split: phase.splits if_splits intro: moves_silent)

lemma respond_moves: "h_respond now now_ms i s = Some s' \<Longrightarrow> moves i s s'"
  by (auto simp: h_respond_def respond_def sys_simps move_ok_def Let_def split: phase.splits intro: moves_tell)

lemmas handler_moves = start_moves push_moves retry_moves count_moves signal_moves select_moves gone_moves respond_moves

lemma exec_moves:
  assumes "exec oor Tokens tbWait a s = Some s'"
  shows "\<exists>i. moves i s s'"
proof -
  note defs = disp_defs d_pop_def d_send_def d_scan_def d_release_def release_def sys_simps ep_Stop_def Let_def
  have "(\<exists>i. moves i s s') \<or> (hs s' = hs s \<and> evs s' = evs s \<and> (ctx_done (endp s) \<longrightarrow> ctx_done (endp s')))"
    using assms
    by (cases a) (auto simp: defs dest: handler_moves split: phase.splits dpc.splits option.splits prod.splits
        list.splits if_splits)
  then show ?thesis using moves_none by blast
qed

section \<open>The accounts\<close>

definition number :: "(phase \<Rightarrow> bool) \<Rightarrow> 'tb sys \<Rightarrow> nat" where
  "number P s = card {i. P (hs s i)}"

lemma number_move:
  assumes "finite {j. P (hs s j)}" and "hs s' = (hs s)(i := new)"
  shows "finite {j. P (hs s' j)} \<and> number P s' + of_bool (P (hs s i)) = number P s + of_bool (P new)"
proof -
  let ?A = "{j. P (hs s j)}"
  have eq: "{j. P (hs s' j)} = (if P new then insert i ?A else ?A - {i})" using assms(2) by auto
  moreover have "card ?A > 0" if "P (hs s i)" using assms(1) that by (auto simp: card_gt_0_iff)
  ultimately show ?thesis using assms(1)
    by (auto simp: number_def card_insert_if card_Diff_singleton_if)
qed

lemma dots_snoc [simp]:
  "dots (es @ [EventQueued q k]) n = Suc (dots es n)"
  "dots (es @ [EventServed q w d]) n = dots es n - 1"
  "dots (es @ [EventRejected q]) n = dots es n"
  by (induction es n rule: dots.induct) auto

definition account :: "string \<Rightarrow> 'tb sys \<Rightarrow> bool" where
  "account p s \<longleftrightarrow>
     (\<forall>b E. evs s = Some (b, E) \<longrightarrow> length E < b \<longrightarrow>
        finite {i. answered (hs s i)} \<and> finite {i. refused (hs s i)} \<and> finite {i. shown (hs s i)}
        \<and> number answered s = length (List.filter is_served E)
        \<and> number refused s = length (List.filter is_rejected E)
        \<and> number shown s \<le> dots E 0 \<and> (\<not> ctx_done (endp s) \<longrightarrow> number shown s = dots E 0)
        \<and> list_all (\<lambda>e. ev_path e = p) E)"

lemma answered_not_shown: "answered ph \<Longrightarrow> \<not> shown ph \<and> \<not> refused ph"
  and refused_not_shown: "refused ph \<Longrightarrow> \<not> shown ph \<and> \<not> answered ph"
  and shown_only: "shown ph \<Longrightarrow> \<not> answered ph \<and> \<not> refused ph"
  by (cases ph rule: answered.cases; simp)+

lemma account_step:
  assumes "account p s" and "moves i s s'" and p: "p = Path (cfg (endp s))"
  shows "account p s'"
  unfolding account_def
proof (intro allI impI)
  fix b E'
  assume E': "evs s' = Some (b, E')" "length E' < b"
  obtain new es where m: "hs s' = (hs s)(i := new)" "evs s' = fold emit es (evs s)"
    "move_ok p (ctx_done (endp s)) (hs s i) new es" "ctx_done (endp s) \<longrightarrow> ctx_done (endp s')"
    using assms(2) p unfolding moves_def by blast
  have short: "es = [] \<or> (\<exists>e. es = [e])" using m(3)
    by (cases es rule: remdups_adj.cases) (auto simp: move_ok_def split: event.splits)
  then obtain E where E: "evs s = Some (b, E)" "E' = E @ es" "length E < b"
    using E' m(2) by (cases "evs s") (auto split: if_splits)
  have a: "finite {i. answered (hs s i)}" "finite {i. refused (hs s i)}" "finite {i. shown (hs s i)}"
    "number answered s = length (List.filter is_served E)" "number refused s = length (List.filter is_rejected E)"
    "number shown s \<le> dots E 0" "\<not> ctx_done (endp s) \<longrightarrow> number shown s = dots E 0"
    "list_all (\<lambda>e. ev_path e = p) E"
    using assms(1) E unfolding account_def by auto
  note n = number_move[OF a(1) m(1)] number_move[OF a(2) m(1)] number_move[OF a(3) m(1)]
  show "finite {i. answered (hs s' i)} \<and> finite {i. refused (hs s' i)} \<and> finite {i. shown (hs s' i)}
      \<and> number answered s' = length (List.filter is_served E')
      \<and> number refused s' = length (List.filter is_rejected E')
      \<and> number shown s' \<le> dots E' 0 \<and> (\<not> ctx_done (endp s') \<longrightarrow> number shown s' = dots E' 0)
      \<and> list_all (\<lambda>e. ev_path e = p) E'"
    using short
  proof
    assume "es = []"
    then show ?thesis using n a m(3,4) E(2)
      by (cases "shown new"; cases "shown (hs s i)") (auto simp: move_ok_def)
  next
    assume "\<exists>e. es = [e]"
    then obtain e where e: "es = [e]" by blast
    show ?thesis
    proof (cases e)
      case (EventQueued q k)
      then show ?thesis using n a m(3,4) E(2) e shown_only[of new] by (auto simp: move_ok_def)
    next
      case (EventServed q w d)
      then have "\<not> shown new" "\<not> refused new" using m(3) e answered_not_shown[of new] by (auto simp: move_ok_def)
      then show ?thesis using EventServed n a m(3,4) E(2) e by (auto simp: move_ok_def)
    next
      case (EventRejected q)
      then have "\<not> shown new" "\<not> answered new" using m(3) e refused_not_shown[of new] by (auto simp: move_ok_def)
      then show ?thesis using EventRejected n a m(3,4) E(2) e by (auto simp: move_ok_def)
    qed
  qed
qed

lemma account_reach:
  assumes "reach oor Tokens tbWait (start ep sk) s" and "sink_events sk = []"
  shows "account (Path (cfg ep)) s"
  using assms(1)
proof (induction rule: reach.induct)
  case reach_start
  then show ?case using assms(2) by (auto simp: account_def start_def number_def sink_events_def)
next
  case (reach_step s a s')
  have "cfg (endp s) = cfg ep" using reach_cfg[OF reach_step.hyps(1)] by (simp add: start_def)
  then show ?case using exec_moves[OF reach_step.hyps(2)] account_step reach_step.IH by metis
qed

section \<open>The rows of the interface\<close>

text \<open>
  The interface against the server: in every state an endpoint can reach, however its handlers
  and its dispatcher interleaved, a row fed with the events emitted so far shows as served
  exactly the requests answered with 200 and as rejected exactly those refused, and has one dot
  for every request that is waiting or was abandoned while it waited, unless the server is
  shutting down, when there may be more. The sink must not have been full.
\<close>

lemma rows_match_requests:
  assumes "reach oor Tokens tbWait (start ep (Some (b, []))) s" and "evs s = Some (b, es)" and "length es < b"
    and "evs_of xs = es" and "\<not> paused m" and "st_at (Path (cfg ep)) (rows m) = Some (new_state c dyn)"
  shows "\<exists>st. st_at (Path (cfg ep)) (rows (tui_run (event_msgs xs) m)) = Some st
    \<and> served st = i64 (int (number answered s)) \<and> rejected st = i64 (int (number refused s))
    \<and> number shown s \<le> length (enqueuedAt st)
    \<and> (ctx_done (endp s) \<or> length (enqueuedAt st) = number shown s)"
proof -
  have a: "account (Path (cfg ep)) s" using account_reach[OF assms(1)] by (simp add: sink_events_def)
  then have "list_all (\<lambda>e. ev_path e = Path (cfg ep)) es" using assms(2,3) by (simp add: account_def)
  then have "own_events (Path (cfg ep)) xs = xs"
    unfolding own_events_def using assms(4) by (auto simp: evs_of_def list_all_iff intro!: filter_True)
  moreover have "is_i64 (served (new_state c dyn))" "is_i64 (rejected (new_state c dyn))"
    by (simp_all add: new_state_def is_i64_def)
  moreover note rows_independent[OF assms(5,6), of xs] row_after_counts[of "new_state c dyn" xs]
  ultimately show ?thesis using a assms(2-4) by (auto simp: account_def new_state_def)
qed

definition served_events :: "timed_event list" where
  "served_events = List.map (\<lambda>e. (1, 0, e)) (snd (the (evs (demo_after ''strict'' demo_served_run))))"

end
