(* ===== verification/WholeServer.thy ===== *)
theory WholeServer
  imports Server EventAccount
begin

text \<open>
  The running server as one system: the HTTP side of \<open>Server\<close> with the goroutines of every
  registered endpoint (\<open>EndpointRun\<close>) and the one event channel that \<^verbatim>\<open>main.go\<close> gives to all of them.
  The data of an endpoint is in the registry and nowhere else; beside it there are the program
  counters of its goroutines. A request keeps its number from the listener to the handler.
\<close>

section \<open>State\<close>

record goroutines =
  g_hs :: "nat \<Rightarrow> phase"
  g_cells :: "nat \<Rightarrow> ticket_cell"
  g_disp :: dpc

text \<open>\<open>emitted\<close> is the history of all events, lost ones included.\<close>

record 'tb whole =
  srv :: "'tb server"
  procs :: "string \<Rightarrow> goroutines"
  rawEvents :: sink
  emitted :: "event list"

definition idle_goroutines :: goroutines where
  "idle_goroutines = \<lparr>g_hs = (\<lambda>_. HNone), g_cells = (\<lambda>_. \<lparr>Release = 0, cancelled = 0\<rparr>), g_disp = DIdle\<rparr>"

text \<open>
  What \<open>main\<close> starts: the channel of 256 events, and the server whose endpoints all write to it.
\<close>

definition start_server ::
  "(float64 \<Rightarrow> int) \<Rightarrow> (float64 \<Rightarrow> int \<Rightarrow> 'tb) \<Rightarrow> int \<Rightarrow> config \<Rightarrow> 'tb whole outcome" where
  "start_server oor NewLimiter now c =
     (case server_New oor NewLimiter now c of
        Err e \<Rightarrow> Err e
      | Panic m \<Rightarrow> Panic m
      | Ok s \<Rightarrow> Ok \<lparr>srv = s, procs = (\<lambda>_. idle_goroutines), rawEvents = Some (256, []), emitted = []\<rparr>)"

text \<open>One endpoint with its goroutines, writing to the sink \<open>sk\<close>.\<close>

definition sys_of :: "'tb endpoint \<Rightarrow> goroutines \<Rightarrow> sink \<Rightarrow> 'tb sys" where
  "sys_of ep g sk = \<lparr>endp = ep, hs = g_hs g, cells = g_cells g, disp = g_disp g, evs = sk\<rparr>"

definition put_sys :: "string \<Rightarrow> 'tb sys \<Rightarrow> 'tb whole \<Rightarrow> 'tb whole" where
  "put_sys p s w =
     w\<lparr>srv := (srv w)\<lparr>sreg := (sreg (srv w))\<lparr>eps := AList.update p (endp s) (eps (sreg (srv w)))\<rparr>\<rparr>,
       procs := (procs w)(p := \<lparr>g_hs = hs s, g_cells = cells s, g_disp = disp s\<rparr>),
       rawEvents := fold emit (sink_events (evs s)) (rawEvents w),
       emitted := emitted w @ sink_events (evs s)\<rparr>"

section \<open>Steps\<close>

text \<open>
  A handler starts with a request that the server has passed to this endpoint; the endpoints are
  stopped by the registry only.
\<close>

fun may_run :: "string \<Rightarrow> action \<Rightarrow> 'tb whole \<Rightarrow> bool" where
  "may_run p (AStart i now r) w \<longleftrightarrow> reqs (srv w) i = RHandling p"
| "may_run p AStop w \<longleftrightarrow> False"
| "may_run p a w \<longleftrightarrow> True"

text \<open>A step emits at most one event, which a sink of one place catches.\<close>

definition w_exec ::
  "(float64 \<Rightarrow> int) \<Rightarrow> ('tb \<Rightarrow> float64) \<Rightarrow> (int \<Rightarrow> 'tb \<Rightarrow> 'tb option) \<Rightarrow> string \<Rightarrow> action
   \<Rightarrow> 'tb whole \<Rightarrow> 'tb whole option" where
  "w_exec oor Tokens tbWait p a w =
     (if may_run p a w then
        (case map_of (eps (sreg (srv w))) p of
           None \<Rightarrow> None
         | Some ep \<Rightarrow>
             map_option (\<lambda>s. put_sys p s w) (exec oor Tokens tbWait a (sys_of ep (procs w p) (Some (1, [])))))
      else None)"

text \<open>\<open>Handle\<close> returns when its handler has.\<close>

definition w_done :: "nat \<Rightarrow> 'tb whole \<Rightarrow> 'tb whole option" where
  "w_done i w =
     (case reqs (srv w) i of
        RHandling p \<Rightarrow>
          (case g_hs (procs w p) i of
             HDone res \<Rightarrow> map_option (\<lambda>s. w\<lparr>srv := s\<rparr>) (s_done i (srv w))
           | _ \<Rightarrow> None)
      | _ \<Rightarrow> None)"

text \<open>The reader of the event channel.\<close>

definition w_recv :: "'tb whole \<Rightarrow> (event \<times> 'tb whole) option" where
  "w_recv w = map_option (\<lambda>(ev, sk). (ev, w\<lparr>rawEvents := sk\<rparr>)) (sink_recv (rawEvents w))"

inductive w_move ::
  "(float64 \<Rightarrow> int) \<Rightarrow> (float64 \<Rightarrow> int \<Rightarrow> 'tb) \<Rightarrow> ('tb \<Rightarrow> float64) \<Rightarrow> (int \<Rightarrow> 'tb \<Rightarrow> 'tb option) \<Rightarrow> bool
   \<Rightarrow> 'tb whole \<Rightarrow> 'tb whole \<Rightarrow> bool"
  for oor NewLimiter Tokens tbWait expired where
  accept: "s_accept i path (srv w) = Some s \<Longrightarrow> w_move oor NewLimiter Tokens tbWait expired w (w\<lparr>srv := s\<rparr>)"
| route: "s_route oor NewLimiter now i (srv w) = Some s \<Longrightarrow> w_move oor NewLimiter Tokens tbWait expired w (w\<lparr>srv := s\<rparr>)"
| add: "s_add i (srv w) = Some s \<Longrightarrow> w_move oor NewLimiter Tokens tbWait expired w (w\<lparr>srv := s\<rparr>)"
| run: "w_exec oor Tokens tbWait p a w = Some w' \<Longrightarrow> w_move oor NewLimiter Tokens tbWait expired w w'"
| finish: "w_done i w = Some w' \<Longrightarrow> w_move oor NewLimiter Tokens tbWait expired w w'"
| shutdown: "s_shutdown expired (srv w) s \<Longrightarrow> w_move oor NewLimiter Tokens tbWait expired w (w\<lparr>srv := s\<rparr>)"

text \<open>A step of the server, or of the reader of the events.\<close>

definition w_step ::
  "(float64 \<Rightarrow> int) \<Rightarrow> (float64 \<Rightarrow> int \<Rightarrow> 'tb) \<Rightarrow> ('tb \<Rightarrow> float64) \<Rightarrow> (int \<Rightarrow> 'tb \<Rightarrow> 'tb option) \<Rightarrow> bool
   \<Rightarrow> 'tb whole \<Rightarrow> 'tb whole \<Rightarrow> bool" where
  "w_step oor NewLimiter Tokens tbWait expired w w' \<longleftrightarrow>
     w_move oor NewLimiter Tokens tbWait expired w w' \<or> (\<exists>ev. w_recv w = Some (ev, w'))"

lemma w_step_cases [consumes 1, case_names accept route add run finish shutdown recv]:
  assumes "w_step oor NewLimiter Tokens tbWait expired w w'"
  obtains i path s where "w' = w\<lparr>srv := s\<rparr>" "s_accept i path (srv w) = Some s"
  | now i s where "w' = w\<lparr>srv := s\<rparr>" "s_route oor NewLimiter now i (srv w) = Some s"
  | i s where "w' = w\<lparr>srv := s\<rparr>" "s_add i (srv w) = Some s"
  | p a where "w_exec oor Tokens tbWait p a w = Some w'"
  | i where "w_done i w = Some w'"
  | s where "w' = w\<lparr>srv := s\<rparr>" "s_shutdown expired (srv w) s"
  | ev where "w_recv w = Some (ev, w')"
  using assms unfolding w_step_def by (elim disjE exE) (auto elim: w_move.cases)

definition w_reach ::
  "(float64 \<Rightarrow> int) \<Rightarrow> (float64 \<Rightarrow> int \<Rightarrow> 'tb) \<Rightarrow> ('tb \<Rightarrow> float64) \<Rightarrow> (int \<Rightarrow> 'tb \<Rightarrow> 'tb option) \<Rightarrow> bool
   \<Rightarrow> 'tb whole \<Rightarrow> 'tb whole \<Rightarrow> bool" where
  "w_reach oor NewLimiter Tokens tbWait expired = (w_step oor NewLimiter Tokens tbWait expired)\<^sup>*\<^sup>*"

section \<open>An endpoint does not see its sink\<close>

definition own :: "string \<Rightarrow> event list \<Rightarrow> event list" where
  "own p es = List.filter (\<lambda>e. ev_path e = p) es"

lemma own_simps [simp]: "own p [] = []" "own p (es @ es') = own p es @ own p es'"
  by (simp_all add: own_def)

text \<open>A step that would be the same with any sink, the one event apart that it may emit.\<close>

definition blind :: "('tb sys \<Rightarrow> 'tb sys option) \<Rightarrow> 'tb sys \<Rightarrow> 'tb sys \<Rightarrow> bool" where
  "blind f s s' \<longleftrightarrow>
     (\<exists>es. (es = [] \<or> (\<exists>e. es = [e])) \<and> own (Path (cfg (endp s))) es = es
        \<and> evs s' = fold emit es (evs s) \<and> (\<forall>sk. f (s\<lparr>evs := sk\<rparr>) = Some (s'\<lparr>evs := fold emit es sk\<rparr>)))"

lemma blind_silent:
  "evs s' = evs s \<Longrightarrow> (\<And>sk. f (s\<lparr>evs := sk\<rparr>) = Some (s'\<lparr>evs := sk\<rparr>)) \<Longrightarrow> blind f s s'"
  unfolding blind_def by (intro exI[of _ "[]"]) simp

lemma blind_tell:
  "evs s' = emit e (evs s) \<Longrightarrow> ev_path e = Path (cfg (endp s))
   \<Longrightarrow> (\<And>sk. f (s\<lparr>evs := sk\<rparr>) = Some (s'\<lparr>evs := emit e sk\<rparr>)) \<Longrightarrow> blind f s s'"
  unfolding blind_def by (intro exI[of _ "[e]"]) (simp add: own_def)

lemma start_blind: "h_start oor Tokens i now r s = Some s' \<Longrightarrow> blind (h_start oor Tokens i now r) s s'"
  by (auto simp: h_start_def sys_simps split: phase.splits sum.splits intro: blind_silent blind_tell)

lemma push_blind: "h_push g i s = Some s' \<Longrightarrow> blind (h_push g i) s s'"
  by (auto simp: h_push_def sys_simps Let_def split: phase.splits prod.splits if_splits intro: blind_silent blind_tell)

lemma respond_blind: "h_respond now now_ms i s = Some s' \<Longrightarrow> blind (h_respond now now_ms i) s s'"
  by (auto simp: h_respond_def respond_def sys_simps Let_def split: phase.splits intro: blind_tell)

lemma count_blind: "h_count i s = Some s' \<Longrightarrow> blind (h_count i) s s'"
  by (auto simp: h_count_def sys_simps Let_def split: phase.splits if_splits intro: blind_tell)

lemma handler_blind:
  "h_retry stop i s = Some s' \<Longrightarrow> blind (h_retry stop i) s s'"
  "h_signal i s = Some s' \<Longrightarrow> blind (h_signal i) s s'"
  "h_select ch i s = Some s' \<Longrightarrow> blind (h_select ch i) s s'"
  "h_gone i s = Some s' \<Longrightarrow> blind (h_gone i) s s'"
  by (auto simp: handler_defs sys_simps Let_def split: phase.splits choice.splits if_splits intro: blind_silent)

lemma dispatcher_blind:
  "d_stop s = Some s' \<Longrightarrow> blind d_stop s s'"
  "d_work s = Some s' \<Longrightarrow> blind d_work s s'"
  "d_wait oor tbWait now polls s = Some s' \<Longrightarrow> blind (d_wait oor tbWait now polls) s s'"
  "d_wait_stop s = Some s' \<Longrightarrow> blind d_wait_stop s s'"
  "d_reset s = Some s' \<Longrightarrow> blind d_reset s s'"
  "d_check s = Some s' \<Longrightarrow> blind d_check s s'"
  "d_sub s = Some s' \<Longrightarrow> blind d_sub s s'"
  "w_tick s = Some s' \<Longrightarrow> blind w_tick s s'"
  by (auto simp: disp_defs sys_simps split: dpc.splits option.splits if_splits intro: blind_silent)

lemma release_blind: "release t s = Some s' \<Longrightarrow> blind (release t) s s'"
  by (auto simp: release_def split: if_splits intro: blind_silent)

lemma queue_blind:
  "d_pop x s = Some s' \<Longrightarrow> blind (d_pop x) s s'"
  "d_scan ticks s = Some s' \<Longrightarrow> blind (d_scan ticks) s s'"
  "d_send s = Some s' \<Longrightarrow> blind d_send s s'"
  "d_release s = Some s' \<Longrightarrow> blind d_release s s'"
  by (auto simp: d_pop_def d_scan_def d_send_def d_release_def release_def sys_simps
      split: dpc.splits option.splits prod.splits list.splits if_splits intro: blind_silent)

lemmas blinds = start_blind push_blind respond_blind count_blind handler_blind dispatcher_blind queue_blind

lemma exec_funs:
  "exec oor Tokens tbWait (AStart i now r) = h_start oor Tokens i now r"
  "exec oor Tokens tbWait (APush g i) = h_push g i" "exec oor Tokens tbWait (ARetry stop i) = h_retry stop i"
  "exec oor Tokens tbWait (ACount i) = h_count i" "exec oor Tokens tbWait (ASignal i) = h_signal i"
  "exec oor Tokens tbWait (ASelect ch i) = h_select ch i" "exec oor Tokens tbWait (AGone i) = h_gone i"
  "exec oor Tokens tbWait (ARespond now now_ms i) = h_respond now now_ms i"
  "exec oor Tokens tbWait AStopSeen = d_stop" "exec oor Tokens tbWait AWork = d_work"
  "exec oor Tokens tbWait (AGrant now polls) = d_wait oor tbWait now polls"
  "exec oor Tokens tbWait AWaitStop = d_wait_stop" "exec oor Tokens tbWait (APop x) = d_pop x"
  "exec oor Tokens tbWait ASend = d_send" "exec oor Tokens tbWait AReset = d_reset"
  "exec oor Tokens tbWait (AScan ticks) = d_scan ticks" "exec oor Tokens tbWait ARelease = d_release"
  "exec oor Tokens tbWait ACheck = d_check" "exec oor Tokens tbWait ASub = d_sub"
  "exec oor Tokens tbWait ATick = w_tick" "exec oor Tokens tbWait AStop = (\<lambda>s. Some (on_ep ep_Stop s))"
  by (rule ext, simp)+

lemma exec_blind:
  assumes "exec oor Tokens tbWait a s = Some s'"
  shows "blind (exec oor Tokens tbWait a) s s'"
proof (cases a)
  case AStop
  then show ?thesis using assms by (intro blind_silent) (auto simp: on_ep_def)
qed (insert assms, (simp only: exec_funs, erule blinds)+)

section \<open>Each endpoint runs as if it were alone\<close>

lemma exec_catch:
  assumes "exec oor Tokens tbWait a (sys_of ep g (Some (1, []))) = Some s'"
  shows "own (Path (cfg ep)) (sink_events (evs s')) = sink_events (evs s')
    \<and> length (sink_events (evs s')) \<le> 1
    \<and> exec oor Tokens tbWait a (sys_of ep g sk) = Some (s'\<lparr>evs := fold emit (sink_events (evs s')) sk\<rparr>)"
proof -
  have s: "(sys_of ep g (Some (1, [])))\<lparr>evs := sk\<rparr> = sys_of ep g sk" for sk by (simp add: sys_of_def)
  obtain es where es: "es = [] \<or> (\<exists>e. es = [e])" "own (Path (cfg ep)) es = es"
    "evs s' = fold emit es (Some (1, []))" "\<And>sk. exec oor Tokens tbWait a (sys_of ep g sk) = Some (s'\<lparr>evs := fold emit es sk\<rparr>)"
    using exec_blind[OF assms] unfolding blind_def s by (auto simp: sys_of_def)
  then have "sink_events (evs s') = es" by (auto simp: sink_events_def)
  then show ?thesis using es by auto
qed

text \<open>
  The endpoint \<open>ep\<close> with its goroutines is in a state that an endpoint for the path \<open>p\<close> reaches on
  its own, having emitted \<open>es\<close>.
\<close>

definition alone ::
  "(float64 \<Rightarrow> int) \<Rightarrow> (float64 \<Rightarrow> int \<Rightarrow> 'tb) \<Rightarrow> ('tb \<Rightarrow> float64) \<Rightarrow> (int \<Rightarrow> 'tb \<Rightarrow> 'tb option)
   \<Rightarrow> string \<Rightarrow> 'tb endpoint \<Rightarrow> goroutines \<Rightarrow> event list \<Rightarrow> bool" where
  "alone oor NewLimiter Tokens tbWait p ep g es \<longleftrightarrow>
     (\<exists>ep0 now c. endpoint_New oor NewLimiter now c = Ok ep0 \<and> Path c = p
        \<and> (\<forall>sk. reach oor Tokens tbWait (start ep0 sk) (sys_of ep g (fold emit es sk))))"

lemma alone_new:
  "endpoint_New oor NewLimiter now c = Ok ep \<Longrightarrow> Path c = p
   \<Longrightarrow> alone oor NewLimiter Tokens tbWait p ep idle_goroutines []"
  unfolding alone_def
  by (intro exI[of _ ep] exI[of _ now] exI[of _ c])
    (auto simp: sys_of_def idle_goroutines_def start_def intro: reach_start[unfolded start_def])

lemma alone_Path:
  assumes "alone oor NewLimiter Tokens tbWait p ep g es"
  shows "Path (cfg ep) = p"
proof -
  obtain ep0 now c where a: "endpoint_New oor NewLimiter now c = Ok ep0" "Path c = p"
    "reach oor Tokens tbWait (start ep0 None) (sys_of ep g (fold emit es None))"
    using assms unfolding alone_def by blast
  then show ?thesis using reach_cfg[OF a(3)] endpoint_New_Ok(1)[OF a(1)] by (simp add: sys_of_def start_def)
qed

lemma alone_step:
  assumes "alone oor NewLimiter Tokens tbWait p ep g es"
    and "exec oor Tokens tbWait a (sys_of ep g (Some (1, []))) = Some s'"
  shows "alone oor NewLimiter Tokens tbWait p (endp s') \<lparr>g_hs = hs s', g_cells = cells s', g_disp = disp s'\<rparr>
      (es @ sink_events (evs s'))"
proof -
  let ?es = "sink_events (evs s')"
  have eq: "s'\<lparr>evs := fold emit ?es (fold emit es sk)\<rparr>
      = sys_of (endp s') \<lparr>g_hs = hs s', g_cells = cells s', g_disp = disp s'\<rparr> (fold emit (es @ ?es) sk)" for sk
    by (simp add: sys_of_def)
  have "exec oor Tokens tbWait a (sys_of ep g (fold emit es sk)) = Some (s'\<lparr>evs := fold emit ?es (fold emit es sk)\<rparr>)" for sk
    using exec_catch[OF assms(2)] by blast
  then show ?thesis using assms(1) reach_step unfolding alone_def eq by metis
qed

lemma alone_Stop:
  assumes "alone oor NewLimiter Tokens tbWait p ep g es"
  shows "alone oor NewLimiter Tokens tbWait p (ep_Stop ep) g es"
proof -
  have "exec oor Tokens tbWait AStop (sys_of ep g (Some (1, []))) = Some (sys_of (ep_Stop ep) g (Some (1, [])))"
    by (simp add: sys_of_def on_ep_def)
  from alone_step[OF assms this] show ?thesis by (cases g) (simp add: sys_of_def sink_events_def)
qed

definition w_inv ::
  "(float64 \<Rightarrow> int) \<Rightarrow> (float64 \<Rightarrow> int \<Rightarrow> 'tb) \<Rightarrow> ('tb \<Rightarrow> float64) \<Rightarrow> (int \<Rightarrow> 'tb \<Rightarrow> 'tb option) \<Rightarrow> 'tb whole \<Rightarrow> bool" where
  "w_inv oor NewLimiter Tokens tbWait w \<longleftrightarrow>
     (\<forall>p. map_of (eps (sreg (srv w))) p = None \<longrightarrow> procs w p = idle_goroutines \<and> own p (emitted w) = [])
     \<and> (\<forall>p ep. map_of (eps (sreg (srv w))) p = Some ep \<longrightarrow>
            alone oor NewLimiter Tokens tbWait p ep (procs w p) (own p (emitted w)))"

lemma w_inv_frame:
  "w_inv oor NewLimiter Tokens tbWait w \<Longrightarrow> eps (sreg (srv w')) = eps (sreg (srv w)) \<Longrightarrow> procs w' = procs w
   \<Longrightarrow> emitted w' = emitted w \<Longrightarrow> w_inv oor NewLimiter Tokens tbWait w'"
  by (simp add: w_inv_def)

lemma route_reg:
  assumes "s_route oor NewLimiter now i s = Some s'"
  shows "sreg s' = sreg s \<or> (\<exists>path k. Match_locked oor NewLimiter now path (sreg s) = Ok (k, sreg s'))"
proof -
  obtain path where p: "reqs s i = RAccepted path" using assms by (auto simp: s_route_def split: req_phase.splits)
  show ?thesis
  proof (cases "Match_locked oor NewLimiter now path (sreg s)")
    case (Ok kr)
    then show ?thesis using assms p
      by (cases kr; cases "fst kr") (auto simp: s_route_def Match_is_locked)
  qed (use assms p in \<open>auto simp: s_route_def Match_is_locked\<close>)
qed

lemma w_inv_route:
  assumes "w_inv oor NewLimiter Tokens tbWait w" and "s_route oor NewLimiter now i (srv w) = Some s"
  shows "w_inv oor NewLimiter Tokens tbWait (w\<lparr>srv := s\<rparr>)"
  using route_reg[OF assms(2)]
proof
  assume "sreg s = sreg (srv w)"
  then show ?thesis by (intro w_inv_frame[OF assms(1)]) auto
next
  assume "\<exists>path k. Match_locked oor NewLimiter now path (sreg (srv w)) = Ok (k, sreg s)"
  then obtain path k where m: "Match_locked oor NewLimiter now path (sreg (srv w)) = Ok (k, sreg s)" by blast
  show ?thesis
  proof (cases rule: Match_locked_cases[OF m])
    case (4 q c ep)
    then have "map_of (eps (sreg (srv w))) path = None" by (simp add: registered_def)
    then have "procs w path = idle_goroutines \<and> own path (emitted w) = []"
      using assms(1) unfolding w_inv_def by blast
    moreover have "alone oor NewLimiter Tokens tbWait path ep idle_goroutines []"
      by (rule alone_new[OF 4(6)]) (simp add: dynamic_config_def InheritFrom_bare)
    ultimately show ?thesis
      using assms(1) 4(7) by (auto simp: w_inv_def update_conv')
  qed (use assms(1) in \<open>auto simp: w_inv_def\<close>)
qed

lemma map_of_stopped:
  "map_of (eps (StopAll r)) p = map_option ep_Stop (map_of (eps r) p)"
proof -
  have "map_of (List.map (apsnd ep_Stop) xs) p = map_option ep_Stop (map_of xs p)" for xs :: "(string \<times> 'a endpoint) list"
    by (induction xs) auto
  then show ?thesis by (simp add: StopAll_def)
qed

lemma w_exec_cases:
  assumes "w_exec oor Tokens tbWait p a w = Some w'"
  obtains ep s' where "may_run p a w" "map_of (eps (sreg (srv w))) p = Some ep"
    "exec oor Tokens tbWait a (sys_of ep (procs w p) (Some (1, []))) = Some s'" "w' = put_sys p s' w"
  using assms by (auto simp: w_exec_def split: if_splits option.splits)

lemma w_inv_exec:
  assumes "w_inv oor NewLimiter Tokens tbWait w" and "w_exec oor Tokens tbWait p a w = Some w'"
  shows "w_inv oor NewLimiter Tokens tbWait w'"
proof (cases rule: w_exec_cases[OF assms(2)])
  case (1 ep s')
  have a: "alone oor NewLimiter Tokens tbWait p ep (procs w p) (own p (emitted w))"
    using assms(1) 1(2) unfolding w_inv_def by blast
  have o: "own p (sink_events (evs s')) = sink_events (evs s')"
    using exec_catch[OF 1(3)] alone_Path[OF a] by simp
  have other: "own q (sink_events (evs s')) = []" if "q \<noteq> p" for q
    using arg_cong[OF o, of "own q"] that by (auto simp: own_def filter_empty_conv intro: sym)
  show ?thesis
    using assms(1) alone_step[OF a 1(3)] o other
    by (auto simp: 1(4) w_inv_def put_sys_def update_conv')
qed

lemma s_accept_reg: "s_accept i path s = Some s' \<Longrightarrow> sreg s' = sreg s"
  and s_add_reg: "s_add i s = Some s' \<Longrightarrow> sreg s' = sreg s"
  and s_done_reg: "s_done i s = Some s' \<Longrightarrow> sreg s' = sreg s"
  by (auto simp: s_accept_def s_add_def s_done_def split: req_phase.splits if_splits)

lemma w_done_cases:
  assumes "w_done i w = Some w'"
  obtains p res s where "reqs (srv w) i = RHandling p" "g_hs (procs w p) i = HDone res"
    "s_done i (srv w) = Some s" "w' = w\<lparr>srv := s\<rparr>"
  using assms by (auto simp: w_done_def split: req_phase.splits phase.splits)

lemma w_recv_frame:
  "w_recv w = Some (ev, w') \<Longrightarrow> srv w' = srv w \<and> procs w' = procs w \<and> emitted w' = emitted w"
  by (auto simp: w_recv_def)

lemma w_inv_step:
  assumes "w_step oor NewLimiter Tokens tbWait expired w w'" and "w_inv oor NewLimiter Tokens tbWait w"
  shows "w_inv oor NewLimiter Tokens tbWait w'"
  using assms(1)
proof (cases rule: w_step_cases)
  case (accept i path s)
  then show ?thesis using s_accept_reg[OF accept(2)] by (intro w_inv_frame[OF assms(2)]) auto
next
  case (route now i s)
  then show ?thesis using w_inv_route[OF assms(2)] by blast
next
  case (add i s)
  then show ?thesis using s_add_reg[OF add(2)] by (intro w_inv_frame[OF assms(2)]) auto
next
  case (run p a)
  then show ?thesis using w_inv_exec[OF assms(2)] by blast
next
  case (finish i)
  then show ?thesis
    by (cases rule: w_done_cases[OF finish]) (auto dest: s_done_reg intro!: w_inv_frame[OF assms(2)])
next
  case (shutdown s)
  from shutdown(2) show ?thesis
  proof cases
    case stop_all
    then show ?thesis using assms(2) alone_Stop
      by (fastforce simp: shutdown(1) w_inv_def map_of_stopped)
  qed (auto simp: shutdown(1) intro!: w_inv_frame[OF assms(2)])
next
  case (recv ev)
  then show ?thesis using w_recv_frame[OF recv] by (intro w_inv_frame[OF assms(2)]) auto
qed

lemma add_all_from:
  "add_all oor NewLimiter now cs r = Ok r' \<Longrightarrow> map_of (eps r') p = Some ep
   \<Longrightarrow> map_of (eps r) p = Some ep \<or> (\<exists>c \<in> set cs. Path c = p \<and> endpoint_New oor NewLimiter now c = Ok ep)"
  by (induction cs arbitrary: r) (fastforce simp: update_conv' split: outcome.splits if_splits)+

lemma fold_options_eps: "eps (fold (\<lambda>ro. ro) (registry_options c) r) = eps r"
  by (simp add: registry_options_def WithMaxDynamic_def)

lemma start_server_Ok:
  assumes "start_server oor NewLimiter now c = Ok w"
  shows "server_New oor NewLimiter now c = Ok (srv w)" "procs w = (\<lambda>_. idle_goroutines)"
    "rawEvents w = Some (256, [])" "emitted w = []"
  using assms by (auto simp: start_server_def split: outcome.splits)

lemma w_inv_start:
  assumes "start_server oor NewLimiter now c = Ok w"
  shows "w_inv oor NewLimiter Tokens tbWait w"
proof -
  note w = start_server_Ok[OF assms]
  have r: "NewRegistryWithOpts oor NewLimiter now (Endpoints c) (registry_options c) = Ok (sreg (srv w))"
    by (rule server_New_Ok(1)[OF w(1)])
  have "alone oor NewLimiter Tokens tbWait p ep idle_goroutines []" if "map_of (eps (sreg (srv w))) p = Some ep" for p ep
    using add_all_from[OF r[unfolded NewRegistryWithOpts_def] that] alone_new
    by (fastforce simp: fold_options_eps)
  then show ?thesis by (simp add: w_inv_def w)
qed

lemma w_inv_reach:
  assumes "w_reach oor NewLimiter Tokens tbWait expired w0 w" and "w_inv oor NewLimiter Tokens tbWait w0"
  shows "w_inv oor NewLimiter Tokens tbWait w"
  using assms unfolding w_reach_def by (induction rule: rtranclp_induct) (auto intro: w_inv_step)

section \<open>The whole refines the server\<close>

lemma exec_keeps_cfg:
  "exec oor Tokens tbWait a (sys_of ep g sk) = Some s' \<Longrightarrow> cfg (endp s') = cfg ep"
  using exec_cfg[of oor Tokens tbWait a "sys_of ep g sk" s'] by (simp add: sys_of_def)

lemma w_step_server:
  assumes "w_step oor NewLimiter Tokens tbWait expired w w'"
  shows "s_reach oor NewLimiter expired (srv w) (srv w')"
proof -
  have one: "s_step oor NewLimiter expired s s' \<Longrightarrow> s_reach oor NewLimiter expired s s'" for s s'
    by (simp add: s_reach_def)
  show ?thesis
    using assms
  proof (cases rule: w_step_cases)
    case (run p a)
    then show ?thesis
    proof (cases rule: w_exec_cases[OF run])
      case (1 ep s')
      have "reg_step oor NewLimiter (RTouch p (endp s')) (sreg (srv w)) = (sreg (srv w))\<lparr>eps :=
          AList.update p (endp s') (eps (sreg (srv w)))\<rparr>"
        using 1(2) exec_keeps_cfg[OF 1(3)] by simp
      then show ?thesis by (intro one s_step.touch[where p = p and ep = "endp s'"]) (simp add: 1(4) put_sys_def)
    qed
  next
    case (finish i)
    then show ?thesis by (cases rule: w_done_cases[OF finish]) (auto intro: one s_step.finish)
  next
    case (recv ev)
    then show ?thesis using w_recv_frame[OF recv] by (simp add: s_reach_def)
  qed (auto intro: one s_step.intros)
qed

lemma w_reach_server:
  "w_reach oor NewLimiter Tokens tbWait expired w w' \<Longrightarrow> s_reach oor NewLimiter expired (srv w) (srv w')"
  unfolding w_reach_def
  by (induction rule: rtranclp_induct)
    (auto simp: s_reach_def dest!: w_step_server intro: rtranclp_trans)

section \<open>A small server\<close>

text \<open>The steps that a list of actions determines.\<close>

datatype w_action =
    WAccept nat string
  | WRoute int nat
  | WAdd nat
  | WRun string action
  | WDone nat
  | WRecv

fun w_do ::
  "(float64 \<Rightarrow> int) \<Rightarrow> (float64 \<Rightarrow> int \<Rightarrow> 'tb) \<Rightarrow> ('tb \<Rightarrow> float64) \<Rightarrow> (int \<Rightarrow> 'tb \<Rightarrow> 'tb option)
   \<Rightarrow> w_action \<Rightarrow> 'tb whole \<Rightarrow> 'tb whole option" where
  "w_do oor NewLimiter Tokens tbWait (WAccept i path) w = map_option (\<lambda>s. w\<lparr>srv := s\<rparr>) (s_accept i path (srv w))"
| "w_do oor NewLimiter Tokens tbWait (WRoute now i) w = map_option (\<lambda>s. w\<lparr>srv := s\<rparr>) (s_route oor NewLimiter now i (srv w))"
| "w_do oor NewLimiter Tokens tbWait (WAdd i) w = map_option (\<lambda>s. w\<lparr>srv := s\<rparr>) (s_add i (srv w))"
| "w_do oor NewLimiter Tokens tbWait (WRun p a) w = w_exec oor Tokens tbWait p a w"
| "w_do oor NewLimiter Tokens tbWait (WDone i) w = w_done i w"
| "w_do oor NewLimiter Tokens tbWait WRecv w = map_option snd (w_recv w)"

fun w_all ::
  "(float64 \<Rightarrow> int) \<Rightarrow> (float64 \<Rightarrow> int \<Rightarrow> 'tb) \<Rightarrow> ('tb \<Rightarrow> float64) \<Rightarrow> (int \<Rightarrow> 'tb \<Rightarrow> 'tb option)
   \<Rightarrow> w_action list \<Rightarrow> 'tb whole \<Rightarrow> 'tb whole option" where
  "w_all oor NewLimiter Tokens tbWait [] w = Some w"
| "w_all oor NewLimiter Tokens tbWait (a # as) w =
     (case w_do oor NewLimiter Tokens tbWait a w of
        None \<Rightarrow> None
      | Some w' \<Rightarrow> w_all oor NewLimiter Tokens tbWait as w')"

lemma w_do_step:
  "w_do oor NewLimiter Tokens tbWait a w = Some w' \<Longrightarrow> w_step oor NewLimiter Tokens tbWait expired w w'"
  by (cases a) (auto simp: w_step_def intro: w_move.intros)

lemma w_all_reach:
  "w_all oor NewLimiter Tokens tbWait as w = Some w' \<Longrightarrow> w_reach oor NewLimiter Tokens tbWait expired w w'"
  unfolding w_reach_def
  by (induction as arbitrary: w) (auto split: option.splits dest: w_do_step intro: converse_rtranclp_into_rtranclp)

text \<open>One request for a path below the root is routed to a new endpoint, queued, released and answered.\<close>

definition demo_whole :: "(float64 \<times> int) whole" where
  "demo_whole = \<lparr>srv = demo_srv, procs = (\<lambda>_. idle_goroutines), rawEvents = Some (256, []), emitted = []\<rparr>"

definition demo_queueing :: "w_action list" where
  "demo_queueing = [WAccept 1 ''/new'', WRoute 0 1, WAdd 1, WRun ''/new'' (AStart 1 0 demo_req),
     WRun ''/new'' (APush 0 1), WRun ''/new'' (ACount 1), WRun ''/new'' (ASignal 1)]"

definition demo_answering :: "w_action list" where
  "demo_answering = [WRun ''/new'' AWork, WRun ''/new'' (AGrant 100000000 []), WRun ''/new'' (APop 0),
     WRun ''/new'' ASend, WRun ''/new'' (ASelect TakeRelease 1), WRun ''/new'' (ARespond 100000000 100 1), WDone 1]"

definition demo_whole_after :: "w_action list \<Rightarrow> (float64 \<times> int) whole" where
  "demo_whole_after as = the (w_all amd64 demo_bucket fst (\<lambda>_ _. None) as demo_whole)"

lemma demo_whole_New: "start_server amd64 demo_bucket 0 demo_config = Ok demo_whole"
  by (simp add: start_server_def demo_srv_New demo_whole_def)


text \<open>Where this run ends; the facts are evaluated together.\<close>

definition demo_end :: "(float64 \<times> int) whole" where
  "demo_end = demo_whole_after (demo_queueing @ demo_answering)"

lemma demo_end_facts:
  "case w_all amd64 demo_bucket fst (\<lambda>_ _. None) (demo_queueing @ demo_answering) demo_whole of
     None \<Rightarrow> False
   | Some w \<Rightarrow> reqs (srv w) 1 = RDone \<and> down (srv w) = NotCalled \<and> activeRequests (srv w) = 0
       \<and> registered (sreg (srv w)) ''/new'' \<and> emitted w = [EventQueued ''/new'' 0, EventServed ''/new'' 100 0]
       \<and> rawEvents w = Some (256, emitted w)"
  by code_simp

lemma demo_end:
  "w_all amd64 demo_bucket fst (\<lambda>_ _. None) (demo_queueing @ demo_answering) demo_whole = Some demo_end"
  "reqs (srv demo_end) 1 = RDone" "down (srv demo_end) = NotCalled" "activeRequests (srv demo_end) = 0"
  "registered (sreg (srv demo_end)) ''/new''"
  "emitted demo_end = [EventQueued ''/new'' 0, EventServed ''/new'' 100 0]"
  "rawEvents demo_end = Some (256, [EventQueued ''/new'' 0, EventServed ''/new'' 100 0])"
  using demo_end_facts by (auto simp: demo_end_def demo_whole_after_def split: option.splits)

lemma demo_end_reach: "w_reach amd64 demo_bucket fst (\<lambda>_ _. None) expired demo_whole demo_end"
  by (rule w_all_reach[OF demo_end(1)])

section \<open>Properties\<close>

text \<open>
  C5. The running server is a server, and each of its endpoints is an endpoint: its HTTP side makes
  only moves that the server of the shutdown theorems makes, and, however the requests, the
  dispatchers and the readers of the shared event channel interleave, every registered endpoint
  is in a state it would reach on its own with its own events, whatever the sink; so what is
  proved of a single endpoint holds in the server.
\<close>

theorem server_is_independent_endpoints:
  assumes "start_server oor NewLimiter now c = Ok w0" and "w_reach oor NewLimiter Tokens tbWait expired w0 w"
    and "map_of (eps (sreg (srv w))) p = Some ep"
  shows "s_reach oor NewLimiter expired (srv w0) (srv w)
    \<and> (\<exists>ep0 t c'. endpoint_New oor NewLimiter t c' = Ok ep0 \<and> Path c' = p
        \<and> (\<forall>sk. reach oor Tokens tbWait (start ep0 sk) (sys_of ep (procs w p) (fold emit (own p (emitted w)) sk))))"
proof -
  have "w_inv oor NewLimiter Tokens tbWait w" by (rule w_inv_reach[OF assms(2) w_inv_start[OF assms(1)]])
  then have "alone oor NewLimiter Tokens tbWait p ep (procs w p) (own p (emitted w))"
    using assms(3) unfolding w_inv_def by blast
  then show ?thesis using w_reach_server[OF assms(2)] by (simp add: alone_def)
qed

theorem server_is_independent_endpoints_witness:
  "\<exists>ep. map_of (eps (sreg (srv demo_end))) ''/new'' = Some ep
    \<and> (\<exists>ep0 t c'. endpoint_New amd64 demo_bucket t c' = Ok ep0 \<and> Path c' = ''/new''
        \<and> reach amd64 fst (\<lambda>_ _. None) (start ep0 (Some (2, [])))
            (sys_of ep (procs demo_end ''/new'') (Some (2, [EventQueued ''/new'' 0, EventServed ''/new'' 100 0]))))"
proof -
  obtain ep where e: "map_of (eps (sreg (srv demo_end))) ''/new'' = Some ep"
    using demo_end(5) by (auto simp: registered_def)
  have es: "fold emit (own ''/new'' (emitted demo_end)) (Some (2, []))
      = Some (2, [EventQueued ''/new'' 0, EventServed ''/new'' 100 0])"
    by (simp add: demo_end(6) own_def)
  show ?thesis
    using server_is_independent_endpoints[OF demo_whole_New demo_end_reach[of False] e] e unfolding es[symmetric] by blast
qed

end
