(* ===== verification/WholeShutdown.thy ===== *)
theory WholeShutdown
  imports WholeServer
begin

text \<open>
  What becomes of the requests of the running server: no request is lost between the router and
  the endpoints, each is answered by one endpoint and once, and a shutdown before its deadline
  lets all of them finish.
\<close>

section \<open>Dynamic endpoints can always be built\<close>

text \<open>What decides whether an endpoint can be built does not include its path, its origin or the time.\<close>

lemma limiter_New_time: "is_ok (limiter_New oor NewLimiter now a r u lo) = is_ok (limiter_New oor NewLimiter now' a r u lo)"
  by (auto simp: limiter_New_def NewStrict_def Let_def)

lemma endpoint_New_again:
  assumes "endpoint_New oor NewLimiter now c = Ok ep"
  shows "is_ok (endpoint_New oor NewLimiter now' (c\<lparr>Path := p, Dynamic := b\<rparr>))"
proof -
  let ?lo = "\<lparr>lo_BurstSize = BurstSize c, lo_WindowSeconds = WindowSeconds c, lo_CompensationMs = LatencyCompensation c\<rparr>"
  have "is_ok (limiter_New oor NewLimiter now (Algorithm c) (Rate c) (Unit c) ?lo)
      = is_ok (limiter_New oor NewLimiter now' (Algorithm c) (Rate c) (Unit c) ?lo)" by (rule limiter_New_time)
  then show ?thesis
    using assms
    by (cases "limiter_New oor NewLimiter now (Algorithm c) (Rate c) (Unit c) ?lo";
        cases "limiter_New oor NewLimiter now' (Algorithm c) (Rate c) (Unit c) ?lo")
      (auto simp: endpoint_New_def Let_def is_ok_iff split: outcome.splits if_splits)
qed

lemma w_inv_buildable:
  assumes "w_inv oor NewLimiter Tokens tbWait w" and "map_of (eps (sreg (srv w))) p = Some ep"
  shows "\<exists>now ep0. endpoint_New oor NewLimiter now (cfg ep) = Ok ep0"
proof -
  have "alone oor NewLimiter Tokens tbWait p ep (procs w p) (own p (emitted w))"
    using assms unfolding w_inv_def by blast
  then obtain ep0 now c where a: "endpoint_New oor NewLimiter now c = Ok ep0"
    "reach oor Tokens tbWait (start ep0 None) (sys_of ep (procs w p) (fold emit (own p (emitted w)) None))"
    unfolding alone_def by blast
  then have "cfg ep = c" using reach_cfg[OF a(2)] endpoint_New_Ok(1)[OF a(1)] by (simp add: sys_of_def start_def)
  then show ?thesis using a(1) by blast
qed

lemma Match_total:
  assumes "w_inv oor NewLimiter Tokens tbWait w"
  shows "\<exists>k r. Match_locked oor NewLimiter now path (sreg (srv w)) = Ok (k, r)"
proof (cases "registered (sreg (srv w)) path \<or> findParentLocked (sreg (srv w)) path = None")
  case True
  then show ?thesis by (auto simp: Match_locked_def)
next
  case False
  then obtain q where q: "findParentLocked (sreg (srv w)) path = Some q" "\<not> registered (sreg (srv w)) path" by auto
  then have "registered (sreg (srv w)) q" using find_parent_known by (simp add: findParentLocked_def)
  then obtain e where e: "map_of (eps (sreg (srv w))) q = Some e" by (auto simp: registered_def)
  obtain now' ep0 where "endpoint_New oor NewLimiter now' (cfg e) = Ok ep0" using w_inv_buildable[OF assms e] by blast
  then have "is_ok (endpoint_New oor NewLimiter now (dynamic_config path (cfg e)))"
    using endpoint_New_again by (metis dynamic_config_def InheritFrom_bare)
  then show ?thesis using q e by (auto simp: Match_locked_def is_ok_iff)
qed

section \<open>Every request is answered once\<close>

lemma exec_handler:
  assumes "exec oor Tokens tbWait a s = Some s'"
  shows "\<exists>i new. hs s' = (hs s)(i := new) \<and>
    (new = hs s i \<or> ((\<forall>res. hs s i \<noteq> HDone res) \<and> new \<noteq> HNone \<and> (new = HDone Shutdown \<longrightarrow> ctx_done (endp s))
       \<and> (hs s i = HNone \<longrightarrow> (\<exists>now r. a = AStart i now r))))" (is "\<exists>i new. _ \<and> ?ok i new")
proof -
  have none: "hs s' = hs s \<Longrightarrow> ?thesis" by (intro exI[of _ 0] exI[of _ "hs s 0"]) simp
  have one: "hs s' = (hs s)(i := new) \<Longrightarrow> ?ok i new \<Longrightarrow> ?thesis" for i new by blast
  note dispatch = disp_defs d_pop_def d_send_def d_scan_def d_release_def release_def sys_simps ep_Stop_def Let_def
  note handler = handler_defs h_push_def sys_simps Let_def
  have "hs s' = hs s \<or> (\<exists>i new. hs s' = (hs s)(i := new) \<and> ?ok i new)"
    using assms
  proof (cases a)
    case (AStart i now r)
    then show ?thesis using assms
      by (intro disjI2 exI[of _ i] exI[of _ "hs s' i"]) (auto simp: handler split: phase.splits sum.splits)
  next
    case (APush g i)
    then show ?thesis using assms
      by (intro disjI2 exI[of _ i] exI[of _ "hs s' i"]) (auto simp: handler split: phase.splits prod.splits if_splits)
  next
    case (ARetry b i)
    then show ?thesis using assms
      by (intro disjI2 exI[of _ i] exI[of _ "hs s' i"]) (auto simp: handler split: phase.splits if_splits)
  next
    case (ACount i)
    then show ?thesis using assms
      by (intro disjI2 exI[of _ i] exI[of _ "hs s' i"]) (auto simp: handler split: phase.splits if_splits)
  next
    case (ASignal i)
    then show ?thesis using assms
      by (intro disjI2 exI[of _ i] exI[of _ "hs s' i"]) (auto simp: handler split: phase.splits if_splits)
  next
    case (ASelect ch i)
    then show ?thesis using assms
      by (intro disjI2 exI[of _ i] exI[of _ "hs s' i"]) (auto simp: handler split: phase.splits choice.splits if_splits)
  next
    case (AGone i)
    then show ?thesis using assms
      by (intro disjI2 exI[of _ i] exI[of _ "hs s' i"]) (auto simp: handler split: phase.splits if_splits)
  next
    case (ARespond n1 n2 i)
    then show ?thesis using assms
      by (intro disjI2 exI[of _ i] exI[of _ "hs s' i"]) (auto simp: handler split: phase.splits prod.splits)
  qed (use assms in \<open>auto simp: dispatch split: phase.splits dpc.splits option.splits prod.splits
        list.splits if_splits\<close>)
  then show ?thesis using none one by blast
qed

lemma exec_ctx_done:
  assumes "exec oor Tokens tbWait a s = Some s'" and "a \<noteq> AStop"
  shows "ctx_done (endp s') = ctx_done (endp s)"
proof -
  note defs = handler_defs disp_defs h_push_def d_pop_def d_send_def d_scan_def d_release_def release_def
    sys_simps Let_def
  show ?thesis
    using assms
    by (cases a) (auto simp: defs split: phase.splits dpc.splits option.splits sum.splits prod.splits
        choice.splits list.splits if_splits)
qed

text \<open>
  A request is in the hands of at most one endpoint, which it does not leave before its handler has
  returned; a request that is over has its answer there.
\<close>

definition in_hand :: "'tb whole \<Rightarrow> string \<Rightarrow> nat \<Rightarrow> phase" where
  "in_hand w p i = g_hs (procs w p) i"

definition once :: "'tb whole \<Rightarrow> bool" where
  "once w \<longleftrightarrow>
     (\<forall>p i. in_hand w p i \<noteq> HNone \<longrightarrow> reqs (srv w) i = RHandling p
        \<or> (reqs (srv w) i = RDone \<and> (\<exists>res. in_hand w p i = HDone res)))
     \<and> (\<forall>p q i. in_hand w p i \<noteq> HNone \<longrightarrow> in_hand w q i \<noteq> HNone \<longrightarrow> p = q)
     \<and> (\<forall>i. reqs (srv w) i = RDone \<longrightarrow> (\<exists>p res. in_hand w p i = HDone res))"

lemma once_at:
  "once w \<Longrightarrow> in_hand w p i \<noteq> HNone
   \<Longrightarrow> reqs (srv w) i = RHandling p \<or> (reqs (srv w) i = RDone \<and> (\<exists>res. in_hand w p i = HDone res))"
  by (simp add: once_def)

lemma once_same: "once w \<Longrightarrow> in_hand w p i \<noteq> HNone \<Longrightarrow> in_hand w q i \<noteq> HNone \<Longrightarrow> p = q"
  by (simp add: once_def)

lemma once_over: "once w \<Longrightarrow> reqs (srv w) i = RDone \<Longrightarrow> \<exists>p res. in_hand w p i = HDone res"
  by (simp add: once_def)

text \<open>A request that no endpoint has seen moves on.\<close>

lemma once_move:
  assumes "once w" and "reqs (srv w') = (reqs (srv w))(i := ph)" and "procs w' = procs w" and "ph \<noteq> RDone"
    and "\<And>p. reqs (srv w) i \<noteq> RHandling p" and "reqs (srv w) i \<noteq> RDone"
  shows "once w'"
proof -
  have h: "in_hand w' = in_hand w" by (simp add: in_hand_def fun_eq_iff assms(3))
  have "in_hand w p i = HNone" for p using assms(1,5,6) unfolding once_def by blast
  then show ?thesis using assms(1,4) by (fastforce simp: once_def h assms(2))
qed

lemma route_effect:
  assumes "w_inv oor NewLimiter Tokens tbWait w" and "s_route oor NewLimiter now i (srv w) = Some s"
  shows "\<exists>path ph. reqs (srv w) i = RAccepted path \<and> reqs s = (reqs (srv w))(i := ph) \<and> ph \<noteq> RDone
    \<and> down s = down (srv w)"
proof -
  obtain path where p: "reqs (srv w) i = RAccepted path" using assms(2) by (auto simp: s_route_def split: req_phase.splits)
  obtain k r where m: "Match_locked oor NewLimiter now path (sreg (srv w)) = Ok (k, r)" using Match_total[OF assms(1)] by blast
  show ?thesis using assms(2) p m by (cases k) (auto simp: s_route_def Match_is_locked set_req_def)
qed

lemma run_effect:
  assumes "w_exec oor Tokens tbWait p a w = Some w'"
  obtains ep i new where "map_of (eps (sreg (srv w))) p = Some ep" "reqs (srv w') = reqs (srv w)"
    "down (srv w') = down (srv w)"
    "\<And>q. in_hand w' q = (if q = p then (in_hand w p)(i := new) else in_hand w q)"
    "new = in_hand w p i \<or> ((\<forall>res. in_hand w p i \<noteq> HDone res) \<and> new \<noteq> HNone \<and> (new = HDone Shutdown \<longrightarrow> ctx_done ep)
       \<and> (in_hand w p i = HNone \<longrightarrow> reqs (srv w) i = RHandling p))"
proof (cases rule: w_exec_cases[OF assms])
  case (1 ep s')
  have h: "hs (sys_of ep (procs w p) (Some (1, []))) = in_hand w p" "endp (sys_of ep (procs w p) (Some (1, []))) = ep"
    by (simp_all add: sys_of_def in_hand_def fun_eq_iff)
  obtain i new where i: "hs s' = (in_hand w p)(i := new)"
    "new = in_hand w p i \<or> ((\<forall>res. in_hand w p i \<noteq> HDone res) \<and> new \<noteq> HNone \<and> (new = HDone Shutdown \<longrightarrow> ctx_done ep)
       \<and> (in_hand w p i = HNone \<longrightarrow> (\<exists>now r. a = AStart i now r)))"
    using exec_handler[OF 1(3)] unfolding h by blast
  have "in_hand w' q = (if q = p then (in_hand w p)(i := new) else in_hand w q)" for q
    using i(1) by (simp add: 1(4) put_sys_def in_hand_def fun_eq_iff)
  moreover have "in_hand w p i = HNone \<longrightarrow> (\<exists>now r. a = AStart i now r) \<Longrightarrow> in_hand w p i = HNone \<longrightarrow> reqs (srv w) i = RHandling p"
    using 1(1) by auto
  ultimately show ?thesis using that[of ep i new] 1(2,4) i(2) by (auto simp: put_sys_def)
qed

lemma once_run:
  assumes "once w" and "w_exec oor Tokens tbWait p a w = Some w'"
  shows "once w'"
proof (cases rule: run_effect[OF assms(2)])
  case (1 ep i new)
  show ?thesis
  proof (cases "new = in_hand w p i")
    case True
    then have "in_hand w' = in_hand w" using 1(4) by (auto simp: fun_eq_iff)
    then show ?thesis using assms(1) by (simp add: once_def 1(2))
  next
    case False
    then have n: "\<forall>res. in_hand w p i \<noteq> HDone res" "in_hand w p i = HNone \<longrightarrow> reqs (srv w) i = RHandling p"
      using 1(5) by auto
    then have r: "reqs (srv w) i = RHandling p" using assms(1) unfolding once_def by blast
    then have "q = p" if "in_hand w q i \<noteq> HNone" for q
      using once_at[OF assms(1) that] r by auto
    then have only: "q = p" if "in_hand w' q i \<noteq> HNone" for q
      using that 1(4)[of q] by (auto split: if_splits)
    have h: "in_hand w' q j = in_hand w q j" if "q \<noteq> p \<or> j \<noteq> i" for q j using 1(4)[of q] that by auto
    show ?thesis
      unfolding once_def 1(2)
    proof (intro conjI allI impI)
      fix q j assume "in_hand w' q j \<noteq> HNone"
      then show "reqs (srv w) j = RHandling q \<or> reqs (srv w) j = RDone \<and> (\<exists>res. in_hand w' q j = HDone res)"
        using once_at[OF assms(1), of q j] r h[of q j] by (cases "q = p \<and> j = i") auto
    next
      fix q q' j assume "in_hand w' q j \<noteq> HNone" "in_hand w' q' j \<noteq> HNone"
      then show "q = q'" using only h[of q j] h[of q' j] once_same[OF assms(1), of q j q'] by (cases "j = i") auto
    next
      fix j assume j: "reqs (srv w) j = RDone"
      then have "j \<noteq> i" using r by auto
      then show "\<exists>q res. in_hand w' q j = HDone res" using once_over[OF assms(1) j] h by metis
    qed
  qed
qed

lemma once_step:
  assumes "w_step oor NewLimiter Tokens tbWait expired w w'" and "w_inv oor NewLimiter Tokens tbWait w" and "once w"
  shows "once w'"
  using assms(1)
proof (cases rule: w_step_cases)
  case (accept i path s)
  then show ?thesis
    by (intro once_move[OF assms(3), of w' i "RAccepted path"]) (auto simp: s_accept_def set_req_def split: if_splits)
next
  case (route now i s)
  obtain path ph where "reqs (srv w) i = RAccepted path" "reqs s = (reqs (srv w))(i := ph)" "ph \<noteq> RDone"
    using route_effect[OF assms(2) route(2)] by blast
  then show ?thesis by (intro once_move[OF assms(3), of w' i ph]) (auto simp: route(1))
next
  case (add i s)
  then obtain k where "reqs (srv w) i = RMatched k" "reqs s = (reqs (srv w))(i := RHandling k)"
    by (auto simp: s_add_def set_req_def split: req_phase.splits)
  then show ?thesis by (intro once_move[OF assms(3), of w' i "RHandling k"]) (auto simp: add(1))
next
  case (run p a)
  then show ?thesis by (rule once_run[OF assms(3)])
next
  case (finish i)
  then show ?thesis
  proof (cases rule: w_done_cases[OF finish])
    case (1 p res s)
    have r: "reqs s = (reqs (srv w))(i := RDone)"
      using 1(1,3) by (auto simp: s_done_def set_req_def)
    have d: "in_hand w p i = HDone res" using 1(2) by (simp add: in_hand_def)
    have h: "in_hand w' = in_hand w" by (simp add: in_hand_def fun_eq_iff 1(4))
    have only: "in_hand w q i \<noteq> HNone \<Longrightarrow> q = p" for q using once_same[OF assms(3), of q i p] d by simp
    have r': "reqs (srv w') j = (if j = i then RDone else reqs (srv w) j)" for j by (simp add: 1(4) r)
    show ?thesis
      unfolding once_def h
    proof (intro conjI allI impI)
      fix q j assume n: "in_hand w q j \<noteq> HNone"
      then show "reqs (srv w') j = RHandling q \<or> reqs (srv w') j = RDone \<and> (\<exists>res. in_hand w q j = HDone res)"
        using once_at[OF assms(3) n] d only r' by (cases "j = i") auto
    next
      fix q q' j assume "in_hand w q j \<noteq> HNone" "in_hand w q' j \<noteq> HNone"
      then show "q = q'" by (rule once_same[OF assms(3)])
    next
      fix j assume "reqs (srv w') j = RDone"
      then show "\<exists>q res. in_hand w q j = HDone res" using once_over[OF assms(3), of j] d r' by (cases "j = i") auto
    qed
  qed
next
  case (shutdown s)
  from shutdown(2) have "reqs s = reqs (srv w)" by cases auto
  then show ?thesis using assms(3) by (simp add: shutdown(1) once_def in_hand_def)
next
  case (recv ev)
  then show ?thesis using assms(3) w_recv_frame[OF recv] by (simp add: once_def in_hand_def)
qed

text \<open>
  Before the deadline no context is done until \<open>Shutdown\<close> has returned, and no handler sees one.
\<close>

definition calm :: "'tb whole \<Rightarrow> bool" where
  "calm w \<longleftrightarrow>
     (\<forall>p ep. map_of (eps (sreg (srv w))) p = Some ep \<longrightarrow> ctx_done ep \<longrightarrow> down (srv w) = Returned)
     \<and> (\<forall>p i. in_hand w p i \<noteq> HDone Shutdown)"

lemma calm_frame:
  "calm w \<Longrightarrow> eps (sreg (srv w')) = eps (sreg (srv w)) \<Longrightarrow> procs w' = procs w
   \<Longrightarrow> (down (srv w) = Returned \<Longrightarrow> down (srv w') = Returned) \<Longrightarrow> calm w'"
  by (simp add: calm_def in_hand_def)

lemma route_ctx:
  assumes "s_route oor NewLimiter now i s = Some s'" and "map_of (eps (sreg s')) p = Some ep" and "ctx_done ep"
  shows "map_of (eps (sreg s)) p = Some ep"
  using route_reg[OF assms(1)]
proof
  assume "\<exists>path k. Match_locked oor NewLimiter now path (sreg s) = Ok (k, sreg s')"
  then obtain path k where m: "Match_locked oor NewLimiter now path (sreg s) = Ok (k, sreg s')" by blast
  show ?thesis
    by (cases rule: Match_locked_cases[OF m])
      (use assms(2,3) in \<open>auto simp: update_conv' dest: endpoint_New_Ok(8) split: if_splits\<close>)
qed (use assms(2) in simp)

lemma calm_run:
  assumes "calm w" and "once w" and "srv_inv False (srv w)" and "w_exec oor Tokens tbWait p a w = Some w'"
  shows "calm w'"
proof -
  have idle: "\<not> (\<exists>i. in_progress (reqs (srv w) i))" if "down (srv w) = Returned"
    using assms(3) that by (auto simp: srv_inv_def busy_def)
  obtain ep i new where e: "map_of (eps (sreg (srv w))) p = Some ep" "down (srv w') = down (srv w)"
    "\<And>q. in_hand w' q = (if q = p then (in_hand w p)(i := new) else in_hand w q)"
    "new = in_hand w p i \<or> ((\<forall>res. in_hand w p i \<noteq> HDone res) \<and> new \<noteq> HNone \<and> (new = HDone Shutdown \<longrightarrow> ctx_done ep)
       \<and> (in_hand w p i = HNone \<longrightarrow> reqs (srv w) i = RHandling p))"
    by (rule run_effect[OF assms(4)]) blast
  have "new \<noteq> HDone Shutdown"
  proof
    assume n: "new = HDone Shutdown"
    have "in_hand w p i \<noteq> HDone Shutdown" using assms(1) by (simp add: calm_def)
    then have "ctx_done ep" "\<forall>res. in_hand w p i \<noteq> HDone res" "in_hand w p i = HNone \<longrightarrow> reqs (srv w) i = RHandling p"
      using e(4) n by auto
    then have "down (srv w) = Returned" "reqs (srv w) i = RHandling p"
      using assms(1) e(1) once_at[OF assms(2), of p i] by (auto simp: calm_def)
    then show False using idle by (metis in_progress.simps(3))
  qed
  moreover have "ctx_done ep' \<Longrightarrow> down (srv w') = Returned" if "map_of (eps (sreg (srv w'))) q = Some ep'" for q ep'
  proof (cases rule: w_exec_cases[OF assms(4)])
    case (1 ep0 s')
    have "a \<noteq> AStop" using 1(1) by auto
    then have "ctx_done (endp s') = ctx_done ep0" using exec_ctx_done[OF 1(3)] by (simp add: sys_of_def)
    then show "ctx_done ep' \<Longrightarrow> down (srv w') = Returned"
      using that assms(1) 1(2,4) e(2) by (auto simp: calm_def put_sys_def update_conv' split: if_splits)
  qed
  ultimately show ?thesis using assms(1) e(3) by (auto simp: calm_def)
qed

lemma calm_step:
  assumes "w_step oor NewLimiter Tokens tbWait False w w'" and "w_inv oor NewLimiter Tokens tbWait w" and "once w"
    and "srv_inv False (srv w)" and "calm w"
  shows "calm w'"
  using assms(1)
proof (cases rule: w_step_cases)
  case (accept i path s)
  then show ?thesis using s_accept_reg[OF accept(2)]
    by (intro calm_frame[OF assms(5)]) (auto simp: s_accept_def split: if_splits)
next
  case (route now i s)
  have "down s = down (srv w)" using route_effect[OF assms(2) route(2)] by blast
  then show ?thesis using assms(5) route_ctx[OF route(2)]
    by (fastforce simp: route(1) calm_def in_hand_def)
next
  case (add i s)
  then show ?thesis using s_add_reg[OF add(2)]
    by (intro calm_frame[OF assms(5)]) (auto simp: s_add_def split: req_phase.splits)
next
  case (run p a)
  then show ?thesis by (rule calm_run[OF assms(5,3,4)])
next
  case (finish i)
  then show ?thesis
    by (cases rule: w_done_cases[OF finish])
      (auto simp: s_done_def intro!: calm_frame[OF assms(5)])
next
  case (shutdown s)
  from shutdown(2) show ?thesis
    by cases (use assms(5) in \<open>auto simp: shutdown(1) calm_def in_hand_def\<close>)
next
  case (recv ev)
  then show ?thesis using w_recv_frame[OF recv] by (intro calm_frame[OF assms(5)]) auto
qed

lemma orderly:
  assumes "w_reach oor NewLimiter Tokens tbWait False w0 w"
    and "w_inv oor NewLimiter Tokens tbWait w0" and "once w0" and "srv_inv False (srv w0)" and "calm w0"
  shows "once w \<and> calm w \<and> srv_inv False (srv w)"
proof -
  have "w_inv oor NewLimiter Tokens tbWait w \<and> once w \<and> calm w \<and> srv_inv False (srv w)"
    using assms unfolding w_reach_def
  proof (induction rule: rtranclp_induct)
    case (step w w')
    then have i: "w_inv oor NewLimiter Tokens tbWait w" "once w" "calm w" "srv_inv False (srv w)" by auto
    show ?case
      using w_inv_step[OF step.hyps(2) i(1)] once_step[OF step.hyps(2) i(1,2)] calm_step[OF step.hyps(2) i(1,2,4,3)]
        srv_reach_inv[OF w_step_server[OF step.hyps(2)] i(4)] by blast
  qed auto
  then show ?thesis by blast
qed

lemma start_orderly:
  assumes "start_server oor NewLimiter now c = Ok w"
  shows "once w" "calm w" "srv_inv False (srv w)"
proof -
  note w = start_server_Ok[OF assms]
  have h: "in_hand w p i = HNone" for p i by (simp add: in_hand_def w(2) idle_goroutines_def)
  show "once w" using server_New_Ok(2)[OF w(1)] by (simp add: once_def h)
  show "srv_inv False (srv w)" by (rule server_New_inv[OF w(1)])
  have r: "NewRegistryWithOpts oor NewLimiter now (Endpoints c) (registry_options c) = Ok (sreg (srv w))"
    by (rule server_New_Ok(1)[OF w(1)])
  have "\<not> ctx_done ep" if "map_of (eps (sreg (srv w))) p = Some ep" for p ep
    using add_all_from[OF r[unfolded NewRegistryWithOpts_def] that] endpoint_New_Ok(8)
    by (fastforce simp: fold_options_eps)
  then show "calm w" by (auto simp: calm_def h)
qed

section \<open>Properties\<close>


fun about :: "w_action \<Rightarrow> nat option" where
  "about (WAccept i path) = Some i"
| "about (WRoute now i) = Some i"
| "about (WAdd i) = Some i"
| "about (WDone i) = Some i"
| "about (WRun p a) = None"
| "about WRecv = None"

lemma w_do_other:
  assumes "w_do oor NewLimiter Tokens tbWait a w = Some w'" and "about a \<noteq> Some j"
  shows "reqs (srv w') j = reqs (srv w) j"
proof (cases a)
  case (WRun p b)
  then have "w_exec oor Tokens tbWait p b w = Some w'" using assms(1) by simp
  then show ?thesis by (rule run_effect) simp
next
  case WRecv
  then show ?thesis using assms(1) w_recv_frame by fastforce
next
  case (WDone i)
  then have "w_done i w = Some w'" using assms(1) by simp
  then show ?thesis
    by (rule w_done_cases) (use assms(2) WDone in \<open>auto simp: s_done_def set_req_def\<close>)
qed (use assms in \<open>auto simp: s_accept_def s_route_def s_add_def set_req_def
      split: req_phase.splits outcome.splits option.splits if_splits\<close>)

lemma w_all_other:
  "w_all oor NewLimiter Tokens tbWait as w = Some w' \<Longrightarrow> list_all (\<lambda>a. about a \<noteq> Some j) as
   \<Longrightarrow> reqs (srv w') j = reqs (srv w) j"
  by (induction as arbitrary: w) (auto split: option.splits dest: w_do_other)

text \<open>An idle server shuts down.\<close>

lemma idle_shutdown:
  assumes "down (srv w) = NotCalled" and "busy (srv w) = {}" and "activeRequests (srv w) = 0"
  shows "w_reach oor NewLimiter Tokens tbWait expired w (w\<lparr>srv := (srv w)\<lparr>sreg := StopAll (sreg (srv w)), down := Returned\<rparr>\<rparr>)"
proof -
  let ?R = "w_step oor NewLimiter Tokens tbWait expired"
  let ?at = "\<lambda>d. w\<lparr>srv := (srv w)\<lparr>down := d\<rparr>\<rparr>"
  have step: "s_shutdown expired (srv v) s \<Longrightarrow> ?R v (v\<lparr>srv := s\<rparr>)" for v s unfolding w_step_def by (blast intro: w_move.shutdown)
  have "?R w (?at InHttp)" using step[OF call[OF assms(1)]] .
  moreover have "?R (?at InHttp) (?at InWait)" using step[OF http_returns, of "?at InHttp"] assms(2) by simp
  moreover have "?R (?at InWait) (?at InStopAll)" using step[OF wait_returns, of "?at InWait"] assms(3) by simp
  moreover have "?R (?at InStopAll) (w\<lparr>srv := (srv w)\<lparr>sreg := StopAll (sreg (srv w)), down := Returned\<rparr>\<rparr>)"
    using step[OF stop_all, of "?at InStopAll"] by simp
  ultimately show ?thesis unfolding w_reach_def by (meson rtranclp.rtrancl_into_rtrancl rtranclp.rtrancl_refl)
qed

definition demo_down :: "(float64 \<times> int) whole" where
  "demo_down = demo_end\<lparr>srv := (srv demo_end)\<lparr>sreg := StopAll (sreg (srv demo_end)), down := Returned\<rparr>\<rparr>"

lemma demo_down_reach: "w_reach amd64 demo_bucket fst (\<lambda>_ _. None) False demo_whole demo_down"
proof -
  have "reqs (srv demo_end) j = RNone" if "j \<noteq> 1" for j
    using w_all_other[OF demo_end(1), of j] that
    by (simp add: demo_queueing_def demo_answering_def demo_whole_def demo_srv_def)
  then have "\<not> in_progress (reqs (srv demo_end) j)" for j using demo_end(2) by (cases "j = 1") (simp_all del: One_nat_def)
  then have "busy (srv demo_end) = {}" by (simp add: busy_def)
  then have "w_reach amd64 demo_bucket fst (\<lambda>_ _. None) False demo_end demo_down"
    unfolding demo_down_def using demo_end(3,4) by (intro idle_shutdown)
  then show ?thesis using demo_end_reach[of False] unfolding w_reach_def by (rule rtranclp_trans[rotated])
qed


end
