(* ===== verification/WholeEvents.thy ===== *)
theory WholeEvents
  imports WholeShutdown
begin

text \<open>
  The events of the whole server against the fate of its requests: the accounts of \<open>EventAccount\<close>
  for every endpoint of a running server, on the one history of events they share.
\<close>

definition answered_in :: "'tb whole \<Rightarrow> string \<Rightarrow> nat" where
  "answered_in w p = card {i. answered (in_hand w p i)}"

definition refused_in :: "'tb whole \<Rightarrow> string \<Rightarrow> nat" where
  "refused_in w p = card {i. refused (in_hand w p i)}"

definition shown_in :: "'tb whole \<Rightarrow> string \<Rightarrow> nat" where
  "shown_in w p = card {i. shown (in_hand w p i)}"

definition stopped_at :: "'tb whole \<Rightarrow> string \<Rightarrow> bool" where
  "stopped_at w p \<longleftrightarrow> (case map_of (eps (sreg (srv w))) p of Some ep \<Rightarrow> Endpoint.endpoint.ctx_done ep | None \<Rightarrow> False)"

definition n_served :: "event list \<Rightarrow> nat" where
  "n_served es = length (List.filter is_served es)"

definition n_rejected :: "event list \<Rightarrow> nat" where
  "n_rejected es = length (List.filter is_rejected es)"

lemma n_simps [simp]:
  "n_served [] = 0" "n_rejected [] = 0"
  "n_served (es @ es') = n_served es + n_served es'" "n_rejected (es @ es') = n_rejected es + n_rejected es'"
  "n_served [ev] = of_bool (is_served ev)" "n_rejected [ev] = of_bool (is_rejected ev)"
  by (auto simp: n_served_def n_rejected_def)

lemma n_subseq: "subseq es es' \<Longrightarrow> n_served es \<le> n_served es' \<and> n_rejected es \<le> n_rejected es'"
  using list_emb_length[OF subseq_filter, of es es' is_served] list_emb_length[OF subseq_filter, of es es' is_rejected]
  by (simp add: n_served_def n_rejected_def)

lemma own_subseq: "subseq es es' \<Longrightarrow> subseq (own p es) (own p es')"
  by (simp add: own_def subseq_filter)

text \<open>Each endpoint's account, with a sink that is never full.\<close>

lemma fold_emit_room: "length xs + length es \<le> b \<Longrightarrow> fold emit es (Some (b, xs)) = Some (b, xs @ es)"
  by (induction es arbitrary: xs) auto

lemma alone_account:
  assumes "alone oor NewLimiter Tokens tbWait p ep g es"
  shows "card {i. answered (g_hs g i)} = n_served es \<and> card {i. refused (g_hs g i)} = n_rejected es
    \<and> card {i. shown (g_hs g i)} \<le> dots es 0
    \<and> (\<not> Endpoint.endpoint.ctx_done ep \<longrightarrow> card {i. shown (g_hs g i)} = dots es 0)"
proof -
  let ?b = "Suc (length es)"
  obtain ep0 now c where a: "endpoint_New oor NewLimiter now c = Ok ep0"
    "reach oor Tokens tbWait (start ep0 (Some (?b, []))) (sys_of ep g (fold emit es (Some (?b, []))))"
    using assms unfolding alone_def by blast
  have e: "fold emit es (Some (?b, [])) = Some (?b, es)" using fold_emit_room[of "[]" es ?b] by simp
  have "account (Path (cfg ep0)) (sys_of ep g (Some (?b, es)))"
    using account_reach[OF a(2)] by (simp add: e sink_events_def)
  then show ?thesis by (simp add: account_def sys_of_def number_def n_served_def n_rejected_def)
qed

lemma server_accounts:
  assumes "w_inv oor NewLimiter Tokens tbWait w"
  shows "answered_in w p = n_served (own p (emitted w))" "refused_in w p = n_rejected (own p (emitted w))"
    "shown_in w p \<le> dots (own p (emitted w)) 0"
    "\<not> stopped_at w p \<Longrightarrow> shown_in w p = dots (own p (emitted w)) 0"
proof -
  have "answered_in w p = n_served (own p (emitted w)) \<and> refused_in w p = n_rejected (own p (emitted w))
    \<and> shown_in w p \<le> dots (own p (emitted w)) 0
    \<and> (\<not> stopped_at w p \<longrightarrow> shown_in w p = dots (own p (emitted w)) 0)"
  proof (cases "map_of (eps (sreg (srv w))) p")
    case None
    then show ?thesis using assms
      by (simp add: w_inv_def answered_in_def refused_in_def shown_in_def in_hand_def idle_goroutines_def)
  next
    case (Some ep)
    then have "alone oor NewLimiter Tokens tbWait p ep (procs w p) (own p (emitted w))"
      using assms unfolding w_inv_def by blast
    from alone_account[OF this] show ?thesis
      by (simp add: answered_in_def refused_in_def shown_in_def in_hand_def stopped_at_def Some)
  qed
  then show "answered_in w p = n_served (own p (emitted w))" "refused_in w p = n_rejected (own p (emitted w))"
    "shown_in w p \<le> dots (own p (emitted w)) 0"
    "\<not> stopped_at w p \<Longrightarrow> shown_in w p = dots (own p (emitted w)) 0" by blast+
qed

text \<open>Only registered endpoints emit.\<close>

lemma emitted_registered:
  "w_inv oor NewLimiter Tokens tbWait w \<Longrightarrow> own p (emitted w) \<noteq> [] \<Longrightarrow> registered (sreg (srv w)) p"
  unfolding w_inv_def registered_def by blast

section \<open>The channel of events\<close>

text \<open>A move of the server adds what it emits to the history, and to the channel as far as there is room.\<close>

lemma w_move_emits:
  assumes "w_move oor NewLimiter Tokens tbWait expired w w'"
  shows "\<exists>es. emitted w' = emitted w @ es \<and> rawEvents w' = fold emit es (rawEvents w)"
  using assms
proof cases
  case (run p a)
  then show ?thesis by (cases rule: w_exec_cases[OF run]) (auto simp: put_sys_def)
next
  case (finish i)
  then show ?thesis by (cases rule: w_done_cases[OF finish]) auto
qed auto

lemma fold_emit_subseq:
  "\<exists>kept. fold emit es (Some (b, xs)) = Some (b, xs @ kept) \<and> subseq kept es
     \<and> (length xs + length es \<le> b \<longrightarrow> kept = es)"
proof (induction es arbitrary: xs)
  case (Cons e es)
  show ?case
  proof (cases "length xs < b")
    case True
    obtain kept where "fold emit es (Some (b, xs @ [e])) = Some (b, (xs @ [e]) @ kept)" "subseq kept es"
      "length (xs @ [e]) + length es \<le> b \<longrightarrow> kept = es"
      using Cons.IH[of "xs @ [e]"] by blast
    then show ?thesis using True by (intro exI[of _ "e # kept"]) auto
  next
    case False
    then show ?thesis using Cons.IH[of xs] by auto
  qed
qed simp

end
