(* ===== verification/MainMode.thy ===== *)
theory MainMode
  imports TuiAttach AttachServe
begin

text \<open>
  \<^verbatim>\<open>main.go\<close>: what the program does with its command line, up to the point where it serves or
  follows another process, and the state the server hands to its subscribers.
\<close>

record flags =
  showVersion :: bool
  cfgPath :: string
  f_port :: int
  f_host :: string
  interactive :: bool
  tuiWarn :: int
  tuiCrit :: int
  attachPID :: int

datatype action_of_main =
    PrintVersion
  | BadFlags string
  | AttachFailed attach_error
  | AttachTui tui_model "scan_item list"
  | AttachPrint int "scan_item list"
  | InvalidFlags go_error
  | MainPanic string
  | ServeWith bool config

text \<open>
  Without a terminal interface the attached process prints the log lines it receives, whatever
  of the rest of the connection its reader passes on to it, each with this prefix.
\<close>

definition log_prefix :: "int \<Rightarrow> string \<Rightarrow> string" where
  "log_prefix pid l = ''['' @ Itoa pid @ ''] '' @ l"

text \<open>
  \<open>parse\<close> is the flag package, \<open>dial\<close> gives what is read from a socket path, \<open>ReadFile\<close> and
  \<open>Unmarshal\<close> the configuration file.
\<close>

definition attach_mode :: "(string \<Rightarrow> scan_item list option) \<Rightarrow> int \<Rightarrow> flags \<Rightarrow> action_of_main" where
  "attach_mode dial now f =
     (case ConnectAddr (dial (SocketPath (attachPID f))) of
        Inl e \<Rightarrow> AttachFailed e
      | Inr (remoteCfg, rest) \<Rightarrow>
          (let snapshots = hd (state_sent (reader rest))
           in if interactive f
              then AttachTui (NewModel remoteCfg \<lparr>Warn = tuiWarn f, Crit = tuiCrit f\<rparr> (attachPID f) snapshots now) rest
              else AttachPrint (attachPID f) rest))"

definition main ::
  "(string list \<Rightarrow> string + flags) \<Rightarrow> (string \<Rightarrow> scan_item list option) \<Rightarrow> (string \<Rightarrow> string + 'b)
   \<Rightarrow> ('b \<Rightarrow> string + config) \<Rightarrow> int \<Rightarrow> string list \<Rightarrow> action_of_main" where
  "main parse dial ReadFile Unmarshal now args =
     (if length args > 1 \<and> args ! 1 = ''version'' then PrintVersion
      else case parse (tl args) of
             Inl e \<Rightarrow> BadFlags e
           | Inr f \<Rightarrow>
               if showVersion f then PrintVersion
               else if attachPID f \<noteq> 0 then attach_mode dial now f
               else (case startup_config ReadFile Unmarshal (cfgPath f) (f_port f) (f_host f) of
                       Ok c \<Rightarrow> ServeWith (interactive f) c
                     | Err e \<Rightarrow> InvalidFlags e
                     | Panic m \<Rightarrow> MainPanic m))"

text \<open>The state function of the hub; \<open>perm\<close> is the order of the map iteration.\<close>

definition state_func ::
  "((string \<times> nat) list \<Rightarrow> (string \<times> nat) list) \<Rightarrow> 'tb registry \<Rightarrow> endpoint_snapshot list" where
  "state_func perm r = List.map (\<lambda>(p, n). \<lparr>snap_Path = p, snap_QueueDepth = int n\<rparr>) (perm (QueueDepths r))"

section \<open>What a client starts with\<close>

lemma seed_row_at:
  "st_at p (seed_row now snap sts) =
     (if p = snap_Path snap \<and> snap_QueueDepth snap > 0
      then map_option (\<lambda>st. st\<lparr>enqueuedAt := replicate (nat (snap_QueueDepth snap)) now\<rparr>) (st_at p sts)
      else st_at p sts)"
  by (induction sts) auto

lemma seed_rows_other:
  "p \<notin> snap_Path ` set snaps \<Longrightarrow> st_at p (fold (seed_row now) snaps sts) = st_at p sts"
  by (induction snaps arbitrary: sts) (auto simp: seed_row_at)

lemma seed_rows_at:
  assumes "distinct (List.map snap_Path snaps)" and "snap \<in> set snaps" and "st_at (snap_Path snap) sts = Some st"
    and "enqueuedAt st = []" and "0 \<le> snap_QueueDepth snap"
  shows "\<exists>st'. st_at (snap_Path snap) (fold (seed_row now) snaps sts) = Some st'
    \<and> int (length (enqueuedAt st')) = snap_QueueDepth snap"
  using assms
proof (induction snaps arbitrary: sts)
  case (Cons x snaps)
  show ?case
  proof (cases "x = snap")
    case True
    then have "snap_Path snap \<notin> snap_Path ` set snaps" using Cons.prems(1) by auto
    then show ?thesis using True Cons.prems(3-5)
      by (cases "snap_QueueDepth snap = 0") (auto simp: seed_rows_other seed_row_at)
  next
    case False
    then have "snap_Path x \<noteq> snap_Path snap" using Cons.prems(1,2) by (auto simp: image_iff)
    then have "st_at (snap_Path snap) (seed_row now x sts) = Some st" using Cons.prems(3) by (simp add: seed_row_at)
    then show ?thesis using Cons.IH[of "seed_row now x sts"] Cons.prems False by auto
  qed
qed simp

lemma st_at_new:
  "c \<in> set cs \<Longrightarrow> distinct (List.map Path cs)
   \<Longrightarrow> st_at (Path c) (List.map (\<lambda>e. new_state e False) cs) = Some (new_state c False)"
  by (induction cs) (auto simp: new_state_def image_iff)


definition demo_flags :: flags where
  "demo_flags = \<lparr>showVersion = False, cfgPath = ''rls.yml'', f_port = 0, f_host = '''', interactive = True,
     tuiWarn = 2, tuiCrit = 5, attachPID = 42\<rparr>"

definition demo_waiting :: "(float64 \<times> int) registry" where
  "demo_waiting = reg_run amd64 demo_bucket
     [RTouch ''/api'' ((endp (demo_after ''token_window'' [AStart 1 0 demo_req, APush 0 1]))
        \<lparr>cfg := demo_cfg ''fifo'' ''token_window''\<rparr>)] demo_reg"


end
