(* ===== verification/MainWiring.thy ===== *)
theory MainWiring
  imports WholeEvents MainMode LogSink
begin

text \<open>
  \<^verbatim>\<open>main.go\<close> after its decisions: the interactive program as one system. The server, the event and
  log channels, the two fan-outs, the hub with its socket and the terminal interface run
  together; \<open>a_step\<close> is one step of one of them.
\<close>

section \<open>State\<close>

text \<open>\<open>tui.Run\<close>; after it and before \<open>cancel\<close>; in \<open>Shutdown\<close>.\<close>

datatype main_pc = InTui | TuiGone | Cancelled

text \<open>\<open>seen\<close> is the history of the events that the interface has taken from its channel.\<close>

record 'tb app =
  core :: "'tb whole"
  rawLogs :: "string list"
  evfan :: "event fanout"
  logfan :: "string fanout"
  hub_side :: serve_state
  hub_on :: bool
  screen :: tui_model
  seen :: "event list"
  main_pc :: main_pc

definition Events2 :: "event option \<Rightarrow> event fanout \<Rightarrow> event fanout" where
  "Events2 = fan_step 256"

definition Logs2 :: "string option \<Rightarrow> string fanout \<Rightarrow> string fanout" where
  "Logs2 = fan_step 256"

text \<open>
  Everything is made and started before the interface runs: \<open>bind_ok\<close> says whether the socket
  could be bound, \<open>now\<close> is the time.
\<close>

definition start_interactive ::
  "(float64 \<Rightarrow> int) \<Rightarrow> (float64 \<Rightarrow> int \<Rightarrow> 'tb) \<Rightarrow> bool \<Rightarrow> int \<Rightarrow> dot_thresholds \<Rightarrow> config \<Rightarrow> 'tb app outcome" where
  "start_interactive oor NewLimiter bind_ok now thresholds c =
     (case start_server oor NewLimiter now c of
        Err e \<Rightarrow> Err e
      | Panic m \<Rightarrow> Panic m
      | Ok w \<Rightarrow> Ok \<lparr>core = w, rawLogs = [], evfan = Fanout2, logfan = Fanout2,
                    hub_side = serve_start bind_ok (NewHub c), hub_on = True,
                    screen = NewModel c thresholds 0 [] now, seen = [], main_pc = InTui\<rparr>)"

section \<open>Steps\<close>

definition show_on :: "tui_msg \<Rightarrow> 'tb app \<Rightarrow> 'tb app" where
  "show_on msg a =
     (case Update msg (screen a) of
        (m, cmds) \<Rightarrow> a\<lparr>screen := m, main_pc := (if Quit \<in> set cmds then TuiGone else main_pc a)\<rparr>)"

definition to_hub :: "serve_in \<Rightarrow> 'tb app \<Rightarrow> 'tb app" where
  "to_hub x a = a\<lparr>hub_side := serve_step x (hub_side a)\<rparr>"

text \<open>
  \<open>keys\<close> are the keys that may be pressed, \<open>expired\<close> whether the deadline of the shutdown may pass.
  Nobody shuts the server down before the interface is left.
\<close>

inductive a_step ::
  "(float64 \<Rightarrow> int) \<Rightarrow> (float64 \<Rightarrow> int \<Rightarrow> 'tb) \<Rightarrow> ('tb \<Rightarrow> float64) \<Rightarrow> (int \<Rightarrow> 'tb \<Rightarrow> 'tb option) \<Rightarrow> bool
   \<Rightarrow> string set \<Rightarrow> 'tb app \<Rightarrow> 'tb app \<Rightarrow> bool"
  for oor NewLimiter Tokens tbWait expired keys where
  serve: "w_move oor NewLimiter Tokens tbWait expired (core a) w
    \<Longrightarrow> down (srv w) = down (srv (core a)) \<or> main_pc a = Cancelled
    \<Longrightarrow> a_step oor NewLimiter Tokens tbWait expired keys a (a\<lparr>core := w\<rparr>)"
| log: "a_step oor NewLimiter Tokens tbWait expired keys a (a\<lparr>rawLogs := snd (log_Write 256 text (rawLogs a))\<rparr>)"
| fan_event: "w_recv (core a) = Some (ev, w)
    \<Longrightarrow> a_step oor NewLimiter Tokens tbWait expired keys a (a\<lparr>core := w, evfan := Events2 (Some ev) (evfan a)\<rparr>)"
| fan_log: "chan_recv (rawLogs a) = Some (l, ls)
    \<Longrightarrow> a_step oor NewLimiter Tokens tbWait expired keys a (a\<lparr>rawLogs := ls, logfan := Logs2 (Some l) (logfan a)\<rparr>)"
| tui_event: "main_pc a = InTui \<Longrightarrow> fan_recv_a (evfan a) = Some (ev, f)
    \<Longrightarrow> a_step oor NewLimiter Tokens tbWait expired keys a
          (show_on (event_msg now r (Some ev)) (a\<lparr>evfan := f, seen := seen a @ [ev]\<rparr>))"
| tui_log: "main_pc a = InTui \<Longrightarrow> fan_recv_a (logfan a) = Some (l, f)
    \<Longrightarrow> a_step oor NewLimiter Tokens tbWait expired keys a (show_on (log_msg (Some l)) (a\<lparr>logfan := f\<rparr>))"
| tui_tick: "main_pc a = InTui \<Longrightarrow> mset (perm (eps (sreg (srv (core a))))) = mset (eps (sreg (srv (core a))))
    \<Longrightarrow> a_step oor NewLimiter Tokens tbWait expired keys a
          (show_on (TickMsg (Some (Snapshot perm (sreg (srv (core a)))))) a)"
| tui_resize: "main_pc a = InTui \<Longrightarrow> a_step oor NewLimiter Tokens tbWait expired keys a (show_on (WindowSize x y) a)"
| tui_key: "main_pc a = InTui \<Longrightarrow> k \<in> keys \<Longrightarrow> a_step oor NewLimiter Tokens tbWait expired keys a (show_on (KeyPress k) a)"
| hub_event: "hub_on a \<Longrightarrow> fan_recv_b (evfan a) = Some (ev, f)
    \<Longrightarrow> a_step oor NewLimiter Tokens tbWait expired keys a
          (to_hub (Broadcast \<lparr>w_Type = MsgEvent, w_Data = JEvent ev\<rparr>) (a\<lparr>evfan := f\<rparr>))"
| hub_log: "hub_on a \<Longrightarrow> fan_recv_b (logfan a) = Some (l, f)
    \<Longrightarrow> a_step oor NewLimiter Tokens tbWait expired keys a
          (to_hub (Broadcast \<lparr>w_Type = MsgLog, w_Data = JLog l\<rparr>) (a\<lparr>logfan := f\<rparr>))"
| hub_stop: "AttachServe.serve_state.ctx_done (hub_side a)
    \<Longrightarrow> a_step oor NewLimiter Tokens tbWait expired keys a (a\<lparr>hub_on := False\<rparr>)"
| connect: "mset (perm (QueueDepths (sreg (srv (core a))))) = mset (QueueDepths (sreg (srv (core a))))
    \<Longrightarrow> a_step oor NewLimiter Tokens tbWait expired keys a
          (to_hub (Accepted k (Some (state_func perm (sreg (srv (core a)))))) a)"
| socket: "x \<in> {AcceptFailed, Drained} \<union> range (\<lambda>(k, y). ConnTurn k y)
    \<Longrightarrow> a_step oor NewLimiter Tokens tbWait expired keys a (to_hub x a)"
| cancel: "main_pc a = TuiGone
    \<Longrightarrow> a_step oor NewLimiter Tokens tbWait expired keys a (to_hub CtxDone (a\<lparr>main_pc := Cancelled\<rparr>))"

definition a_reach ::
  "(float64 \<Rightarrow> int) \<Rightarrow> (float64 \<Rightarrow> int \<Rightarrow> 'tb) \<Rightarrow> ('tb \<Rightarrow> float64) \<Rightarrow> (int \<Rightarrow> 'tb \<Rightarrow> 'tb option) \<Rightarrow> bool
   \<Rightarrow> string set \<Rightarrow> 'tb app \<Rightarrow> 'tb app \<Rightarrow> bool" where
  "a_reach oor NewLimiter Tokens tbWait expired keys = (a_step oor NewLimiter Tokens tbWait expired keys)\<^sup>*\<^sup>*"

section \<open>The way of the events to the interface\<close>

definition pipe :: "'tb app \<Rightarrow> event list" where
  "pipe a = seen a @ out_a (evfan a) @ sink_events (rawEvents (core a))"

definition flow :: "'tb app \<Rightarrow> bool" where
  "flow a \<longleftrightarrow> \<not> fan_closed (evfan a) \<and> (\<exists>raw. rawEvents (core a) = Some (256, raw))
     \<and> subseq (pipe a) (emitted (core a)) \<and> (length (emitted (core a)) \<le> 256 \<longrightarrow> pipe a = emitted (core a))"

lemma show_on_simps [simp]:
  "core (show_on msg a) = core a" "evfan (show_on msg a) = evfan a" "seen (show_on msg a) = seen a"
  "screen (show_on msg a) = fst (Update msg (screen a))" "hub_side (show_on msg a) = hub_side a"
  by (simp_all add: show_on_def split: prod.splits)

lemma to_hub_simps [simp]:
  "core (to_hub x a) = core a" "evfan (to_hub x a) = evfan a" "seen (to_hub x a) = seen a"
  "screen (to_hub x a) = screen a" "hub_side (to_hub x a) = serve_step x (hub_side a)"
  by (simp_all add: to_hub_def)

lemma flow_frame:
  "flow a \<Longrightarrow> core a' = core a \<Longrightarrow> fan_closed (evfan a') = fan_closed (evfan a) \<Longrightarrow> pipe a' = pipe a \<Longrightarrow> flow a'"
  by (simp add: flow_def)

lemma flow_serve:
  assumes "flow a" and "w_move oor NewLimiter Tokens tbWait expired (core a) w"
  shows "flow (a\<lparr>core := w\<rparr>)"
proof -
  obtain raw where raw: "rawEvents (core a) = Some (256, raw)" using assms(1) by (auto simp: flow_def)
  obtain es where es: "emitted w = emitted (core a) @ es" "rawEvents w = fold emit es (rawEvents (core a))"
    using w_move_emits[OF assms(2)] by blast
  obtain kept where k: "rawEvents w = Some (256, raw @ kept)" "subseq kept es"
    "length raw + length es \<le> 256 \<longrightarrow> kept = es"
    using fold_emit_subseq[of es 256 raw] es(2) raw by auto
  have p: "pipe (a\<lparr>core := w\<rparr>) = pipe a @ kept" by (simp add: pipe_def k(1) raw sink_events_def)
  have "subseq (pipe a @ kept) (emitted (core a) @ es)"
    using assms(1) k(2) by (simp add: flow_def list_emb_append_mono)
  moreover have "pipe a @ kept = emitted (core a) @ es" if "length (emitted (core a) @ es) \<le> 256"
  proof -
    have "pipe a = emitted (core a)" using assms(1) that by (simp add: flow_def)
    then have "length raw \<le> length (emitted (core a))" by (auto simp: pipe_def raw sink_events_def dest: arg_cong[of _ _ length])
    then show ?thesis using that k(3) \<open>pipe a = emitted (core a)\<close> by simp
  qed
  ultimately show ?thesis using assms(1) k(1) by (auto simp: flow_def p es(1))
qed

lemma flow_fan:
  assumes "flow a" and "w_recv (core a) = Some (ev, w)"
  shows "flow (a\<lparr>core := w, evfan := Events2 (Some ev) (evfan a)\<rparr>)"
proof -
  obtain raw where raw: "rawEvents (core a) = Some (256, raw)" using assms(1) by (auto simp: flow_def)
  then obtain rest where r: "raw = ev # rest" "w = (core a)\<lparr>rawEvents := Some (256, rest)\<rparr>"
    using assms(2) by (cases raw) (auto simp: w_recv_def sink_recv_def)
  have open_fan: "\<not> fan_closed (evfan a)" using assms(1) by (simp add: flow_def)
  let ?a = "a\<lparr>core := w, evfan := Events2 (Some ev) (evfan a)\<rparr>"
  have old: "pipe a = seen a @ out_a (evfan a) @ ev # rest" by (simp add: pipe_def raw r(1) sink_events_def)
  have new: "pipe ?a = seen a @ offer 256 ev (out_a (evfan a)) @ rest"
    using open_fan by (simp add: pipe_def r(2) sink_events_def Events2_def fan_step_def)
  have "subseq (pipe ?a) (pipe a)"
    unfolding old new by (auto simp: offer_def intro: list_emb_append_mono)
  then have "subseq (pipe ?a) (emitted w)" using assms(1) by (auto simp: flow_def r(2) intro: subseq_order.trans)
  moreover have "pipe ?a = emitted w" if "length (emitted w) \<le> 256"
  proof -
    have e: "pipe a = emitted w" using assms(1) that by (simp add: flow_def r(2))
    then have "length (out_a (evfan a)) < 256" using that unfolding old by (auto dest: arg_cong[of _ _ length])
    then show ?thesis using e unfolding old new by (simp add: offer_def)
  qed
  ultimately show ?thesis using open_fan by (simp add: flow_def r(2) Events2_def fan_step_def)
qed

lemma fan_recv_simps:
  "fan_recv_a f = Some (x, g) \<Longrightarrow> out_a f = x # out_a g \<and> fan_closed g = fan_closed f"
  "fan_recv_b f = Some (x, g) \<Longrightarrow> out_a g = out_a f \<and> out_b f = x # out_b g \<and> fan_closed g = fan_closed f"
  by (auto simp: fan_recv_a_def fan_recv_b_def)

lemma flow_step:
  assumes "a_step oor NewLimiter Tokens tbWait expired keys a a'" and "flow a"
  shows "flow a'"
  using assms(1)
proof cases
  case (serve w)
  then show ?thesis using flow_serve[OF assms(2)] by blast
next
  case (fan_event ev w)
  then show ?thesis using flow_fan[OF assms(2)] by blast
next
  case (tui_event ev f now r)
  then show ?thesis using fan_recv_simps(1)[OF tui_event(3)]
    by (intro flow_frame[OF assms(2)]) (auto simp: pipe_def)
next
  case (hub_event ev f)
  then show ?thesis using fan_recv_simps(2)[OF hub_event(3)]
    by (intro flow_frame[OF assms(2)]) (auto simp: pipe_def)
qed (auto intro!: flow_frame[OF assms(2)] simp: pipe_def)

end
