(* ===== verification/MainDisplay.thy ===== *)
theory MainDisplay
  imports MainWiring
begin

text \<open>
  What the interface of a running server shows: its counters never exceed what the endpoints have
  done, and are exact when every event has arrived, across the channels, the fan-out, the ticks
  that re-read the registry and the keys.
\<close>

section \<open>Counters are bounded by the events taken\<close>

definition below :: "event list \<Rightarrow> endpoint_state \<Rightarrow> bool" where
  "below S st \<longleftrightarrow> is_i64 (served st) \<and> is_i64 (rejected st)
     \<and> served st \<le> int (n_served (own (st_path st) S)) \<and> rejected st \<le> int (n_rejected (own (st_path st) S))"

definition taken :: "tui_msg \<Rightarrow> event list" where
  "taken msg = (case msg of ServerEvent now r ev \<Rightarrow> [ev] | _ \<Rightarrow> [])"

lemma i64_le: "- (2 ^ 63) \<le> x \<Longrightarrow> i64 x \<le> x"
  using zmod_le_nonneg_dividend[of "x + 2 ^ 63" "2 ^ 64"] by (simp add: i64_def)

lemma below_new [simp]: "below S (new_state c dyn)"
  by (simp add: below_def new_state_def is_i64_def)

lemma below_more: "below S st \<Longrightarrow> below (S @ S') st"
  by (simp add: below_def)

lemma below_config: "below S st \<Longrightarrow> Path c = st_path st \<Longrightarrow> below S (st\<lparr>st_cfg := c, st_dynamic := d\<rparr>)"
  by (simp add: below_def)

lemma below_reset: "below S (reset_stats st)"
  by (simp add: below_def reset_stats_def is_i64_def)

lemma below_event:
  assumes "below S st" and "st_path st = ev_path ev"
  shows "below (S @ [ev]) (event_row now r ev st)"
proof -
  have o: "own (ev_path ev) [ev] = [ev]" by (simp add: own_def)
  have i: "i64 (x + 1) \<le> 1 + int n" if "is_i64 x" "x \<le> int n" for x n
    using i64_le[of "x + 1"] that by (simp add: is_i64_def)
  have s: "own (st_path st) (S @ [ev]) = own (st_path st) S @ [ev]" by (simp add: o assms(2))
  show ?thesis unfolding below_def event_row_cfg s using assms(1) i
    by (cases ev) (auto simp: below_def)
qed

lemma insert_row_rows: "st \<in> set (rows (ensure_row p m)) \<Longrightarrow> st \<in> set (rows m) \<or> (\<exists>c. st = new_state c True)"
  by (auto simp: ensure_row_def addDynamicEndpoint_def Let_def split: if_splits)

lemma handleKey_rows:
  "st \<in> set (rows (fst (handleKey k m))) \<Longrightarrow> st \<in> set (rows m) \<or> (\<exists>st'. st = reset_stats st')"
  by (auto simp: handleKey_def Let_def dest: set_update_subset_insert[THEN subsetD] split: if_splits)

lemma subseq_start: "subseq (xs @ ys) es \<Longrightarrow> subseq xs es"
  using subseq_order.trans[of xs "xs @ ys" es] list_emb_append_mono[of "(=)" xs xs "[]" ys] by simp

lemma find_in: "List.find P xs = Some x \<Longrightarrow> x \<in> set xs \<and> P x"
  by (induction xs) (auto split: if_splits)

text \<open>The row of one endpoint after a tick.\<close>

definition synced :: "endpoint_state list \<Rightarrow> endpoint_info \<Rightarrow> endpoint_state" where
  "synced sts info =
     (case List.find (\<lambda>st. st_path st = Path (Config info)) (rev sts) of
        Some st \<Rightarrow> st\<lparr>st_cfg := Config info, st_dynamic := Dynamic (Config info)\<rparr>
      | None \<Rightarrow> new_state (Config info) (Dynamic (Config info)))"

lemma synced_path [simp]: "st_path (synced sts info) = Path (Config info)"
  by (simp add: synced_def new_state_def split: option.splits)

lemma sync_rows:
  "rows (syncEndpoints (Some infos) m) = List.map (synced (rows m)) infos"
  "paused (syncEndpoints (Some infos) m) = paused m"
  by (simp_all add: syncEndpoints_def Let_def synced_def[abs_def])

lemma below_synced:
  assumes "\<forall>st \<in> set sts. below S st"
  shows "below S (synced sts info)"
proof (cases "List.find (\<lambda>st. st_path st = Path (Config info)) (rev sts)")
  case None
  then show ?thesis by (simp add: synced_def)
next
  case (Some st)
  then have "st \<in> set sts" "st_path st = Path (Config info)" using find_in[OF Some] by auto
  then show ?thesis using assms Some by (simp add: synced_def below_config)
qed

lemma Update_below:
  assumes "\<forall>st \<in> set (rows m). below S st"
  shows "\<forall>st \<in> set (rows (fst (Update msg m))). below (S @ taken msg) st"
proof (cases msg)
  case (ServerEvent now r ev)
  show ?thesis
  proof (cases "paused m")
    case True
    then show ?thesis using assms below_more by (auto simp: ServerEvent taken_def)
  next
    case False
    have "below (S @ [ev]) st" if st: "st \<in> set (rows (fst (handleServerEvent now r ev m)))" for st
    proof (rule handleServerEvent_effect[of ev m now r])
      fix i s
      let ?m1 = "ensure_row (ev_path ev) m"
      assume i: "i < length (rows ?m1)" "indexForPath (ev_path ev) (rows ?m1) = Some i"
        and e: "fst (handleServerEvent now r ev m) = (let m1 = ?m1
           in m1\<lparr>rows := (rows m1)[i := event_row now r ev (rows m1 ! i)], lastStatus := s\<rparr>)"
      have old: "below S x" if "x \<in> set (rows ?m1)" for x using insert_row_rows[OF that] assms by auto
      have "st = event_row now r ev (rows ?m1 ! i) \<or> st \<in> set (rows ?m1)"
        using st set_update_subset_insert[of "rows ?m1" i] by (auto simp: e Let_def)
      then show "below (S @ [ev]) st"
        using old below_more below_event[OF old[OF nth_mem[OF i(1)]]] indexForPath_Some[OF i(2)] by metis
    qed
    then show ?thesis using False by (cases "handleServerEvent now r ev m") (auto simp: ServerEvent taken_def)
  qed
next
  case (KeyPress k)
  then show ?thesis using assms below_reset by (auto simp: taken_def dest!: handleKey_rows)
next
  case (TickMsg reg)
  then show ?thesis using assms below_synced[OF assms]
    by (cases reg) (auto simp: taken_def syncEndpoints_def[of None] sync_rows)
qed (use assms in \<open>auto simp: taken_def Let_def\<close>)

section \<open>The interactive program\<close>

lemma a_step_core:
  assumes "a_step oor NewLimiter Tokens tbWait expired keys a a'"
  shows "w_reach oor NewLimiter Tokens tbWait expired (core a) (core a')"
  using assms
proof cases
  case (serve w)
  then show ?thesis by (auto simp: w_reach_def w_step_def)
next
  case (fan_event ev w)
  then show ?thesis by (auto simp: w_reach_def w_step_def)
qed (auto simp: w_reach_def)

lemma a_reach_core:
  "a_reach oor NewLimiter Tokens tbWait expired keys a a' \<Longrightarrow> w_reach oor NewLimiter Tokens tbWait expired (core a) (core a')"
  unfolding a_reach_def
  by (induction rule: rtranclp_induct) (auto simp: w_reach_def dest!: a_step_core intro: rtranclp_trans)

lemma start_interactive_Ok:
  assumes "start_interactive oor NewLimiter bind_ok now thresholds c = Ok a"
  shows "start_server oor NewLimiter now c = Ok (core a)" "screen a = NewModel c thresholds 0 [] now"
    "seen a = []" "evfan a = Fanout2" "hub_side a = serve_start bind_ok (NewHub c)" "main_pc a = InTui"
  using assms by (auto simp: start_interactive_def split: outcome.splits)

lemma flow_start:
  assumes "start_interactive oor NewLimiter bind_ok now thresholds c = Ok a"
  shows "flow a"
  using start_interactive_Ok[OF assms] start_server_Ok[OF start_interactive_Ok(1)[OF assms]]
  by (simp add: flow_def pipe_def Fanout2_def sink_events_def)

lemma flow_reach:
  assumes "a_reach oor NewLimiter Tokens tbWait expired keys a0 a" and "flow a0"
  shows "flow a"
  using assms unfolding a_reach_def by (induction rule: rtranclp_induct) (auto intro: flow_step)

text \<open>A step of the program is at most one message for the interface, with the event it takes.\<close>

lemma a_step_screen:
  assumes "a_step oor NewLimiter Tokens tbWait expired keys a a'"
  shows "(screen a' = screen a \<and> seen a' = seen a)
    \<or> (\<exists>msg. screen a' = fst (Update msg (screen a)) \<and> seen a' = seen a @ taken msg)"
  using assms
proof cases
  case (tui_event ev f now r)
  then show ?thesis by (intro disjI2 exI[of _ "ServerEvent now r ev"]) (simp add: event_msg_def taken_def)
next
  case (tui_log l f)
  then show ?thesis by (intro disjI2 exI[of _ "LogLine l"]) (simp add: log_msg_def taken_def)
next
  case (tui_tick perm)
  then show ?thesis
    by (intro disjI2 exI[of _ "TickMsg (Some (Snapshot perm (sreg (srv (core a)))))"]) (simp add: taken_def)
next
  case (tui_resize x y)
  then show ?thesis by (intro disjI2 exI[of _ "WindowSize x y"]) (simp add: taken_def)
next
  case (tui_key k)
  then show ?thesis by (intro disjI2 exI[of _ "KeyPress k"]) (simp add: taken_def)
qed auto

lemma NewModel_below: "st \<in> set (rows (NewModel c thresholds pid [] now)) \<Longrightarrow> below S st"
  by (auto simp: NewModel_def Let_def)

lemma rows_below:
  assumes "a_reach oor NewLimiter Tokens tbWait expired keys a0 a"
    and "start_interactive oor NewLimiter bind_ok now thresholds c = Ok a0"
  shows "\<forall>st \<in> set (rows (screen a)). below (seen a) st"
  using assms(1) unfolding a_reach_def
proof (induction rule: rtranclp_induct)
  case base
  then show ?case using start_interactive_Ok[OF assms(2)] NewModel_below by auto
next
  case (step a a')
  from a_step_screen[OF step.hyps(2)] show ?case
  proof
    assume "\<exists>msg. screen a' = fst (Update msg (screen a)) \<and> seen a' = seen a @ taken msg"
    then show ?case using Update_below[OF step.IH] by auto
  qed (use step.IH in simp)
qed

section \<open>Exact counters\<close>

text \<open>The row shows the events \<open>es\<close> of its path.\<close>

definition displays :: "event list \<Rightarrow> endpoint_state \<Rightarrow> bool" where
  "displays es st \<longleftrightarrow> served st = i64 (int (n_served es)) \<and> rejected st = i64 (int (n_rejected es))
     \<and> length (enqueuedAt st) = dots es 0"

definition exact :: "event list \<Rightarrow> tui_model \<Rightarrow> bool" where
  "exact S m \<longleftrightarrow> \<not> paused m \<and> distinct (List.map st_path (rows m))
     \<and> (\<forall>p. case st_at p (rows m) of Some st \<Rightarrow> displays (own p S) st | None \<Rightarrow> own p S = [])"

lemma exact_at:
  assumes "exact S m"
  shows "st_at p (rows m) = Some st \<Longrightarrow> displays (own p S) st" "st_at p (rows m) = None \<Longrightarrow> own p S = []"
  using assms unfolding exact_def by (metis option.simps(5), metis option.simps(4))

lemma displays_new [simp]: "displays [] (new_state c dyn)"
  by (simp add: displays_def new_state_def i64_def)

lemma i64_next: "i64 (i64 x + 1) = i64 (1 + x)"
  using i64_add_left[of x 1] by (metis add.commute)

lemma displays_event: "displays es st \<Longrightarrow> displays (es @ [ev]) (event_row now r ev st)"
  by (cases ev) (auto simp: displays_def i64_next)

lemma insert_row_paths: "mset (List.map st_path (insert_row new sts)) = add_mset (st_path new) (mset (List.map st_path sts))"
  by (induction sts) auto

lemma insert_row_distinct:
  "st_path new \<notin> st_path ` set sts \<Longrightarrow> distinct (List.map st_path sts)
   \<Longrightarrow> distinct (List.map st_path (insert_row new sts))"
  using insert_row_paths[of new sts] mset_eq_imp_distinct_iff[of "List.map st_path (insert_row new sts)" "List.map st_path (new # sts)"]
  by simp

lemma ensure_row_distinct:
  assumes "distinct (List.map st_path (rows m))"
  shows "distinct (List.map st_path (rows (ensure_row p m)))"
proof (cases "indexForPath p (rows m)")
  case None
  have "st_path (new_state (discovered_config p (rows m)) True) = p" by (simp add: new_state_def)
  then show ?thesis using assms None insert_row_distinct
    by (simp add: ensure_row_def addDynamicEndpoint_def Let_def indexForPath_None)
qed (use assms in \<open>simp add: ensure_row_def\<close>)

lemma event_distinct:
  assumes "distinct (List.map st_path (rows m))"
  shows "distinct (List.map st_path (rows (fst (handleServerEvent now r ev m))))"
proof (rule handleServerEvent_effect[of ev m now r])
  fix i s
  let ?m1 = "ensure_row (ev_path ev) m"
  assume i: "i < length (rows ?m1)" "indexForPath (ev_path ev) (rows ?m1) = Some i"
    and e: "fst (handleServerEvent now r ev m) = (let m1 = ?m1
       in m1\<lparr>rows := (rows m1)[i := event_row now r ev (rows m1 ! i)], lastStatus := s\<rparr>)"
  have "List.map st_path ((rows ?m1)[i := event_row now r ev (rows ?m1 ! i)]) = List.map st_path (rows ?m1)"
    using i(1) by (simp add: map_update list_update_same_conv)
  then show ?thesis using ensure_row_distinct[OF assms] by (simp add: e Let_def)
qed

lemma exact_event:
  assumes "exact S m"
  shows "exact (S @ [ev]) (fst (handleServerEvent now r ev m))"
proof -
  have other: "p \<noteq> ev_path ev \<Longrightarrow> own p [ev] = []" and same: "own (ev_path ev) [ev] = [ev]" for p
    by (simp_all add: own_def)
  have row: "displays (own (ev_path ev) S) (row_for (ev_path ev) (rows m))"
    using exact_at[OF assms, of "ev_path ev"] by (auto simp: row_for_def split: option.splits)
  have "case st_at p (rows (fst (handleServerEvent now r ev m))) of Some st \<Rightarrow> displays (own p (S @ [ev])) st
      | None \<Rightarrow> own p (S @ [ev]) = []" for p
    using exact_at[OF assms, of p] other[of p] displays_event[OF row, of ev now r]
    by (cases "p = ev_path ev") (auto simp: event_at same split: option.splits)
  then show ?thesis
    using assms event_distinct[of m now r ev] handleServerEvent_paused[of now r ev m] by (simp add: exact_def)
qed

section \<open>Reading the registry\<close>

lemma find_snoc:
  "List.find P (xs @ [y]) = (case List.find P xs of None \<Rightarrow> if P y then Some y else None | Some z \<Rightarrow> Some z)"
  by (induction xs) auto

lemma find_rev:
  "distinct (List.map st_path sts) \<Longrightarrow> List.find (\<lambda>st. st_path st = p) (rev sts) = st_at p sts"
proof (induction sts)
  case (Cons st sts)
  then have ih: "List.find (\<lambda>st. st_path st = p) (rev sts) = st_at p sts" by simp
  show ?case
  proof (cases "st_path st = p")
    case True
    then have "List.find (\<lambda>st. st_path st = p) (rev sts) = None"
      using Cons.prems by (auto simp: find_None_iff image_iff)
    then show ?thesis using True by (simp add: find_snoc)
  next
    case False
    then show ?thesis by (simp add: find_snoc ih split: option.splits)
  qed
qed simp

lemma st_at_map_infos:
  assumes "distinct (List.map (\<lambda>i. Path (Config i)) infos)" and "\<And>i. i \<in> set infos \<Longrightarrow> st_path (f i) = Path (Config i)"
  shows "st_at p (List.map f infos) = map_option f (List.find (\<lambda>i. Path (Config i) = p) infos)"
  using assms by (induction infos) auto

text \<open>A tick keeps the counters when the registry knows every path with an event.\<close>

lemma exact_sync:
  assumes "exact S m" and "distinct (List.map (\<lambda>i. Path (Config i)) infos)"
    and "\<And>p. own p S \<noteq> [] \<Longrightarrow> p \<in> (\<lambda>i. Path (Config i)) ` set infos"
  shows "exact S (syncEndpoints (Some infos) m)"
proof -
  have d: "distinct (List.map st_path (rows m))" using assms(1) by (simp add: exact_def)
  have "case st_at p (List.map (synced (rows m)) infos) of Some st \<Rightarrow> displays (own p S) st | None \<Rightarrow> own p S = []" for p
  proof (cases "List.find (\<lambda>i. Path (Config i) = p) infos")
    case None
    then have "p \<notin> (\<lambda>i. Path (Config i)) ` set infos" by (auto simp: find_None_iff)
    then show ?thesis using assms(3)[of p] st_at_map_infos[OF assms(2), of "synced (rows m)" p] None by auto
  next
    case (Some info)
    have p: "Path (Config info) = p" using Some by (auto simp: find_Some_iff)
    have "displays (own p S) (synced (rows m) info)"
      using exact_at[OF assms(1), of p]
      by (auto simp: synced_def find_rev[OF d] p displays_def new_state_def i64_def split: option.splits)
    then show ?thesis using st_at_map_infos[OF assms(2), of "synced (rows m)" p] Some by simp
  qed
  then show ?thesis using assms(1,2) by (simp add: exact_def sync_rows comp_def)
qed

section \<open>The registry at a tick\<close>

lemma keys_step:
  assumes "s_step oor NewLimiter expired s s'" and "distinct (List.map fst (eps (sreg s)))"
  shows "distinct (List.map fst (eps (sreg s')))"
  using assms(1)
proof cases
  case (accept i path)
  then show ?thesis using assms(2) by (auto simp: s_accept_def split: if_splits)
next
  case (route now i)
  from route_reg[OF route] show ?thesis
  proof
    assume "\<exists>path k. Match_locked oor NewLimiter now path (sreg s) = Ok (k, sreg s')"
    then obtain path k where m: "Match_locked oor NewLimiter now path (sreg s) = Ok (k, sreg s')" by blast
    show ?thesis by (cases rule: Match_locked_cases[OF m]) (use assms(2) in \<open>auto simp: distinct_update\<close>)
  qed (use assms(2) in simp)
next
  case (add i)
  then show ?thesis using assms(2) by (auto simp: s_add_def split: req_phase.splits)
next
  case (finish i)
  then show ?thesis using assms(2) by (auto simp: s_done_def split: req_phase.splits)
next
  case shutdown
  then show ?thesis using assms(2) by cases (auto simp: StopAll_def)
next
  case (touch p ep)
  then show ?thesis using assms(2) by (auto simp: distinct_update split: option.splits)
qed

lemma keys_reach:
  "s_reach oor NewLimiter expired s s' \<Longrightarrow> distinct (List.map fst (eps (sreg s)))
   \<Longrightarrow> distinct (List.map fst (eps (sreg s')))"
  unfolding s_reach_def by (induction rule: rtranclp_induct) (auto intro: keys_step)

lemma keys_start:
  assumes "server_New oor NewLimiter now c = Ok s"
  shows "distinct (List.map fst (eps (sreg s)))"
proof -
  have "distinct (List.map fst (eps (fold (\<lambda>ro. ro) (registry_options c) \<lparr>eps = [], maxDynamic = 1000, dynamicCount = 0\<rparr>)))"
    unfolding fold_options_eps by simp
  then show ?thesis using add_all_Ok[OF server_New_Ok(1)[OF assms, unfolded NewRegistryWithOpts_def]] by blast
qed

text \<open>The snapshot names each registered path once.\<close>

lemma Snapshot_paths:
  assumes "distinct (List.map fst (eps r))" and "\<And>k ep. (k, ep) \<in> set (eps r) \<Longrightarrow> Path (cfg ep) = k"
    and "mset (perm (eps r)) = mset (eps r)"
  shows "mset (List.map (\<lambda>i. Path (Config i)) (Snapshot perm r)) = mset (List.map fst (eps r))"
proof -
  let ?g = "\<lambda>(k, ep). \<lparr>Config = cfg ep, i_QueueLen = QueueLen ep\<rparr>" and ?f = "\<lambda>i. Path (Config i)"
  have m: "List.map ?f (List.map ?g (eps r)) = List.map fst (eps r)"
    unfolding map_map by (rule map_cong[OF refl]) (use assms(2) in auto)
  have "mset (Snapshot perm r) = image_mset ?g (mset (eps r))" by (simp add: Snapshot_def assms(3))
  then have "mset (List.map ?f (Snapshot perm r)) = mset (List.map ?f (List.map ?g (eps r)))" by (simp only: mset_map)
  then show ?thesis unfolding m .
qed

lemma registry_paths:
  assumes "w_inv oor NewLimiter Tokens tbWait w" and "distinct (List.map fst (eps (sreg (srv w))))"
    and "(k, ep) \<in> set (eps (sreg (srv w)))"
  shows "Path (cfg ep) = k"
proof -
  have "map_of (eps (sreg (srv w))) k = Some ep" by (rule map_of_is_SomeI[OF assms(2,3)])
  then have "alone oor NewLimiter Tokens tbWait k ep (procs w k) (own k (emitted w))"
    using assms(1) unfolding w_inv_def by blast
  then show ?thesis by (rule alone_Path)
qed

lemma exact_tick:
  assumes "exact S m" and "w_inv oor NewLimiter Tokens tbWait w" and "distinct (List.map fst (eps (sreg (srv w))))"
    and "subseq S (emitted w)" and "mset (perm (eps (sreg (srv w)))) = mset (eps (sreg (srv w)))"
  shows "exact S (syncEndpoints (Some (Snapshot perm (sreg (srv w)))) m)"
proof -
  let ?paths = "List.map (\<lambda>i. Path (Config i)) (Snapshot perm (sreg (srv w)))"
  have p: "mset ?paths = mset (List.map fst (eps (sreg (srv w))))"
    using Snapshot_paths[where perm = perm, OF assms(3) registry_paths[OF assms(2,3)] assms(5)] by blast
  then have "distinct ?paths" using assms(3) mset_eq_imp_distinct_iff by blast
  moreover have "q \<in> (\<lambda>i. Path (Config i)) ` set (Snapshot perm (sreg (srv w)))" if "own q S \<noteq> []" for q
  proof -
    have "own q (emitted w) \<noteq> []" using own_subseq[OF assms(4), of q] that by auto
    then have "registered (sreg (srv w)) q" by (rule emitted_registered[OF assms(2)])
    then have "q \<in> set (List.map fst (eps (sreg (srv w))))" by (force simp: registered_def map_of_eq_None_iff)
    then have "q \<in> set ?paths" using mset_eq_setD[OF p] by simp
    then show ?thesis by simp
  qed
  ultimately show ?thesis by (intro exact_sync[OF assms(1)]) auto
qed

lemma exact_start:
  assumes "distinct (List.map Path (Endpoints c))"
  shows "exact [] (NewModel c thresholds pid [] now)"
proof -
  have "displays [] st" if "st_at p (List.map (\<lambda>e. new_state e False) (Endpoints c)) = Some st" for p st
    using st_at_path[OF that] by auto
  moreover have "distinct (List.map (\<lambda>e. st_path (new_state e False)) (Endpoints c))"
    using assms by (simp add: new_state_def)
  ultimately show ?thesis
    by (simp add: exact_def NewModel_def Let_def comp_def split: option.splits)
qed

lemma quiet_key:
  "k \<noteq> ''r'' \<Longrightarrow> k \<noteq> ''p'' \<Longrightarrow> rows (fst (handleKey k m)) = rows m \<and> paused (fst (handleKey k m)) = paused m"
  by (auto simp: handleKey_def)

lemma exact_step:
  assumes "a_step oor NewLimiter Tokens tbWait expired keys a a'" and "exact (seen a) (screen a)"
    and "flow a" and "w_inv oor NewLimiter Tokens tbWait (core a)"
    and "distinct (List.map fst (eps (sreg (srv (core a)))))" and "''r'' \<notin> keys" and "''p'' \<notin> keys"
  shows "exact (seen a') (screen a')"
  using assms(1)
proof cases
  case (tui_event ev f now r)
  have "\<not> paused (screen a)" using assms(2) by (simp add: exact_def)
  then have "screen a' = fst (handleServerEvent now r ev (screen a))" using tui_event(1)
    by (cases "handleServerEvent now r ev (screen a)") (simp add: event_msg_def)
  then show ?thesis using exact_event[OF assms(2)] tui_event(1) by simp
next
  case (tui_tick perm)
  have "subseq (seen a) (emitted (core a))" using assms(3) subseq_start by (auto simp: flow_def pipe_def)
  note t = exact_tick[where perm = perm, OF assms(2,4,5) this tui_tick(3)]
  have "\<not> paused (screen a)" using assms(2) by (simp add: exact_def)
  then have "screen a' = syncEndpoints (Some (Snapshot perm (sreg (srv (core a))))) (screen a)" "seen a' = seen a"
    by (simp_all add: tui_tick(1))
  then show ?thesis using t by simp
next
  case (tui_key k)
  then have "k \<noteq> ''r''" "k \<noteq> ''p''" using assms(6,7) by auto
  then show ?thesis using assms(2) quiet_key[of k "screen a"] tui_key(1) by (simp add: exact_def)
qed (use assms(2) in \<open>auto simp: exact_def log_msg_def Let_def\<close>)

lemma exact_reach:
  assumes "a_reach oor NewLimiter Tokens tbWait expired keys a0 a"
    and "start_interactive oor NewLimiter bind_ok now thresholds c = Ok a0"
    and "distinct (List.map Path (Endpoints c))" and "''r'' \<notin> keys" and "''p'' \<notin> keys"
  shows "exact (seen a) (screen a)"
  using assms(1)[unfolded a_reach_def]
proof (induction rule: rtranclp_induct)
  case base
  show ?case using exact_start[OF assms(3)] start_interactive_Ok[OF assms(2)] by simp
next
  case (step a a')
  have r: "a_reach oor NewLimiter Tokens tbWait expired keys a0 a" using step.hyps(1) by (simp add: a_reach_def)
  note start = start_interactive_Ok(1)[OF assms(2)]
  note core = a_reach_core[OF r]
  show ?case
    by (rule exact_step[OF step.hyps(2) step.IH flow_reach[OF r flow_start[OF assms(2)]]
          w_inv_reach[OF core w_inv_start[OF start]] keys_reach[OF w_reach_server[OF core]
            keys_start[OF start_server_Ok(1)[OF start]]] assms(4,5)])
qed

section \<open>A small run\<close>

lemma w_do_move:
  assumes "w_do oor NewLimiter Tokens tbWait x w = Some w'" and "x \<noteq> WRecv"
  shows "w_move oor NewLimiter Tokens tbWait expired w w' \<and> down (srv w') = down (srv w)"
proof
  show "w_move oor NewLimiter Tokens tbWait expired w w'" using assms by (cases x) (auto intro: w_move.intros)
  show "down (srv w') = down (srv w)"
  proof (cases x)
    case (WRun p b)
    then have "w_exec oor Tokens tbWait p b w = Some w'" using assms(1) by simp
    then show ?thesis by (rule run_effect) simp
  next
    case (WDone i)
    then have "w_done i w = Some w'" using assms(1) by simp
    then show ?thesis by (rule w_done_cases) (auto simp: s_done_def)
  qed (use assms in \<open>auto simp: s_accept_def s_route_def s_add_def split: req_phase.splits outcome.splits
        option.splits if_splits\<close>)
qed

lemma a_serve_all:
  "w_all oor NewLimiter Tokens tbWait xs (core a) = Some w \<Longrightarrow> WRecv \<notin> set xs
   \<Longrightarrow> a_reach oor NewLimiter Tokens tbWait expired keys a (a\<lparr>core := w\<rparr>)"
proof (induction xs arbitrary: a)
  case Nil
  then have "a\<lparr>core := w\<rparr> = a" by simp
  then show ?case by (simp add: a_reach_def)
next
  case (Cons x xs)
  obtain w1 where w1: "w_do oor NewLimiter Tokens tbWait x (core a) = Some w1"
    "w_all oor NewLimiter Tokens tbWait xs w1 = Some w" using Cons.prems(1) by (auto split: option.splits)
  have "x \<noteq> WRecv" using Cons.prems(2) by auto
  from w_do_move[OF w1(1) this, of expired] have
    "a_step oor NewLimiter Tokens tbWait expired keys a (a\<lparr>core := w1\<rparr>)" by (intro a_step.serve) auto
  moreover have "a_reach oor NewLimiter Tokens tbWait expired keys (a\<lparr>core := w1\<rparr>) (a\<lparr>core := w\<rparr>)"
    using Cons.IH[of "a\<lparr>core := w1\<rparr>"] w1(2) Cons.prems(2) by simp
  ultimately show ?case unfolding a_reach_def by (rule converse_rtranclp_into_rtranclp)
qed

text \<open>The two events of \<open>demo_end\<close> pass the fan-out and are shown.\<close>

definition demo_app0 :: "(float64 \<times> int) app" where
  "demo_app0 = \<lparr>core = demo_whole, rawLogs = [], evfan = Fanout2, logfan = Fanout2,
     hub_side = serve_start True (NewHub demo_config), hub_on = True,
     screen = NewModel demo_config DefaultDotThresholds 0 [] 0, seen = [], main_pc = InTui\<rparr>"

definition demo_screen :: tui_model where
  "demo_screen = fst (Update (ServerEvent 0 0 (EventServed ''/new'' 100 0))
     (fst (Update (ServerEvent 0 0 (EventQueued ''/new'' 0)) (NewModel demo_config DefaultDotThresholds 0 [] 0))))"

definition demo_at ::
  "event list \<Rightarrow> event list \<Rightarrow> event list \<Rightarrow> tui_model \<Rightarrow> event list \<Rightarrow> (float64 \<times> int) app" where
  "demo_at raw xs ys m zs = \<lparr>core = demo_end\<lparr>rawEvents := Some (256, raw)\<rparr>, rawLogs = [],
     evfan = \<lparr>out_a = xs, out_b = ys, fan_closed = False\<rparr>, logfan = Fanout2,
     hub_side = serve_start True (NewHub demo_config), hub_on = True, screen = m, seen = zs, main_pc = InTui\<rparr>"

definition demo_app :: "(float64 \<times> int) app" where
  "demo_app = demo_at [] [] (emitted demo_end) demo_screen (emitted demo_end)"

lemma demo_app_start: "start_interactive amd64 demo_bucket True 0 DefaultDotThresholds demo_config = Ok demo_app0"
  by (simp add: start_interactive_def demo_whole_New demo_app0_def)

lemma demo_fan:
  assumes "length xs < 256" and "length ys < 256"
  shows "a_step oor NewLimiter Tokens tbWait expired keys (demo_at (e # raw) xs ys m zs) (demo_at raw (xs @ [e]) (ys @ [e]) m zs)"
proof -
  let ?a = "demo_at (e # raw) xs ys m zs" and ?w = "demo_end\<lparr>rawEvents := Some (256, raw)\<rparr>"
  have "w_recv (core ?a) = Some (e, ?w)" by (simp add: demo_at_def w_recv_def sink_recv_def)
  moreover have "?a\<lparr>core := ?w, evfan := Events2 (Some e) (evfan ?a)\<rparr> = demo_at raw (xs @ [e]) (ys @ [e]) m zs"
    using assms by (simp add: demo_at_def Events2_def fan_step_def offer_def)
  ultimately show ?thesis using a_step.fan_event[of ?a e ?w] by metis
qed

lemma event_no_quit: "Quit \<notin> set (snd (Update (ServerEvent now r ev) m))"
  by (cases ev) (auto simp: handleServerEvent_def Let_def split: option.splits prod.splits)

lemma demo_show:
  "a_step oor NewLimiter Tokens tbWait expired keys (demo_at raw (e # xs) ys m zs)
     (demo_at raw xs ys (fst (Update (ServerEvent 0 0 e) m)) (zs @ [e]))"
proof -
  let ?a = "demo_at raw (e # xs) ys m zs" and ?f = "\<lparr>out_a = xs, out_b = ys, fan_closed = False\<rparr>"
  obtain m' cmds where u: "Update (ServerEvent 0 0 e) m = (m', cmds)" by (cases "Update (ServerEvent 0 0 e) m")
  have "Quit \<notin> set cmds" using event_no_quit[of 0 0 e m] unfolding u by simp
  then have "show_on (event_msg 0 0 (Some e)) (?a\<lparr>evfan := ?f, seen := seen ?a @ [e]\<rparr>)
      = demo_at raw xs ys (fst (Update (ServerEvent 0 0 e) m)) (zs @ [e])"
    using u by (simp add: show_on_def event_msg_def demo_at_def)
  moreover have "main_pc ?a = InTui" "fan_recv_a (evfan ?a) = Some (e, ?f)"
    by (simp_all add: demo_at_def fan_recv_a_def)
  ultimately show ?thesis using a_step.tui_event[of ?a e ?f _ _ _ _ _ _ 0 0] by metis
qed

lemma demo_app_reach: "a_reach amd64 demo_bucket fst (\<lambda>_ _. None) False {} demo_app0 demo_app"
proof -
  let ?R = "a_step amd64 demo_bucket fst (\<lambda>_ _. None) False {}"
  let ?q = "EventQueued ''/new'' 0" and ?s = "EventServed ''/new'' 100 0"
  let ?m = "NewModel demo_config DefaultDotThresholds 0 [] 0"
  have "demo_end\<lparr>rawEvents := Some (256, [?q, ?s])\<rparr> = demo_end" using demo_end(7) by (cases demo_end) simp
  then have "demo_app0\<lparr>core := demo_end\<rparr> = demo_at [?q, ?s] [] [] ?m []"
    by (simp add: demo_app0_def demo_at_def Fanout2_def)
  moreover have "a_reach amd64 demo_bucket fst (\<lambda>_ _. None) False {} demo_app0 (demo_app0\<lparr>core := demo_end\<rparr>)"
    by (rule a_serve_all[where xs = "demo_queueing @ demo_answering"])
      (use demo_end(1) in \<open>simp_all add: demo_app0_def demo_queueing_def demo_answering_def\<close>)
  ultimately have "?R\<^sup>*\<^sup>* demo_app0 (demo_at [?q, ?s] [] [] ?m [])" by (simp add: a_reach_def)
  also have "?R (demo_at [?q, ?s] [] [] ?m []) (demo_at [?s] [?q] [?q] ?m [])"
    using demo_fan[of "[]" "[]"] by fastforce
  also have "?R (demo_at [?s] [?q] [?q] ?m []) (demo_at [] [?q, ?s] [?q, ?s] ?m [])"
    using demo_fan[of "[?q]" "[?q]"] by fastforce
  also have "?R (demo_at [] [?q, ?s] [?q, ?s] ?m []) (demo_at [] [?s] [?q, ?s] (fst (Update (ServerEvent 0 0 ?q) ?m)) [?q])"
    using demo_show[of _ _ _ _ _ _ "[]" ?q "[?s]" "[?q, ?s]" ?m "[]"] by simp
  also have "?R (demo_at [] [?s] [?q, ?s] (fst (Update (ServerEvent 0 0 ?q) ?m)) [?q]) (demo_at [] [] [?q, ?s] demo_screen [?q, ?s])"
    using demo_show[of _ _ _ _ _ _ "[]" ?s "[]" "[?q, ?s]" _ "[?q]"] unfolding demo_screen_def by fastforce
  finally show ?thesis by (simp add: a_reach_def demo_app_def demo_end(6))
qed

lemma demo_row: "case st_at ''/new'' (rows demo_screen) of None \<Rightarrow> False | Some st \<Rightarrow> served st = 1 \<and> enqueuedAt st = []"
  by code_simp

section \<open>Properties\<close>

text \<open>
  C16. The interface never overstates: in every state of the interactive program, whatever was lost
  in full channels, paused, reset or read again from the registry, no row shows more served
  requests than its endpoint has answered with 200, nor more rejected ones than it has refused.
\<close>

theorem display_never_overstates:
  assumes "start_interactive oor NewLimiter bind_ok now thresholds c = Ok a0"
    and "a_reach oor NewLimiter Tokens tbWait expired keys a0 a" and "st \<in> set (rows (screen a))"
  shows "served st \<le> int (answered_in (core a) (st_path st)) \<and> rejected st \<le> int (refused_in (core a) (st_path st))"
proof -
  note start = start_interactive_Ok[OF assms(1)]
  have inv: "w_inv oor NewLimiter Tokens tbWait (core a)"
    by (rule w_inv_reach[OF a_reach_core[OF assms(2)] w_inv_start[OF start(1)]])
  have "subseq (pipe a) (emitted (core a))" using flow_reach[OF assms(2) flow_start[OF assms(1)]] by (simp add: flow_def)
  then have "subseq (seen a) (emitted (core a))" unfolding pipe_def by (rule subseq_start)
  then have "subseq (own (st_path st) (seen a)) (own (st_path st) (emitted (core a)))" by (rule own_subseq)
  from n_subseq[OF this] have
    "n_served (own (st_path st) (seen a)) \<le> answered_in (core a) (st_path st)"
    "n_rejected (own (st_path st) (seen a)) \<le> refused_in (core a) (st_path st)"
    using server_accounts(1,2)[OF inv, of "st_path st"] by simp_all
  moreover have "below (seen a) st" using rows_below[OF assms(2,1)] assms(3) by blast
  ultimately show ?thesis by (simp add: below_def)
qed

theorem display_never_overstates_witness:
  "\<exists>st \<in> set (rows (screen demo_app)). st_path st = ''/new'' \<and> served st = 1
    \<and> served st \<le> int (answered_in (core demo_app) ''/new'')"
proof -
  obtain st where st: "st_at ''/new'' (rows demo_screen) = Some st" "served st = 1"
    using demo_row by (auto split: option.splits)
  have s: "screen demo_app = demo_screen" by (simp add: demo_app_def demo_at_def)
  have "st \<in> set (rows (screen demo_app))" "st_path st = ''/new''" using st_at_path[OF st(1)] s by auto
  then show ?thesis using display_never_overstates[OF demo_app_start demo_app_reach] st(2) by metis
qed



end
