(* ===== verification/MainRemote.thy ===== *)
theory MainRemote
  imports MainDisplay
begin

text \<open>
  The server without an interface (the last part of \<^verbatim>\<open>main.go\<close>), and the way of the events of
  both modes over the hub and the socket to an attached process. The locale \<open>hub_feed\<close> is what
  the hub relies on: a stream of events it takes from, behind a lossy path; the two modes of
  \<open>main\<close> are its interpretations.
\<close>

section \<open>The headless program\<close>

text \<open>\<open>interrupted\<close>: the signal has come, which ends the context and starts the shutdown.\<close>

record 'tb daemon =
  d_core :: "'tb whole"
  d_logs :: "string list"
  d_side :: serve_state
  d_hub_on :: bool
  interrupted :: bool

definition start_headless ::
  "(float64 \<Rightarrow> int) \<Rightarrow> (float64 \<Rightarrow> int \<Rightarrow> 'tb) \<Rightarrow> bool \<Rightarrow> int \<Rightarrow> config \<Rightarrow> 'tb daemon outcome" where
  "start_headless oor NewLimiter bind_ok now c =
     (case start_server oor NewLimiter now c of
        Err e \<Rightarrow> Err e
      | Panic m \<Rightarrow> Panic m
      | Ok w \<Rightarrow> Ok \<lparr>d_core = w, d_logs = [], d_side = serve_start bind_ok (NewHub c), d_hub_on = True,
                    interrupted = False\<rparr>)"

text \<open>Here the hub reads the channels of the server and of the logger themselves.\<close>

inductive h_step ::
  "(float64 \<Rightarrow> int) \<Rightarrow> (float64 \<Rightarrow> int \<Rightarrow> 'tb) \<Rightarrow> ('tb \<Rightarrow> float64) \<Rightarrow> (int \<Rightarrow> 'tb \<Rightarrow> 'tb option) \<Rightarrow> bool
   \<Rightarrow> 'tb daemon \<Rightarrow> 'tb daemon \<Rightarrow> bool"
  for oor NewLimiter Tokens tbWait expired where
  d_serve: "w_move oor NewLimiter Tokens tbWait expired (d_core a) w
    \<Longrightarrow> down (srv w) = down (srv (d_core a)) \<or> interrupted a
    \<Longrightarrow> h_step oor NewLimiter Tokens tbWait expired a (a\<lparr>d_core := w\<rparr>)"
| d_log: "h_step oor NewLimiter Tokens tbWait expired a (a\<lparr>d_logs := snd (log_Write 256 text (d_logs a))\<rparr>)"
| d_event: "d_hub_on a \<Longrightarrow> w_recv (d_core a) = Some (ev, w)
    \<Longrightarrow> h_step oor NewLimiter Tokens tbWait expired a (a\<lparr>d_core := w,
          d_side := serve_step (Broadcast \<lparr>w_Type = MsgEvent, w_Data = JEvent ev\<rparr>) (d_side a)\<rparr>)"
| d_line: "d_hub_on a \<Longrightarrow> chan_recv (d_logs a) = Some (l, ls)
    \<Longrightarrow> h_step oor NewLimiter Tokens tbWait expired a (a\<lparr>d_logs := ls,
          d_side := serve_step (Broadcast \<lparr>w_Type = MsgLog, w_Data = JLog l\<rparr>) (d_side a)\<rparr>)"
| d_stop: "AttachServe.serve_state.ctx_done (d_side a)
    \<Longrightarrow> h_step oor NewLimiter Tokens tbWait expired a (a\<lparr>d_hub_on := False\<rparr>)"
| d_connect: "mset (perm (QueueDepths (sreg (srv (d_core a))))) = mset (QueueDepths (sreg (srv (d_core a))))
    \<Longrightarrow> h_step oor NewLimiter Tokens tbWait expired a
          (a\<lparr>d_side := serve_step (Accepted k (Some (state_func perm (sreg (srv (d_core a)))))) (d_side a)\<rparr>)"
| d_socket: "x \<in> {AcceptFailed, Drained} \<union> range (\<lambda>(k, y). ConnTurn k y)
    \<Longrightarrow> h_step oor NewLimiter Tokens tbWait expired a (a\<lparr>d_side := serve_step x (d_side a)\<rparr>)"
| d_interrupt: "\<not> interrupted a
    \<Longrightarrow> h_step oor NewLimiter Tokens tbWait expired a
          (a\<lparr>interrupted := True, d_side := serve_step CtxDone (d_side a)\<rparr>)"

section \<open>What a connection receives\<close>

text \<open>The events written to a connection and those still buffered for it.\<close>

definition delivered :: "nat \<Rightarrow> serve_state \<Rightarrow> event list" where
  "delivered k s = events_of (written s k) @ events_of (chans (the_hub s) k)"

fun silent :: "serve_in \<Rightarrow> bool" where
  "silent (Broadcast m) \<longleftrightarrow> w_Type m \<noteq> MsgEvent"
| "silent _ \<longleftrightarrow> True"

lemma events_of_append [simp]: "events_of (ms @ ms') = events_of ms @ events_of ms'"
  by (induction ms) auto

lemma events_of_offer:
  "events_of (offer b m ms) = events_of ms \<or> events_of (offer b m ms) = events_of ms @ events_of [m]"
  by (simp add: offer_def)

lemma events_of_greeting: "events_of (chans (Subscribe k (Some snaps) h) k) = []"
  "events_of (chans (Subscribe k None h) k) = []"
  by (simp_all add: Subscribe_def hub_put_def Let_def offer_def msg_types)

lemma Subscribe_other: "j \<noteq> k \<Longrightarrow> chans (Subscribe k st h) j = chans h j"
  by (simp add: Subscribe_def hub_put_def Let_def split: option.splits)

lemma serveConn_delivers:
  assumes "serveConn k x (h, out) = (on, h', out')"
  shows "subseq (events_of out' @ events_of (chans h' k)) (events_of out @ events_of (chans h k))"
    "j \<noteq> k \<Longrightarrow> chans h' j = chans h j"
proof -
  have "subseq (events_of out' @ events_of (chans h' k)) (events_of out @ events_of (chans h k))
    \<and> (\<forall>j. j \<noteq> k \<longrightarrow> chans h' j = chans h j)"
  proof (cases x)
    case ConnDone
    then show ?thesis using assms by (auto simp: unsub_def)
  next
    case (ConnMsg ok)
    show ?thesis
    proof (cases "hub_recv k h")
      case None
      then show ?thesis using assms ConnMsg by auto
    next
      case (Some mh)
      then obtain m rest where r: "chans h k = m # rest" "mh = (m, h\<lparr>chans := (chans h)(k := rest)\<rparr>)"
        by (auto simp: hub_recv_def)
      show ?thesis using assms ConnMsg Some r
        by (cases ok) (auto simp: unsub_def subseq_append' split: sum.splits)
    qed
  qed
  then show "subseq (events_of out' @ events_of (chans h' k)) (events_of out @ events_of (chans h k))"
    "j \<noteq> k \<Longrightarrow> chans h' j = chans h j" by blast+
qed

lemma delivered_silent:
  assumes "silent x"
  shows "subseq (delivered k (serve_step x s)) (delivered k s)"
proof (cases x)
  case (Accepted j st)
  then show ?thesis
    by (cases st; cases "j = k") (auto simp: delivered_def events_of_greeting Subscribe_other)
next
  case (ConnTurn j y)
  obtain on h out where t: "serveConn j y (the_hub s, written s j) = (on, h, out)" by (metis prod_cases3)
  show ?thesis
    using ConnTurn t serveConn_delivers(1)[OF t] serveConn_delivers(2)[OF t, of k]
    by (cases "j = k") (auto simp: delivered_def)
next
  case (Broadcast m)
  then have "events_of [m] = []" using assms by simp
  then show ?thesis using Broadcast events_of_offer[of 256 m "chans (the_hub s) k"]
    by (auto simp: delivered_def broadcast_def)
qed (auto simp: delivered_def split: serve_pc.splits)

lemma delivered_event:
  "subseq (delivered k (serve_step (Broadcast \<lparr>w_Type = MsgEvent, w_Data = JEvent ev\<rparr>) s)) (delivered k s @ [ev])"
  using events_of_offer[of 256 "\<lparr>w_Type = MsgEvent, w_Data = JEvent ev\<rparr>" "chans (the_hub s) k"]
  by (auto simp: delivered_def broadcast_def msg_types intro: list_emb_append_mono list_emb_append2)

section \<open>The feed of the hub\<close>

locale hub_feed =
  fixes step :: "'s \<Rightarrow> 's \<Rightarrow> bool"
    and upstream :: "'s \<Rightarrow> event list"
    and side :: "'s \<Rightarrow> serve_state"
    and history :: "'s \<Rightarrow> event list"
  assumes feed_step: "step s s' \<Longrightarrow>
      (side s' = side s \<and> (\<exists>es. history s' = history s @ es \<and> subseq (upstream s') (upstream s @ es)))
      \<or> (\<exists>ev. upstream s = ev # upstream s' \<and> history s' = history s
           \<and> side s' = serve_step (Broadcast \<lparr>w_Type = MsgEvent, w_Data = JEvent ev\<rparr>) (side s))
      \<or> (\<exists>x. silent x \<and> upstream s' = upstream s \<and> history s' = history s \<and> side s' = serve_step x (side s))"
begin

definition in_order :: "nat \<Rightarrow> 's \<Rightarrow> bool" where
  "in_order k s \<longleftrightarrow> subseq (delivered k (side s) @ upstream s) (history s)"

lemma in_order_step:
  assumes "step s s'" and "in_order k s"
  shows "in_order k s'"
  using feed_step[OF assms(1)]
proof (elim disjE exE conjE)
  fix es assume a: "side s' = side s" "history s' = history s @ es" "subseq (upstream s') (upstream s @ es)"
  have "subseq (delivered k (side s) @ upstream s') ((delivered k (side s) @ upstream s) @ es)"
    using a(3) by (simp add: subseq_append')
  moreover have "subseq ((delivered k (side s) @ upstream s) @ es) (history s @ es)"
    using assms(2) unfolding in_order_def by (intro list_emb_append_mono) auto
  ultimately show ?thesis unfolding in_order_def a(1,2) by (rule subseq_order.trans)
next
  fix ev assume a: "upstream s = ev # upstream s'" "history s' = history s"
    "side s' = serve_step (Broadcast \<lparr>w_Type = MsgEvent, w_Data = JEvent ev\<rparr>) (side s)"
  have "subseq (delivered k (side s') @ upstream s') ((delivered k (side s) @ [ev]) @ upstream s')"
    unfolding a(3) by (intro list_emb_append_mono delivered_event) simp
  then show ?thesis using assms(2) unfolding in_order_def a(1,2) by (auto intro: subseq_order.trans)
next
  fix x assume a: "silent x" "upstream s' = upstream s" "history s' = history s" "side s' = serve_step x (side s)"
  have "subseq (delivered k (side s') @ upstream s) (delivered k (side s) @ upstream s)"
    unfolding a(4) by (intro list_emb_append_mono delivered_silent[OF a(1)]) simp
  from subseq_order.trans[OF this] show ?thesis using assms(2) unfolding in_order_def a(2,3) by blast
qed

lemma in_order_reach: "step\<^sup>*\<^sup>* s0 s \<Longrightarrow> in_order k s0 \<Longrightarrow> in_order k s"
  by (induction rule: rtranclp_induct) (auto intro: in_order_step)

text \<open>What was written to a connection is a part of the history, in order.\<close>

lemma written_in_order:
  assumes "step\<^sup>*\<^sup>* s0 s" and "delivered k (side s0) = []" and "upstream s0 = []"
  shows "subseq (events_of (written (side s) k)) (history s)"
proof -
  have "in_order k s" by (rule in_order_reach[OF assms(1)]) (simp add: in_order_def assms(2,3))
  then show ?thesis unfolding in_order_def delivered_def using subseq_start by (metis append.assoc)
qed

end

lemma w_move_room:
  assumes "w_move oor NewLimiter Tokens tbWait expired w w'"
  shows "\<exists>es. emitted w' = emitted w @ es \<and> subseq (sink_events (rawEvents w')) (sink_events (rawEvents w) @ es)"
proof -
  obtain es where es: "emitted w' = emitted w @ es" "rawEvents w' = fold emit es (rawEvents w)"
    using w_move_emits[OF assms] by blast
  have "subseq (sink_events (fold emit es sk)) (sink_events sk @ es)" for sk
  proof (cases sk)
    case None
    have "fold emit es None = None" by (induction es) auto
    then show ?thesis by (simp add: None sink_events_def)
  next
    case (Some bx)
    then show ?thesis using fold_emit_subseq[of es "fst bx" "snd bx"]
      by (cases bx) (auto simp: sink_events_def subseq_append')
  qed
  then show ?thesis using es by metis
qed

lemma w_recv_sink: "w_recv w = Some (ev, w') \<Longrightarrow> sink_events (rawEvents w) = ev # sink_events (rawEvents w') \<and> emitted w' = emitted w"
  by (auto simp: w_recv_def sink_recv_def sink_events_def split: option.splits)

text \<open>Between the server and the hub the interactive program has the fan-out, the other has nothing.\<close>

definition a_upstream :: "'tb app \<Rightarrow> event list" where
  "a_upstream a = out_b (evfan a) @ sink_events (rawEvents (core a))"

definition d_upstream :: "'tb daemon \<Rightarrow> event list" where
  "d_upstream a = sink_events (rawEvents (d_core a))"

interpretation tui_feed: hub_feed "a_step oor NewLimiter Tokens tbWait expired keys" a_upstream hub_side "\<lambda>a. emitted (core a)"
  for oor NewLimiter Tokens tbWait expired keys
proof
  fix a a' assume "a_step oor NewLimiter Tokens tbWait expired keys a a'"
  then show "(hub_side a' = hub_side a \<and> (\<exists>es. emitted (core a') = emitted (core a) @ es \<and> subseq (a_upstream a') (a_upstream a @ es)))
      \<or> (\<exists>ev. a_upstream a = ev # a_upstream a' \<and> emitted (core a') = emitted (core a)
           \<and> hub_side a' = serve_step (Broadcast \<lparr>w_Type = MsgEvent, w_Data = JEvent ev\<rparr>) (hub_side a))
      \<or> (\<exists>x. silent x \<and> a_upstream a' = a_upstream a \<and> emitted (core a') = emitted (core a) \<and> hub_side a' = serve_step x (hub_side a))"
    (is "?A \<or> ?B \<or> ?C")
  proof cases
    case (serve w)
    then show ?thesis using w_move_room[OF serve(2)] by (auto simp: a_upstream_def subseq_append')
  next
    case (fan_event ev w)
    have "subseq (offer 256 ev (out_b (evfan a)) @ sink_events (rawEvents w)) (out_b (evfan a) @ ev # sink_events (rawEvents w))"
      by (auto simp: offer_def subseq_append' intro: list_emb_Cons)
    then have ?A using w_recv_sink[OF fan_event(2)]
      by (auto simp: fan_event(1) a_upstream_def Events2_def fan_step_def subseq_append')
    then show ?thesis ..
  next
    case (tui_event ev f now r)
    then show ?thesis by (auto simp: a_upstream_def fan_recv_a_def)
  next
    case (hub_event ev f)
    then have ?B using fan_recv_simps(2)[OF hub_event(3)] by (auto simp: a_upstream_def)
    then show ?thesis by blast
  next
    case (hub_log l f)
    then have ?C by (intro exI[of _ "Broadcast \<lparr>w_Type = MsgLog, w_Data = JLog l\<rparr>"]) (simp add: a_upstream_def msg_types)
    then show ?thesis by blast
  next
    case (connect perm k)
    then have ?C by (intro exI[of _ "Accepted k (Some (state_func perm (sreg (srv (core a)))))"]) (simp add: a_upstream_def)
    then show ?thesis by blast
  next
    case (socket x)
    then have ?C by (intro exI[of _ x]) (auto simp: a_upstream_def)
    then show ?thesis by blast
  next
    case cancel
    then have ?C by (intro exI[of _ CtxDone]) (simp add: a_upstream_def)
    then show ?thesis by blast
  qed (auto simp: a_upstream_def)
qed

interpretation headless_feed: hub_feed "h_step oor NewLimiter Tokens tbWait expired" d_upstream d_side "\<lambda>a. emitted (d_core a)"
  for oor NewLimiter Tokens tbWait expired
proof
  fix a a' assume "h_step oor NewLimiter Tokens tbWait expired a a'"
  then show "(d_side a' = d_side a \<and> (\<exists>es. emitted (d_core a') = emitted (d_core a) @ es \<and> subseq (d_upstream a') (d_upstream a @ es)))
      \<or> (\<exists>ev. d_upstream a = ev # d_upstream a' \<and> emitted (d_core a') = emitted (d_core a)
           \<and> d_side a' = serve_step (Broadcast \<lparr>w_Type = MsgEvent, w_Data = JEvent ev\<rparr>) (d_side a))
      \<or> (\<exists>x. silent x \<and> d_upstream a' = d_upstream a \<and> emitted (d_core a') = emitted (d_core a) \<and> d_side a' = serve_step x (d_side a))"
    (is "?A \<or> ?B \<or> ?C")
  proof cases
    case (d_serve w)
    then show ?thesis using w_move_room[OF d_serve(2)] by (auto simp: d_upstream_def)
  next
    case (d_event ev w)
    then have ?B using w_recv_sink[OF d_event(3)] by (simp add: d_upstream_def)
    then show ?thesis by blast
  next
    case (d_line l ls)
    then have ?C by (intro exI[of _ "Broadcast \<lparr>w_Type = MsgLog, w_Data = JLog l\<rparr>"]) (simp add: d_upstream_def msg_types)
    then show ?thesis by blast
  next
    case (d_connect perm k)
    then have ?C by (intro exI[of _ "Accepted k (Some (state_func perm (sreg (srv (d_core a)))))"]) (simp add: d_upstream_def)
    then show ?thesis by blast
  next
    case (d_socket x)
    then have ?C by (intro exI[of _ x]) (auto simp: d_upstream_def)
    then show ?thesis by blast
  next
    case d_interrupt
    then have ?C by (intro exI[of _ CtxDone]) (simp add: d_upstream_def)
    then show ?thesis by blast
  qed (auto simp: d_upstream_def)
qed

section \<open>The attached process\<close>

text \<open>
  After \<open>attach_mode\<close> has decided for the interface: the reader goes through what is left of the
  connection, the interface takes events and lines from the two channels of the client.
\<close>

record remote =
  unread :: "scan_item list"
  cl :: client
  r_screen :: tui_model
  r_seen :: "event list"

definition start_remote :: "tui_model \<Rightarrow> scan_item list \<Rightarrow> remote" where
  "start_remote m rest = \<lparr>unread = scanned rest, cl = client0, r_screen = m, r_seen = []\<rparr>"

datatype r_op = RRead | REnd | REvent int nat | RLog | RClosed | RTick | RKey string | RResize int int

definition r_show :: "tui_msg \<Rightarrow> remote \<Rightarrow> remote" where
  "r_show msg r = r\<lparr>r_screen := fst (Update msg (r_screen r))\<rparr>"

text \<open>
  At the end of the connection the reader closes both channels, and a closed channel that is empty
  tells the interface so. The attached interface has no registry: its ticks change nothing.
\<close>

fun r_do :: "r_op \<Rightarrow> remote \<Rightarrow> remote" where
  "r_do RRead r =
     (case unread r of [] \<Rightarrow> r | x # xs \<Rightarrow> r\<lparr>unread := xs, cl := cl_step x (cl r)\<rparr>)"
| "r_do REnd r = (if unread r = [] then r\<lparr>cl := cl_end (cl r)\<rparr> else r)"
| "r_do (REvent now n) r =
     (case chan_recv (events (cl r)) of
        None \<Rightarrow> r
      | Some (ev, es) \<Rightarrow>
          r_show (event_msg now n (Some ev)) (r\<lparr>cl := (cl r)\<lparr>events := es\<rparr>, r_seen := r_seen r @ [ev]\<rparr>))"
| "r_do RLog r =
     (case chan_recv (logs (cl r)) of
        None \<Rightarrow> r
      | Some (l, ls) \<Rightarrow> r_show (log_msg (Some l)) (r\<lparr>cl := (cl r)\<lparr>logs := ls\<rparr>\<rparr>))"
| "r_do RClosed r =
     (if cl_closed (cl r) \<and> (events (cl r) = [] \<or> logs (cl r) = []) then r_show DisconnectedMsg r else r)"
| "r_do RTick r = r_show (TickMsg None) r"
| "r_do (RKey k) r = r_show (KeyPress k) r"
| "r_do (RResize x y) r = r_show (WindowSize x y) r"

definition r_run :: "r_op list \<Rightarrow> remote \<Rightarrow> remote" where
  "r_run ops r = fold r_do ops r"

fun item_events :: "scan_item list \<Rightarrow> event list" where
  "item_events [] = []"
| "item_events (Line m # xs) = events_of [m] @ item_events xs"
| "item_events (x # xs) = item_events xs"

lemma item_events_lines [simp]: "item_events (List.map Line ms) = events_of ms"
  by (induction ms) auto

lemma item_events_scanned: "subseq (item_events (scanned xs)) (item_events xs)"
proof (induction xs)
  case (Cons x xs)
  then show ?case by (cases x) (auto simp: subseq_append' simp del: events_of.simps)
qed simp

lemma cl_step_events:
  "events (cl_step x c) = events c \<or> events (cl_step x c) = events c @ item_events [x]"
  by (cases x) (auto simp: cl_msg_def Let_def offer_def msg_types split: sum.splits)

text \<open>What is shown, buffered or still to be read is a part of what was sent, in order.\<close>

definition r_pipe :: "remote \<Rightarrow> event list" where
  "r_pipe r = r_seen r @ events (cl r) @ item_events (unread r)"

lemma item_events_Cons: "item_events (x # xs) = item_events [x] @ item_events xs"
  by (cases x) auto

lemma r_do_pipe: "subseq (r_pipe (r_do op r)) (r_pipe r)"
proof (cases op)
  case RRead
  show ?thesis
  proof (cases "unread r")
    case (Cons x xs)
    have "subseq (events (cl_step x (cl r)) @ item_events xs) (events (cl r) @ item_events [x] @ item_events xs)"
      using cl_step_events[of x "cl r"] by (auto simp: subseq_append' intro: list_emb_append2)
    then show ?thesis using RRead Cons item_events_Cons[of x xs] by (simp add: r_pipe_def subseq_append')
  qed (simp add: RRead)
next
  case (REvent now n)
  then show ?thesis by (cases "events (cl r)") (auto simp: r_pipe_def r_show_def)
next
  case RLog
  then show ?thesis by (cases "logs (cl r)") (auto simp: r_pipe_def r_show_def)
qed (auto simp: r_pipe_def r_show_def cl_end_def)

lemma r_do_below:
  assumes "\<forall>st \<in> set (rows (r_screen r)). below (r_seen r) st"
  shows "\<forall>st \<in> set (rows (r_screen (r_do op r))). below (r_seen (r_do op r)) st"
proof (cases op)
  case RRead
  then show ?thesis using assms by (auto split: list.splits)
next
  case (REvent now n)
  show ?thesis
  proof (cases "events (cl r)")
    case (Cons ev es)
    then show ?thesis using REvent Update_below[OF assms, of "ServerEvent now n ev"]
      by (simp add: r_show_def event_msg_def taken_def)
  qed (use REvent assms in simp)
next
  case RLog
  show ?thesis
  proof (cases "logs (cl r)")
    case (Cons l ls)
    then show ?thesis using RLog Update_below[OF assms, of "LogLine l"]
      by (simp add: r_show_def log_msg_def taken_def del: Update.simps)
  qed (use RLog assms in simp)
next
  case RTick
  then show ?thesis using Update_below[OF assms, of "TickMsg None"] by (simp add: r_show_def taken_def del: Update.simps)
next
  case RClosed
  then show ?thesis using assms Update_below[OF assms, of DisconnectedMsg] by (simp add: r_show_def taken_def del: Update.simps)
next
  case REnd
  then show ?thesis using assms by simp
next
  case (RKey k)
  then show ?thesis using Update_below[OF assms, of "KeyPress k"] by (simp add: r_show_def taken_def del: Update.simps)
next
  case (RResize x y)
  then show ?thesis using Update_below[OF assms, of "WindowSize x y"] by (simp add: r_show_def taken_def del: Update.simps)
qed

lemma r_run_facts:
  assumes "\<forall>st \<in> set (rows (r_screen r)). below (r_seen r) st"
  shows "subseq (r_pipe (r_run ops r)) (r_pipe r) \<and> (\<forall>st \<in> set (rows (r_screen (r_run ops r))). below (r_seen (r_run ops r)) st)"
  using assms unfolding r_run_def
proof (induction ops arbitrary: r)
  case (Cons op ops)
  note ih = Cons.IH[OF r_do_below[OF Cons.prems, of op]]
  have "subseq (r_pipe (fold r_do ops (r_do op r))) (r_pipe r)"
    by (rule subseq_order.trans[OF conjunct1[OF ih] r_do_pipe])
  then show ?case using ih by simp
qed simp

lemma seed_row_same:
  "st \<in> set (seed_row now x sts) \<Longrightarrow>
     \<exists>st0 \<in> set sts. st_cfg st = st_cfg st0 \<and> served st = served st0 \<and> rejected st = rejected st0"
  by (induction sts) (auto split: if_splits)

lemma seeded_same:
  "st \<in> set (fold (seed_row now) snaps sts) \<Longrightarrow>
     \<exists>st0 \<in> set sts. st_cfg st = st_cfg st0 \<and> served st = served st0 \<and> rejected st = rejected st0"
proof (induction snaps arbitrary: sts)
  case (Cons x snaps)
  obtain st1 where st1: "st1 \<in> set (seed_row now x sts)" "st_cfg st = st_cfg st1" "served st = served st1"
    "rejected st = rejected st1" using Cons.IH[of "seed_row now x sts"] Cons.prems by auto
  show ?case using seed_row_same[OF st1(1)] st1(2-4) by simp
qed auto

lemma seeded_below:
  assumes "\<forall>st \<in> set sts. below S st"
  shows "\<forall>st \<in> set (fold (seed_row now) snaps sts). below S st"
proof
  fix st assume "st \<in> set (fold (seed_row now) snaps sts)"
  from seeded_same[OF this] obtain st0 where st0: "st0 \<in> set sts" "st_cfg st = st_cfg st0"
    "served st = served st0" "rejected st = rejected st0" by blast
  have "below S st0" using assms st0(1) by blast
  then show "below S st" using st0(2-4) by (simp add: below_def)
qed

lemma attach_mode_Tui:
  assumes "attach_mode dial now f = AttachTui m rest"
  shows "\<exists>c thresholds snaps. ConnectAddr (dial (SocketPath (attachPID f))) = Inr (c, rest)
    \<and> m = NewModel c thresholds (attachPID f) snaps now"
proof (cases "ConnectAddr (dial (SocketPath (attachPID f)))")
  case (Inl e)
  then show ?thesis using assms by (simp add: attach_mode_def)
next
  case (Inr cr)
  then show ?thesis using assms by (cases cr; cases "interactive f") (auto simp: attach_mode_def Let_def)
qed

lemma attached_below:
  assumes "attach_mode dial now f = AttachTui m rest"
  shows "\<forall>st \<in> set (rows m). below S st"
proof -
  obtain c thresholds snaps where m: "m = NewModel c thresholds (attachPID f) snaps now"
    using attach_mode_Tui[OF assms] by blast
  have "\<forall>st \<in> set (fold (seed_row now) snaps (List.map (\<lambda>e. new_state e False) (Endpoints c))). below S st"
    by (rule seeded_below) simp
  then show ?thesis by (simp add: m NewModel_def Let_def)
qed

lemma ConnectAddr_rest:
  assumes "ConnectAddr (Some items) = Inr (c, rest)"
  shows "\<exists>x. scanned items = x # rest"
proof (cases "scanned items")
  case Nil
  then show ?thesis using assms by (simp add: ConnectAddr_def)
next
  case (Cons x xs)
  show ?thesis
  proof (cases x)
    case (Line m)
    then show ?thesis using assms Cons
      by (cases "as_config (w_Data m)") (auto simp: ConnectAddr_def split: if_splits)
  qed (use assms Cons in \<open>simp_all add: ConnectAddr_def\<close>)
qed

lemma attached_rest:
  assumes "attach_mode dial now f = AttachTui m rest" and "dial (SocketPath (attachPID f)) = Some items"
  shows "subseq (item_events (scanned rest)) (item_events items)"
proof -
  obtain c where "ConnectAddr (Some items) = Inr (c, rest)"
    using attach_mode_Tui[OF assms(1)] assms(2) by auto
  then obtain x where x: "scanned items = x # rest" using ConnectAddr_rest by blast
  have "subseq (item_events rest) (item_events (x # rest))"
    unfolding item_events_Cons[of x rest] by (rule list_emb_append2) simp
  then have "subseq (item_events rest) (item_events items)"
    using item_events_scanned[of items] unfolding x by (rule subseq_order.trans)
  with item_events_scanned[of rest] show ?thesis by (rule subseq_order.trans)
qed

section \<open>Both modes\<close>

lemma hub_start_empty [simp]: "delivered k (serve_start b (NewHub c)) = []"
  by (simp add: delivered_def serve_start_def NewHub_def)

lemma interactive_written:
  assumes "start_interactive oor NewLimiter bind_ok now thresholds c = Ok a0"
    and "a_reach oor NewLimiter Tokens tbWait expired keys a0 a"
  shows "subseq (events_of (written (hub_side a) k)) (emitted (core a))"
proof (rule tui_feed.written_in_order)
  show "(a_step oor NewLimiter Tokens tbWait expired keys)\<^sup>*\<^sup>* a0 a" using assms(2) by (simp add: a_reach_def)
  show "delivered k (hub_side a0) = []" "a_upstream a0 = []"
    using start_interactive_Ok[OF assms(1)] start_server_Ok(3)[OF start_interactive_Ok(1)[OF assms(1)]]
    by (simp_all add: a_upstream_def Fanout2_def sink_events_def)
qed

lemma start_headless_Ok:
  assumes "start_headless oor NewLimiter bind_ok now c = Ok a"
  shows "start_server oor NewLimiter now c = Ok (d_core a)" "d_side a = serve_start bind_ok (NewHub c)"
  using assms by (auto simp: start_headless_def split: outcome.splits)

lemma headless_written:
  assumes "start_headless oor NewLimiter bind_ok now c = Ok a0"
    and "(h_step oor NewLimiter Tokens tbWait expired)\<^sup>*\<^sup>* a0 a"
  shows "subseq (events_of (written (d_side a) k)) (emitted (d_core a))"
  by (rule headless_feed.written_in_order[OF assms(2)])
    (use start_headless_Ok[OF assms(1)] start_server_Ok(3)[OF start_headless_Ok(1)[OF assms(1)]] in
      \<open>simp_all add: d_upstream_def sink_events_def\<close>)

lemma h_step_core:
  assumes "h_step oor NewLimiter Tokens tbWait expired a a'"
  shows "w_reach oor NewLimiter Tokens tbWait expired (d_core a) (d_core a')"
  using assms
proof cases
  case (d_serve w)
  then show ?thesis by (auto simp: w_reach_def w_step_def)
next
  case (d_event ev w)
  then show ?thesis by (auto simp: w_reach_def w_step_def)
qed (auto simp: w_reach_def)

lemma h_reach_core:
  "(h_step oor NewLimiter Tokens tbWait expired)\<^sup>*\<^sup>* a a' \<Longrightarrow> w_reach oor NewLimiter Tokens tbWait expired (d_core a) (d_core a')"
  by (induction rule: rtranclp_induct) (auto simp: w_reach_def dest!: h_step_core intro: rtranclp_trans)

text \<open>A remote row against the server whose socket it was fed from.\<close>

lemma remote_bound:
  assumes "w_inv oor NewLimiter Tokens tbWait w" and "subseq (events_of (take n ms)) (emitted w)"
    and "attach_mode dial now f = AttachTui m rest"
    and "dial (SocketPath (attachPID f)) = Some (List.map Line (take n ms))"
    and "st \<in> set (rows (r_screen (r_run ops (start_remote m rest))))"
  shows "served st \<le> int (answered_in w (st_path st)) \<and> rejected st \<le> int (refused_in w (st_path st))"
proof -
  let ?s = "start_remote m rest" and ?r = "r_run ops (start_remote m rest)"
  have "\<forall>st \<in> set (rows (r_screen ?s)). below (r_seen ?s) st"
    using attached_below[OF assms(3)] by (simp add: start_remote_def)
  note f = r_run_facts[OF this, of ops]
  have "subseq (r_pipe ?r) (item_events (scanned rest))"
    using f by (simp add: r_pipe_def start_remote_def client0_def)
  then have "subseq (r_seen ?r) (item_events (scanned rest))" unfolding r_pipe_def by (rule subseq_start)
  moreover have "subseq (item_events (scanned rest)) (events_of (take n ms))"
    using attached_rest[OF assms(3,4)] by simp
  ultimately have "subseq (r_seen ?r) (emitted w)" using assms(2) by (metis subseq_order.trans)
  from n_subseq[OF own_subseq[OF this]] have
    "n_served (own (st_path st) (r_seen ?r)) \<le> answered_in w (st_path st)"
    "n_rejected (own (st_path st) (r_seen ?r)) \<le> refused_in w (st_path st)"
    using server_accounts(1,2)[OF assms(1), of "st_path st"] by simp_all
  moreover have "below (r_seen ?r) st" using f assms(5) by blast
  ultimately show ?thesis by (simp add: below_def)
qed

lemma events_of_take: "subseq (events_of (take n ms)) (events_of ms)"
proof -
  have "events_of ms = events_of (take n ms) @ events_of (drop n ms)"
    using events_of_append[of "take n ms" "drop n ms"] by simp
  then show ?thesis by (metis subseq_start subseq_order.refl)
qed

section \<open>Properties\<close>

text \<open>
  C8. Attached interfaces never overstate either: whichever mode the server runs in, a process
  that attaches to its socket and has read any part of its connection shows for no endpoint more
  served or rejected requests than the server has answered with 200 or refused there, whatever
  was lost on the way through the channels, the hub, the connection and its own buffers, and
  whatever keys were pressed.
\<close>

theorem attached_never_overstates:
  assumes "attach_mode dial now f = AttachTui m rest"
    and "dial (SocketPath (attachPID f)) = Some (List.map Line (take n ms))"
    and "st \<in> set (rows (r_screen (r_run ops (start_remote m rest))))"
    and "(\<exists>a0 a. start_interactive oor NewLimiter bind_ok t thresholds c = Ok a0
            \<and> a_reach oor NewLimiter Tokens tbWait expired keys a0 a \<and> ms = written (hub_side a) k \<and> w = core a)
       \<or> (\<exists>a0 a. start_headless oor NewLimiter bind_ok t c = Ok a0
            \<and> (h_step oor NewLimiter Tokens tbWait expired)\<^sup>*\<^sup>* a0 a \<and> ms = written (d_side a) k \<and> w = d_core a)"
  shows "served st \<le> int (answered_in w (st_path st)) \<and> rejected st \<le> int (refused_in w (st_path st))"
  using assms(4)
proof (elim disjE exE conjE)
  fix a0 a assume a: "start_interactive oor NewLimiter bind_ok t thresholds c = Ok a0"
    "a_reach oor NewLimiter Tokens tbWait expired keys a0 a" "ms = written (hub_side a) k" "w = core a"
  have "w_inv oor NewLimiter Tokens tbWait w"
    unfolding a(4) by (rule w_inv_reach[OF a_reach_core[OF a(2)] w_inv_start[OF start_interactive_Ok(1)[OF a(1)]]])
  moreover have "subseq (events_of (take n ms)) (emitted w)"
    unfolding a(3,4) by (rule subseq_order.trans[OF events_of_take interactive_written[OF a(1,2)]])
  ultimately show ?thesis by (rule remote_bound[OF _ _ assms(1-3)])
next
  fix a0 a assume a: "start_headless oor NewLimiter bind_ok t c = Ok a0"
    "(h_step oor NewLimiter Tokens tbWait expired)\<^sup>*\<^sup>* a0 a" "ms = written (d_side a) k" "w = d_core a"
  have "w_inv oor NewLimiter Tokens tbWait w"
    unfolding a(4) by (rule w_inv_reach[OF h_reach_core[OF a(2)] w_inv_start[OF start_headless_Ok(1)[OF a(1)]]])
  moreover have "subseq (events_of (take n ms)) (emitted w)"
    unfolding a(3,4) by (rule subseq_order.trans[OF events_of_take headless_written[OF a(1,2)]])
  ultimately show ?thesis by (rule remote_bound[OF _ _ assms(1-3)])
qed

text \<open>A subscriber that connects before the request of \<open>demo_end\<close>, and what its process shows.\<close>

definition demo_side :: "serve_in list \<Rightarrow> serve_state" where
  "demo_side xs = serve_run (Accepted 1 (Some (state_func id (sreg demo_srv))) # xs) (serve_start True (NewHub demo_config))"

definition demo_daemon :: "(float64 \<times> int) whole \<Rightarrow> serve_in list \<Rightarrow> (float64 \<times> int) daemon" where
  "demo_daemon w xs = \<lparr>d_core = w, d_logs = [], d_side = demo_side xs, d_hub_on = True, interrupted = False\<rparr>"

definition demo_broadcast :: "event \<Rightarrow> serve_in" where
  "demo_broadcast ev = Broadcast \<lparr>w_Type = MsgEvent, w_Data = JEvent ev\<rparr>"

definition demo_turns :: "serve_in list" where
  "demo_turns = [demo_broadcast (EventQueued ''/new'' 0), demo_broadcast (EventServed ''/new'' 100 0)]
     @ replicate 4 (ConnTurn 1 (ConnMsg True))"

lemma demo_side_snoc: "demo_side (xs @ [x]) = serve_step x (demo_side xs)"
  by (simp add: demo_side_def serve_run_def)

lemma demo_turn:
  "h_step oor NewLimiter Tokens tbWait expired (demo_daemon w xs) (demo_daemon w (xs @ [ConnTurn k y]))"
proof -
  have "demo_daemon w (xs @ [ConnTurn k y]) = (demo_daemon w xs)\<lparr>d_side := serve_step (ConnTurn k y) (d_side (demo_daemon w xs))\<rparr>"
    by (simp add: demo_daemon_def demo_side_snoc)
  moreover have "ConnTurn k y \<in> {AcceptFailed, Drained} \<union> range (\<lambda>(k, y). ConnTurn k y)" by (simp add: image_iff)
  ultimately show ?thesis using h_step.d_socket by metis
qed

lemma demo_pass:
  "h_step oor NewLimiter Tokens tbWait expired (demo_daemon (demo_end\<lparr>rawEvents := Some (256, ev # es)\<rparr>) xs)
     (demo_daemon (demo_end\<lparr>rawEvents := Some (256, es)\<rparr>) (xs @ [demo_broadcast ev]))"
proof -
  let ?a = "demo_daemon (demo_end\<lparr>rawEvents := Some (256, ev # es)\<rparr>) xs" and ?w = "demo_end\<lparr>rawEvents := Some (256, es)\<rparr>"
  have "d_hub_on ?a" "w_recv (d_core ?a) = Some (ev, ?w)"
    by (simp_all add: demo_daemon_def w_recv_def sink_recv_def)
  moreover have "demo_daemon ?w (xs @ [demo_broadcast ev]) = ?a\<lparr>d_core := ?w,
      d_side := serve_step (Broadcast \<lparr>w_Type = MsgEvent, w_Data = JEvent ev\<rparr>) (d_side ?a)\<rparr>"
    by (simp add: demo_daemon_def demo_side_snoc demo_broadcast_def)
  ultimately show ?thesis using h_step.d_event by metis
qed

lemma h_serve_all:
  "w_all oor NewLimiter Tokens tbWait as (d_core a) = Some w \<Longrightarrow> WRecv \<notin> set as
   \<Longrightarrow> (h_step oor NewLimiter Tokens tbWait expired)\<^sup>*\<^sup>* a (a\<lparr>d_core := w\<rparr>)"
proof (induction as arbitrary: a)
  case Nil
  then have "a\<lparr>d_core := w\<rparr> = a" by simp
  then show ?case by simp
next
  case (Cons x as)
  obtain w1 where w1: "w_do oor NewLimiter Tokens tbWait x (d_core a) = Some w1"
    "w_all oor NewLimiter Tokens tbWait as w1 = Some w" using Cons.prems(1) by (auto split: option.splits)
  have "x \<noteq> WRecv" using Cons.prems(2) by auto
  from w_do_move[OF w1(1) this, of expired] have
    "h_step oor NewLimiter Tokens tbWait expired a (a\<lparr>d_core := w1\<rparr>)" by (intro h_step.d_serve) auto
  moreover have "(h_step oor NewLimiter Tokens tbWait expired)\<^sup>*\<^sup>* (a\<lparr>d_core := w1\<rparr>) (a\<lparr>d_core := w\<rparr>)"
    using Cons.IH[of "a\<lparr>d_core := w1\<rparr>"] w1(2) Cons.prems(2) by simp
  ultimately show ?case by (rule converse_rtranclp_into_rtranclp)
qed

definition demo_headless :: "(float64 \<times> int) daemon" where
  "demo_headless = demo_daemon (demo_end\<lparr>rawEvents := Some (256, [])\<rparr>) demo_turns"

lemma demo_headless_reach:
  "\<exists>a0. start_headless amd64 demo_bucket True 0 demo_config = Ok a0
     \<and> (h_step amd64 demo_bucket fst (\<lambda>_ _. None) False)\<^sup>*\<^sup>* a0 demo_headless"
proof -
  let ?R = "h_step amd64 demo_bucket fst (\<lambda>_ _. None) False"
  let ?q = "EventQueued ''/new'' 0" and ?s = "EventServed ''/new'' 100 0" and ?t = "ConnTurn 1 (ConnMsg True)"
  let ?a0 = "\<lparr>d_core = demo_whole, d_logs = [], d_side = serve_start True (NewHub demo_config), d_hub_on = True, interrupted = False\<rparr>"
  let ?e = "demo_end\<lparr>rawEvents := Some (256, [])\<rparr>"
  have start: "start_headless amd64 demo_bucket True 0 demo_config = Ok ?a0"
    by (simp add: start_headless_def demo_whole_New)
  have "demo_daemon demo_whole [] = ?a0\<lparr>d_side := serve_step (Accepted 1 (Some (state_func id (sreg (srv (d_core ?a0)))))) (d_side ?a0)\<rparr>"
    by (simp add: demo_daemon_def demo_side_def serve_run_def demo_whole_def)
  then have "?R ?a0 (demo_daemon demo_whole [])" by (metis h_step.d_connect id_apply)
  then have r0: "?R\<^sup>*\<^sup>* ?a0 (demo_daemon demo_whole [])" ..
  have s: "?R\<^sup>*\<^sup>* (demo_daemon demo_whole []) ((demo_daemon demo_whole [])\<lparr>d_core := demo_end\<rparr>)"
    by (rule h_serve_all[where as = "demo_queueing @ demo_answering"])
      (use demo_end(1) in \<open>simp_all add: demo_daemon_def demo_queueing_def demo_answering_def\<close>)
  have eq: "(demo_daemon demo_whole [])\<lparr>d_core := demo_end\<rparr> = demo_daemon (demo_end\<lparr>rawEvents := Some (256, [?q, ?s])\<rparr>) []"
    using demo_end(7) by (cases demo_end) (simp add: demo_daemon_def)
  note r1 = rtranclp_trans[OF r0 s, unfolded eq]
  note r2 = rtranclp.rtrancl_into_rtrancl[OF r1 demo_pass]
  note r3 = rtranclp.rtrancl_into_rtrancl[OF r2 demo_pass]
  note r4 = rtranclp.rtrancl_into_rtrancl[OF r3 demo_turn[of _ _ _ _ _ _ _ 1 "ConnMsg True"]]
  note r5 = rtranclp.rtrancl_into_rtrancl[OF r4 demo_turn[of _ _ _ _ _ _ _ 1 "ConnMsg True"]]
  note r6 = rtranclp.rtrancl_into_rtrancl[OF r5 demo_turn[of _ _ _ _ _ _ _ 1 "ConnMsg True"]]
  note r7 = rtranclp.rtrancl_into_rtrancl[OF r6 demo_turn[of _ _ _ _ _ _ _ 1 "ConnMsg True"]]
  have "(([] @ [demo_broadcast ?q]) @ [demo_broadcast ?s]) @ [?t] @ [?t] @ [?t] @ [?t] = demo_turns"
    by (simp add: demo_turns_def eval_nat_numeral)
  then have "?R\<^sup>*\<^sup>* ?a0 demo_headless" using r7 by (simp add: demo_headless_def)
  then show ?thesis using start by blast
qed

definition demo_sent :: "wire_msg list" where
  "demo_sent = written (demo_side demo_turns) 1"

definition demo_reading :: "r_op list" where
  "demo_reading = [RRead, RRead, RRead, REvent 5 0, RTick, REvent 6 0]"

lemma demo_attached:
  "case attach_mode (\<lambda>_. Some (List.map Line (take 4 demo_sent))) 9 demo_flags of
     AttachTui m rest \<Rightarrow>
       (case st_at ''/new'' (rows (r_screen (r_run demo_reading (start_remote m rest)))) of
          None \<Rightarrow> False | Some st \<Rightarrow> served st = 1)
   | _ \<Rightarrow> False"
  by code_simp

theorem attached_never_overstates_witness:
  "\<exists>m rest. attach_mode (\<lambda>_. Some (List.map Line (take 4 demo_sent))) 9 demo_flags = AttachTui m rest
    \<and> (\<exists>st \<in> set (rows (r_screen (r_run demo_reading (start_remote m rest)))). st_path st = ''/new'' \<and> served st = 1
         \<and> served st \<le> int (answered_in (d_core demo_headless) ''/new''))"
proof -
  obtain m rest st where a: "attach_mode (\<lambda>_. Some (List.map Line (take 4 demo_sent))) 9 demo_flags = AttachTui m rest"
    and st: "st_at ''/new'' (rows (r_screen (r_run demo_reading (start_remote m rest)))) = Some st" "served st = 1"
    using demo_attached by (auto split: action_of_main.splits option.splits)
  have in_rows: "st \<in> set (rows (r_screen (r_run demo_reading (start_remote m rest))))" "st_path st = ''/new''"
    using st_at_path[OF st(1)] by auto
  have "demo_sent = written (d_side demo_headless) 1" by (simp add: demo_sent_def demo_headless_def demo_daemon_def)
  then have "served st \<le> int (answered_in (d_core demo_headless) (st_path st))"
    using attached_never_overstates[OF a refl in_rows(1), of amd64 demo_bucket True 0 _ demo_config fst "\<lambda>_ _. None" False "{}" 1]
      demo_headless_reach by blast
  then show ?thesis using a in_rows st(2) by auto
qed

end
