(* ===== verification/HttpReply.thy ===== *)
theory HttpReply
  imports Json WholeShutdown EndpointTok LogSink TuiView
begin

text \<open>
  What a client and the log are given: the HTTP replies of \<^verbatim>\<open>endpoint/endpoint.go\<close> and
  \<^verbatim>\<open>server/server.go\<close>, field by field as the tags of \<^verbatim>\<open>endpoint/response.go\<close> say, and the line that
  is logged for a served request. Then what the replies of the whole server are, and how the line
  comes out of the log sink.
\<close>

section \<open>Replies\<close>

text \<open>
  A body is a document written by a JSON encoder, nothing (the encoder failed and its error is
  ignored) or plain text.
\<close>

datatype body = JsonBody json | EmptyBody | TextBody string

record reply =
  rp_status :: int
  rp_type :: string
  rp_body :: body

text \<open>The tag \<open>omitempty\<close>: zero, false and nil are left out, but a pointer to zero is not.\<close>

definition omit :: "bool \<Rightarrow> string \<times> json option \<Rightarrow> (string \<times> json option) list" where
  "omit b m = (if b then [] else [m])"

definition pointer :: "string \<Rightarrow> int option \<Rightarrow> (string \<times> json option) list" where
  "pointer k v = (case v of None \<Rightarrow> [] | Some n \<Rightarrow> [(k, Some (JsInt n))])"

definition response_fields :: "response \<Rightarrow> (string \<times> json option) list" where
  "response_fields resp =
     [(''ok'', Some (JsBool (OK resp))), (''endpoint'', Some (JsStr (r_Endpoint resp))),
       (''queued_for_ms'', Some (JsInt (QueuedForMs resp))), (''queue_depth'', Some (JsInt (QueueDepth resp))),
       (''rate'', enc_float (r_Rate resp)), (''unit'', Some (JsStr (r_Unit resp))),
       (''scheduler'', Some (JsStr (r_Scheduler resp))), (''algorithm'', Some (JsStr (r_Algorithm resp))),
       (''max_queue_size'', Some (JsInt (r_MaxQueueSize resp))), (''overflow'', Some (JsStr (r_Overflow resp)))]
      @ omit (r_BurstSize resp = 0) (''burst_size'', Some (JsInt (r_BurstSize resp)))
      @ omit (r_WindowSeconds resp = 0) (''window_seconds'', Some (JsInt (r_WindowSeconds resp)))
      @ omit (r_QueueTimeout resp = Fin 0) (''queue_timeout'', enc_float (r_QueueTimeout resp))
      @ omit (r_LatencyCompensation resp = Fin 0) (''latency_compensation'', enc_float (r_LatencyCompensation resp))
      @ pointer ''network_latency_ms'' (NetworkLatencyMs resp)
      @ omit (\<not> r_Dynamic resp) (''dynamic'', Some (JsBool (r_Dynamic resp)))
      @ pointer ''tokens_consumed'' (TokensConsumed resp)
      @ pointer ''tokens_remaining'' (TokensRemaining resp)
      @ pointer ''window_capacity'' (WindowCapacity resp)
      @ pointer ''waiting_for_next_window'' (WaitingForNextWindow resp)"

definition enc_response :: "response \<Rightarrow> json option" where
  "enc_response resp = enc_struct (response_fields resp)"

definition served_reply :: "response \<Rightarrow> reply" where
  "served_reply resp = \<lparr>rp_status = 200, rp_type = ''application/json'',
     rp_body = (case enc_response resp of Some j \<Rightarrow> JsonBody j | None \<Rightarrow> EmptyBody)\<rparr>"

text \<open>A map is written with its keys in order.\<close>

definition writeError :: "int \<Rightarrow> string \<Rightarrow> reply" where
  "writeError status msg = \<lparr>rp_status = status, rp_type = ''application/json'',
     rp_body = JsonBody (JsObj [(''error'', JsStr msg), (''ok'', JsBool False)])\<rparr>"

definition shutdown_reply :: reply where
  "shutdown_reply = \<lparr>rp_status = 503, rp_type = ''text/plain; charset=utf-8'',
     rp_body = TextBody (''service shutting down'' @ [newline])\<rparr>"

text \<open>What the endpoint's handler writes: nothing for a client that has left.\<close>

fun handler_reply :: "result \<Rightarrow> reply option" where
  "handler_reply (Served resp) = Some (served_reply resp)"
| "handler_reply (Rejected m) = Some (writeError 429 m)"
| "handler_reply Shutdown = Some shutdown_reply"
| "handler_reply Gone = None"

text \<open>What the server's handler writes, once it is over: its own 404 is written the same way.\<close>

fun request_reply :: "req_phase \<Rightarrow> phase \<Rightarrow> reply option" where
  "request_reply RNotFound ph = Some (writeError 404 ''no endpoint configured for path'')"
| "request_reply RDone (HDone res) = handler_reply res"
| "request_reply _ _ = None"

fun member :: "string \<Rightarrow> json \<Rightarrow> json option" where
  "member k (JsObj ms) = map_of ms k"
| "member k _ = None"

section \<open>The log line\<close>

text \<open>\<open>%nd\<close> pads on the left; \<open>stamp\<close> is the formatted time.\<close>

definition pad_left :: "nat \<Rightarrow> string \<Rightarrow> string" where
  "pad_left n s = concat (replicate (n - length s) blank) @ s"

definition served_line :: "string \<Rightarrow> response \<Rightarrow> string \<Rightarrow> string" where
  "served_line stamp resp query =
     stamp @ ''  serve  '' @ pad12 (r_Endpoint resp)
       @ ''  waited='' @ pad_left 6 (Itoa (QueuedForMs resp)) @ ''ms  queue='' @ pad_left 2 (Itoa (QueueDepth resp))
       @ ''  rate='' @ fmt0 (r_Rate resp) @ r_Unit resp
       @ ''  ['' @ r_Scheduler resp @ ''/'' @ r_Algorithm resp @ '']  '' @ (if query = '''' then ''-'' else query)"

text \<open>The logger ends what it writes with a newline.\<close>

definition log_output :: "string \<Rightarrow> string" where
  "log_output s = (if s = '''' \<or> last s \<noteq> newline then s @ [newline] else s)"

section \<open>Lemmas\<close>

definition writable :: "endpoint_config \<Rightarrow> bool" where
  "writable c \<longleftrightarrow> finite_float (Rate c) \<and> finite_float (QueueTimeout c) \<and> finite_float (LatencyCompensation c)"

lemma enc_response_None:
  "enc_response resp = None \<longleftrightarrow>
     \<not> (finite_float (r_Rate resp) \<and> finite_float (r_QueueTimeout resp) \<and> finite_float (r_LatencyCompensation resp))"
  by (auto simp: enc_response_def response_fields_def enc_struct_None enc_float_None omit_def pointer_def split: option.splits)

lemma members_map_of:
  "members ms = Some js \<Longrightarrow> map_of js k = (case map_of ms k of None \<Rightarrow> None | Some v \<Rightarrow> v)"
  by (induction ms arbitrary: js) (auto split: option.splits)

text \<open>A built response: the token fields are there together, and the rest is the configuration.\<close>

lemma buildResponse_fields:
  "OK (buildResponse now c d enq nl twi)" "r_Endpoint (buildResponse now c d enq nl twi) = Path c"
  "r_Rate (buildResponse now c d enq nl twi) = Rate c"
  "r_QueueTimeout (buildResponse now c d enq nl twi) = QueueTimeout c"
  "r_LatencyCompensation (buildResponse now c d enq nl twi) = LatencyCompensation c"
  "TokensConsumed (buildResponse now c d enq nl twi) = map_option Consumed twi"
  "TokensRemaining (buildResponse now c d enq nl twi) = map_option Remaining twi"
  "WindowCapacity (buildResponse now c d enq nl twi) = map_option Capacity twi"
  "WaitingForNextWindow (buildResponse now c d enq nl twi) = map_option Waiting twi"
  by (simp_all add: buildResponse_def Let_def split: option.splits)

definition built :: "'tb endpoint \<Rightarrow> response \<Rightarrow> bool" where
  "built ep resp \<longleftrightarrow> (\<exists>now d enq nl twi. resp = buildResponse now (cfg ep) d enq nl twi
     \<and> (twi = None \<longleftrightarrow> tokenWindow ep = None))"

lemma respond_built: "built ep (fst (respond now now_ms ep t r))"
  unfolding built_def respond_def Let_def fst_conv
  by (intro exI conjI) (rule refl, simp)

lemma exec_Served:
  assumes "exec oor Tokens tbWait a s = Some s'" and "hs s' i = HDone (Served resp)"
  shows "hs s i = HDone (Served resp) \<or> built (endp s) resp"
proof -
  note defs = disp_defs d_pop_def d_send_def d_scan_def d_release_def release_def sys_simps ep_Stop_def Let_def
  have "hs s i = HDone (Served resp) \<or> (\<exists>now ms t r. resp = fst (respond now ms (endp s) t r))"
    using assms
  proof (cases a)
    case (ARespond now ms j)
    then show ?thesis
      using assms by (auto simp: h_respond_def sys_simps split: phase.splits prod.splits if_splits; metis fst_conv)
  qed (auto simp: handler_defs h_push_def defs split: phase.splits dpc.splits option.splits sum.splits prod.splits
        choice.splits list.splits if_splits)
  then show ?thesis using respond_built by blast
qed

lemma reach_Served:
  "reach oor Tokens tbWait (start ep0 sk) s \<Longrightarrow> hs s i = HDone (Served resp) \<Longrightarrow> built (endp s) resp"
proof (induction arbitrary: i resp rule: reach.induct)
  case reach_start
  then show ?case by (simp add: start_def)
next
  case (reach_step s a s')
  have c: "cfg (endp s') = cfg (endp s)" "(tokenWindow (endp s') = None) = (tokenWindow (endp s) = None)"
    using exec_cfg[OF reach_step.hyps(2)] by auto
  have "built (endp s) resp" using exec_Served[OF reach_step.hyps(2) reach_step.prems] reach_step.IH by blast
  then show ?case by (simp add: built_def c)
qed

text \<open>Looking up a field, past the optional ones with other names.\<close>

lemma map_of_optional:
  "k \<noteq> fst m \<Longrightarrow> map_of (omit b m @ ms) k = map_of ms k"
  "k \<noteq> fst m \<Longrightarrow> map_of (omit b m) k = None"
  "k \<noteq> k' \<Longrightarrow> map_of (pointer k' v @ ms) k = map_of ms k"
  "map_of (pointer k (Some n) @ ms) k = Some (Some (JsInt n))"
  "pointer k None = []"
  "k \<noteq> k' \<Longrightarrow> map_of (pointer k' v) k = None"
  "map_of (pointer k (Some n)) k = Some (Some (JsInt n))"
  by (auto simp: omit_def pointer_def map_add_def split: option.splits)

text \<open>What is written for a built response.\<close>

lemma served_members:
  assumes "built ep resp" and "enc_response resp = Some j"
  shows "member ''ok'' j = Some (JsBool True)" "member ''endpoint'' j = Some (JsStr (Path (cfg ep)))"
    "k \<in> {''tokens_consumed'', ''tokens_remaining'', ''window_capacity'', ''waiting_for_next_window''}
      \<Longrightarrow> member k j \<noteq> None \<longleftrightarrow> tokenWindow ep \<noteq> None"
proof -
  obtain now d enq nl twi where r: "resp = buildResponse now (cfg ep) d enq nl twi"
    "twi = None \<longleftrightarrow> tokenWindow ep = None"
    using assms(1) by (auto simp: built_def)
  obtain js where j: "j = JsObj js" "members (response_fields resp) = Some js"
    using assms(2) by (auto simp: enc_response_def enc_struct_def)
  note f = members_map_of[OF j(2)] response_fields_def r(1) buildResponse_fields
  show "member ''ok'' j = Some (JsBool True)" "member ''endpoint'' j = Some (JsStr (Path (cfg ep)))"
    by (simp_all add: j(1) f)
  show "member k j \<noteq> None \<longleftrightarrow> tokenWindow ep \<noteq> None"
    if "k \<in> {''tokens_consumed'', ''tokens_remaining'', ''window_capacity'', ''waiting_for_next_window''}"
  proof (cases twi)
    case None
    then show ?thesis using that r(2) by (elim insertE) (simp_all add: j(1) f map_of_optional del: map_of_append)
  next
    case (Some t)
    then have "tokenWindow ep \<noteq> None" using r(2) by blast
    then show ?thesis
      using that Some by (elim insertE) (simp_all add: j(1) f map_of_optional del: map_of_append)
  qed
qed

text \<open>Every finished handler of the running server, by the reply it writes.\<close>

lemma finished_handler:
  assumes "start_server oor NewLimiter now c = Ok w0" and "w_reach oor NewLimiter Tokens tbWait expired w0 w"
    and "in_hand w p i = HDone (Served resp)"
  shows "\<exists>ep. map_of (eps (sreg (srv w))) p = Some ep \<and> built ep resp \<and> Path (cfg ep) = p
    \<and> (tokenWindow ep \<noteq> None \<longleftrightarrow> Algorithm (cfg ep) = ''token_window'')"
proof -
  have w: "w_inv oor NewLimiter Tokens tbWait w" by (rule w_inv_reach[OF assms(2) w_inv_start[OF assms(1)]])
  have "procs w p \<noteq> idle_goroutines" using assms(3) by (auto simp: in_hand_def idle_goroutines_def)
  then obtain ep where ep: "map_of (eps (sreg (srv w))) p = Some ep" using w unfolding w_inv_def by fastforce
  have al: "alone oor NewLimiter Tokens tbWait p ep (procs w p) (own p (emitted w))"
    using w ep unfolding w_inv_def by blast
  then obtain ep0 t c0 where a: "endpoint_New oor NewLimiter t c0 = Ok ep0" "Path c0 = p"
    "reach oor Tokens tbWait (start ep0 None) (sys_of ep (procs w p) (fold emit (own p (emitted w)) None))"
    unfolding alone_def by blast
  have "built ep resp"
    using reach_Served[OF a(3), of i resp] assms(3) by (simp add: in_hand_def sys_of_def)
  moreover have "cfg ep = c0" "tokenWindow ep = None \<longleftrightarrow> tokenWindow ep0 = None"
    using reach_cfg[OF a(3)] endpoint_New_Ok(1)[OF a(1)] by (auto simp: sys_of_def start_def)
  ultimately show ?thesis using ep a(2) endpoint_New_Ok(11)[OF a(1)] by auto
qed

section \<open>Properties of the replies\<close>

text \<open>
  C13. What a client gets from the running server: every finished handler has written nothing (the
  client had left), or a plain 503 at shutdown, or a 429 whose JSON body says \<open>ok: false\<close> with the
  reason, or a 200 that says \<open>ok: true\<close>, names the endpoint it was asked for and has the four
  token fields exactly when that endpoint is a token window; but if the rate, the timeout or
  the compensation of the endpoint is infinite or undefined, the 200 has an empty body.
\<close>

theorem replies_well_formed:
  assumes "start_server oor NewLimiter now c = Ok w0" and "w_reach oor NewLimiter Tokens tbWait expired w0 w"
    and "in_hand w p i = HDone res"
  shows "case handler_reply res of
      None \<Rightarrow> res = Gone
    | Some rep \<Rightarrow>
        (case rp_body rep of
           TextBody m \<Rightarrow> rp_status rep = 503
         | EmptyBody \<Rightarrow> rp_status rep = 200 \<and> (\<exists>ep. map_of (eps (sreg (srv w))) p = Some ep \<and> \<not> writable (cfg ep))
         | JsonBody j \<Rightarrow>
             (rp_status rep = 429 \<and> member ''ok'' j = Some (JsBool False) \<and> (\<exists>m. member ''error'' j = Some (JsStr m)))
             \<or> (rp_status rep = 200 \<and> member ''ok'' j = Some (JsBool True) \<and> member ''endpoint'' j = Some (JsStr p)
                \<and> (\<exists>ep. map_of (eps (sreg (srv w))) p = Some ep \<and> writable (cfg ep)
                     \<and> (\<forall>k\<in>{''tokens_consumed'', ''tokens_remaining'', ''window_capacity'', ''waiting_for_next_window''}.
                          member k j \<noteq> None \<longleftrightarrow> Algorithm (cfg ep) = ''token_window''))))"
proof (cases res)
  case (Served resp)
  obtain ep where ep: "map_of (eps (sreg (srv w))) p = Some ep" "built ep resp" "Path (cfg ep) = p"
    "tokenWindow ep \<noteq> None \<longleftrightarrow> Algorithm (cfg ep) = ''token_window''"
    using finished_handler[OF assms(1,2)] assms(3) Served by blast
  have fin: "enc_response resp = None \<longleftrightarrow> \<not> writable (cfg ep)"
    using ep(2) by (auto simp: built_def enc_response_None writable_def buildResponse_fields)
  show ?thesis
  proof (cases "enc_response resp")
    case None
    then show ?thesis using Served ep(1) fin by (auto simp: served_reply_def)
  next
    case (Some j)
    have "writable (cfg ep)" using fin Some by simp
    then show ?thesis
      using served_members[OF ep(2) Some] Served Some ep(1,3,4) by (simp add: served_reply_def)
  qed
qed (simp_all add: writeError_def shutdown_reply_def)

lemma demo_end_reply:
  "case w_all amd64 demo_bucket fst (\<lambda>_ _. None) (demo_queueing @ demo_answering) demo_whole of
     None \<Rightarrow> False
   | Some w \<Rightarrow> (case in_hand w ''/new'' 1 of
       HDone res \<Rightarrow> (case handler_reply res of None \<Rightarrow> False | Some rep \<Rightarrow> rp_status rep = 200 \<and> rp_body rep \<noteq> EmptyBody)
     | _ \<Rightarrow> False)"
  by code_simp

theorem replies_well_formed_witness:
  "\<exists>res rep j. in_hand demo_end ''/new'' 1 = HDone res \<and> handler_reply res = Some rep \<and> rp_status rep = 200
     \<and> rp_body rep = JsonBody j \<and> member ''ok'' j = Some (JsBool True) \<and> member ''endpoint'' j = Some (JsStr ''/new'')"
proof -
  obtain res rep where r: "in_hand demo_end ''/new'' 1 = HDone res" "handler_reply res = Some rep"
    "rp_status rep = 200" "rp_body rep \<noteq> EmptyBody"
    using demo_end_reply demo_end(1) by (auto split: phase.splits option.splits)
  have "\<exists>j. rp_body rep = JsonBody j \<and> member ''ok'' j = Some (JsBool True) \<and> member ''endpoint'' j = Some (JsStr ''/new'')"
    using replies_well_formed[OF demo_whole_New demo_end_reach[of False] r(1)] r(2-4)
    by (cases "rp_body rep") auto
  then show ?thesis using r by blast
qed

text \<open>
  An endpoint that passes validation can answer 200 with an empty body: a token window whose
  configured rate is infinite (its rate is never used, nor checked) serves its request, but the
  response cannot be encoded and the encoder's error is ignored.
\<close>

definition inf_cfg :: endpoint_config where
  "inf_cfg = (demo_one ''token_window'')\<lparr>Rate := Inf False\<rparr>"

definition inf_run :: "action list" where
  "inf_run = demo_tok_run @ [AWork, AScan [], ARelease, ASelect TakeRelease 1, ARespond 5 5 1]"

lemma unwritable_rate_empties_reply:
  "check_endpoint inf_cfg = None \<and> (case endpoint_New amd64 demo_bucket 0 inf_cfg of
     Ok ep \<Rightarrow> (case exec_all amd64 fst (\<lambda>_ _. None) inf_run (start ep None) of
         Some s \<Rightarrow> (case hs s 1 of
             HDone (Served resp) \<Rightarrow> handler_reply (Served resp)
               = Some \<lparr>rp_status = 200, rp_type = ''application/json'', rp_body = EmptyBody\<rparr>
           | _ \<Rightarrow> False)
       | None \<Rightarrow> False)
   | _ \<Rightarrow> False)"
  by code_simp

section \<open>The log of served requests\<close>

text \<open>No formatted number or time contains a newline.\<close>

definition clean :: "string \<Rightarrow> bool" where
  "clean s \<longleftrightarrow> newline \<notin> set s"

lemma clean_append [simp]: "clean (s @ t) \<longleftrightarrow> clean s \<and> clean t"
  by (auto simp: clean_def)

lemma clean_Cons: "clean (c # s) \<longleftrightarrow> c \<noteq> newline \<and> clean s"
  by (auto simp: clean_def)

lemma clean_blanks [simp]: "clean (concat (replicate n blank))"
  by (induction n) (simp_all add: clean_def blank_def newline_def)

lemma clean_digits: "0 \<le> n \<Longrightarrow> clean (show_digits n)"
proof (induction n rule: show_digits.induct)
  case (1 n)
  have d: "clean [digit_char k]" if "0 \<le> k" "k < 10" for k
  proof -
    have "\<not> is_digit newline" by code_simp
    then show ?thesis using digit_char(1)[OF that] by (auto simp: clean_def)
  qed
  show ?case
    using 1 d[of n] d[of "n mod 10"] by (cases "n < 10") (simp_all add: show_digits.simps[of n])
qed

lemma clean_Itoa [simp]: "clean (Itoa n)"
  by (simp add: Itoa_def clean_digits clean_Cons newline_def)

lemma clean_fmt0 [simp]: "clean (fmt0 a)"
  by (cases a) (simp_all add: clean_def newline_def clean_Itoa[unfolded clean_def newline_def])

lemma served_line_clean:
  assumes "clean stamp" and "clean (r_Endpoint resp)" and "clean (r_Unit resp)" and "clean (r_Scheduler resp)"
    and "clean (r_Algorithm resp)" and "clean query"
  shows "clean (served_line stamp resp query)"
  using assms
  by (auto simp: served_line_def pad12_def pad_left_def clean_Cons newline_def)

lemma one_line:
  assumes "clean s" and "s \<noteq> ''''"
  shows "log_lines (log_output s) = [s]"
proof -
  have "last s \<noteq> newline" using assms by (metis clean_def last_in_set)
  then show ?thesis
    using assms by (simp add: log_output_def log_lines_def trim_snoc trim_id split_newline_single clean_def)
qed

text \<open>
  C32. One line per request: as long as the path and the query of the request have no line break,
  the message logged for a served request goes through the log sink as exactly one line, with
  the endpoint's name in it, whatever its rate and the numbers are.
\<close>

theorem served_request_logs_one_line:
  assumes "check_endpoint (cfg ep) = None" and "clean stamp" and "stamp \<noteq> ''''" and "clean (Path (cfg ep))"
    and "clean (RawQuery r)"
  shows "log_lines (log_output (served_line stamp (fst (respond now now_ms ep t r)) (RawQuery r)))
    = [served_line stamp (fst (respond now now_ms ep t r)) (RawQuery r)]"
proof (rule one_line)
  let ?resp = "fst (respond now now_ms ep t r)"
  have f: "r_Endpoint ?resp = Path (cfg ep)" "r_Unit ?resp = Unit (cfg ep)" "r_Scheduler ?resp = Scheduler (cfg ep)"
    "r_Algorithm ?resp = Algorithm (cfg ep)"
    by (simp_all add: respond_def buildResponse_def Let_def split: option.splits)
  have "clean (Unit (cfg ep))" "clean (Scheduler (cfg ep))" "clean (Algorithm (cfg ep))"
    using assms(1) by (auto simp: check_endpoint_def validAlgorithm_def validScheduler_def validUnit_def clean_def
        newline_def split: if_splits)
  then show "clean (served_line stamp ?resp (RawQuery r))"
    using assms(2,4,5) by (intro served_line_clean) (simp_all add: f)
  show "served_line stamp ?resp (RawQuery r) \<noteq> ''''" using assms(3) by (simp add: served_line_def)
qed

definition demo_stamp :: string where
  "demo_stamp = ''2024-01-01 00:00:00.000''"

theorem served_request_logs_one_line_witness:
  "log_lines (log_output (served_line demo_stamp (fst (respond 100000000 100 (demo_std [])
      \<lparr>tid = 1, Priority = 0, EnqueuedAt = 0, Cost = 0\<rparr> demo_req)) (RawQuery demo_req)))
    = [''2024-01-01 00:00:00.000  serve  /api          waited=   100ms  queue= 0  rate=10rps  [fifo/strict]  -'']"
proof -
  have "check_endpoint (cfg (demo_std [])) = None" "clean demo_stamp" "demo_stamp \<noteq> ''''"
    "clean (Path (cfg (demo_std [])))" "clean (RawQuery demo_req)"
    by code_simp+
  note one = served_request_logs_one_line[OF this, of 100000000 100 "\<lparr>tid = 1, Priority = 0, EnqueuedAt = 0, Cost = 0\<rparr>"]
  show ?thesis unfolding one by code_simp
qed

lemma two_lines:
  assumes "clean x" and "x \<noteq> ''''" and "clean y" and "y \<noteq> ''''"
  shows "log_lines (log_output (x @ newline # y)) = [x, y]"
proof -
  have l: "last (x @ newline # y) \<noteq> newline" using assms by (metis clean_def last_ConsR last_appendR last_in_set list.distinct(1))
  then have "trim_newlines (x @ newline # y) = x @ newline # y" by (intro trim_id) simp_all
  then show ?thesis
    using l assms by (simp add: log_output_def log_lines_def trim_snoc[of "x @ newline # y", simplified] split_newline_line
      split_newline_single clean_def)
qed

text \<open>
  A request can forge a line of the log: paths are decoded before they are logged, so one with an
  encoded line break, which is given its own dynamic endpoint, makes two lines, and the second
  begins with what the client wrote after the break.
\<close>

lemma path_forges_log_line:
  assumes "check_endpoint (cfg ep) = None" and "clean stamp" and "stamp \<noteq> ''''"
    and "Path (cfg ep) = a @ newline # b" and "clean a" and "clean b" and "clean (RawQuery r)"
  shows "\<exists>rest. log_lines (log_output (served_line stamp (fst (respond now now_ms ep t r)) (RawQuery r)))
    = [stamp @ ''  serve  '' @ a, b @ rest]"
proof -
  let ?resp = "fst (respond now now_ms ep t r)"
  let ?bare = "?resp\<lparr>r_Endpoint := ''''\<rparr>"
  have f: "r_Endpoint ?resp = Path (cfg ep)" "r_Unit ?resp = Unit (cfg ep)" "r_Scheduler ?resp = Scheduler (cfg ep)"
    "r_Algorithm ?resp = Algorithm (cfg ep)"
    by (simp_all add: respond_def buildResponse_def Let_def split: option.splits)
  define rest where "rest = concat (replicate (12 - rune_count (a @ newline # b)) blank)
       @ ''  waited='' @ pad_left 6 (Itoa (QueuedForMs ?resp)) @ ''ms  queue='' @ pad_left 2 (Itoa (QueueDepth ?resp))
       @ ''  rate='' @ fmt0 (r_Rate ?resp) @ r_Unit ?resp
       @ ''  ['' @ r_Scheduler ?resp @ ''/'' @ r_Algorithm ?resp @ '']  '' @ (if RawQuery r = '''' then ''-'' else RawQuery r)"
  have line: "served_line stamp ?resp (RawQuery r) = (stamp @ ''  serve  '' @ a) @ newline # (b @ rest)"
    by (simp add: served_line_def rest_def f(1) assms(4) pad12_def)
  have "clean (Unit (cfg ep))" "clean (Scheduler (cfg ep))" "clean (Algorithm (cfg ep))"
    using assms(1) by (auto simp: check_endpoint_def validAlgorithm_def validScheduler_def validUnit_def clean_def
        newline_def split: if_splits)
  then have "clean rest" "rest \<noteq> ''''"
    using assms(7) by (auto simp: rest_def f pad_left_def clean_Cons newline_def)
  then show ?thesis
    using assms(2,3,5,6) by (intro exI[of _ rest]) (subst line, rule two_lines; simp add: clean_Cons newline_def)
qed

end
