(* ===== verification/Spec2Isabelle.thy ===== *)
theory Spec2Isabelle
  imports EndpointStd EndpointTok EndpointType Server AttachServe LogSink TuiView TuiCmd TuiAttach EventAccount MainRemote Json HttpReply
begin

text \<open>
  rls is a rate limiting server: an HTTP server whose endpoints queue requests and release them at
  a configured rate, with a terminal interface and a socket through which a second process can
  follow it. This library models the program and proves what it promises; source files are under
  \<^verbatim>\<open>src/\<close>.

  \<^bold>\<open>The program and its theories.\<close>

  \<^descr> \<open>Prelude\<close>, \<open>GoNum\<close>, \<open>GoRound\<close>, \<open>GoStrconv\<close>, \<open>GoPath\<close>, \<open>GoHeap\<close>, \<open>GoChan\<close>: what the program uses of
    Go: results that are values, errors or panics; 64-bit integers and IEEE doubles with rounding;
    \<open>strconv\<close>; package \<open>path\<close>; \<open>container/heap\<close>; lossy channels.
  \<^descr> \<open>QTicket\<close>, \<open>QFifo\<close>, \<open>QLifo\<close>, \<open>QRandom\<close>, \<open>QPriority\<close>, \<open>QScheduler\<close>: \<^verbatim>\<open>queue/\<close>. The locale \<open>sched_queue\<close> is
    the \<open>Queue\<close> interface with its laws (contents as a multiset, the capacity, which tickets may be
    served next); it is interpreted on each scheduler and on the factory's result.
  \<^descr> \<open>LimStrict\<close>, \<open>LimSliding\<close>, \<open>LimTokenWindow\<close>, \<open>Limiter\<close>: \<^verbatim>\<open>limiter/\<close>, the limiters as state machines over
    the clock, and the factory.
  \<^descr> \<open>Config\<close>: \<^verbatim>\<open>config/\<close> and the part of \<^verbatim>\<open>main.go\<close> that chooses the configuration to start with.
  \<^descr> \<open>Endpoint\<close>: \<^verbatim>\<open>endpoint/endpoint.go\<close> and \<^verbatim>\<open>endpoint/response.go\<close> as far as they run without waiting:
    construction, admission, wait estimate, response, event sink.
  \<^descr> \<open>EndpointRun\<close>, \<open>EndpointStd\<close>, \<open>EndpointTok\<close>, \<open>EndpointType\<close>: the goroutines of an endpoint (the handlers,
    both dispatchers, the ticker, \<open>Stop\<close>) as program counters; \<open>exec\<close> is one step from one access to
    shared state to the next, \<open>reach\<close> any interleaving. \<open>EndpointStd\<close> is about the endpoints with a
    limiter, \<open>EndpointTok\<close> about those with a token window, \<open>EndpointType\<close> about the 64-bit ranges.
  \<^descr> \<open>Registry\<close>: \<^verbatim>\<open>endpoint/registry.go\<close>, the endpoints by path, the walk up the tree and the dynamic
    endpoints.
  \<^descr> \<open>Server\<close>: \<^verbatim>\<open>server/server.go\<close>, routing, the counter of active requests and \<open>Shutdown\<close>, as a step
    relation.
  \<^descr> \<open>WholeServer\<close>, \<open>WholeShutdown\<close>, \<open>WholeEvents\<close>: the server with all its endpoints, their goroutines and
    the event channel they share (record \<open>whole\<close>, step \<open>w_step\<close>). The first shows that it refines
    \<open>Server\<close> and that each endpoint is one of \<open>EndpointRun\<close>; the others carry the invariants of
    single endpoints and of the shutdown over to it.
  \<^descr> \<open>AttachHub\<close>, \<open>AttachServe\<close>, \<open>AttachClient\<close>: \<^verbatim>\<open>attach/\<close>: the hub and its subscribers, the fan-out, the
    accept loop, the client. The locale \<open>lossy_feed\<close> (in \<open>GoChan\<close>) is the contract of a channel with a
    non-blocking send; the event sink, a subscription of the hub and the outputs of the fan-out are
    its interpretations.
  \<^descr> \<open>Json\<close>, \<open>HttpReply\<close>: the documents of the socket and the replies of the server as trees, by the
    struct tags of \<^verbatim>\<open>config/config.go\<close>, \<^verbatim>\<open>attach/wire.go\<close>, \<^verbatim>\<open>endpoint/events.go\<close> and \<^verbatim>\<open>endpoint/response.go\<close>; how
    they are read back; and the log line of a request.
  \<^descr> \<open>LogSink\<close>, \<open>TuiTree\<close>, \<open>TuiModel\<close>, \<open>TuiProps\<close>, \<open>TuiView\<close>, \<open>TuiCmd\<close>: \<^verbatim>\<open>tui/\<close>: the log writer, the path
    tree, the model and its update function, what its rows show, the view, and the effects of the
    commands with the request that the space key sends.
  \<^descr> \<open>MainMode\<close>: \<^verbatim>\<open>main.go\<close>, the decisions of the command line and the state handed to subscribers.
  \<^descr> \<open>MainWiring\<close>, \<open>MainDisplay\<close>, \<open>MainRemote\<close>: \<^verbatim>\<open>main.go\<close>, the programs it starts: the interactive one (record
    \<open>app\<close>, step \<open>a_step\<close>), the headless one (\<open>daemon\<close>, \<open>h_step\<close>) and the attached interface (\<open>remote\<close>,
    \<open>r_do\<close>), each a composition of the components' own operations; and what their displays show.
    The locale \<open>hub_feed\<close> is what the hub relies on, interpreted on both programs.
  \<^descr> \<open>TuiAttach\<close>, \<open>EventAccount\<close> and this theory: properties across components: what an attached
    interface shows, the events of an endpoint against the fate of its requests, and the way from the
    configuration to the requests.

  \<^bold>\<open>How the parts interact.\<close> \<open>main\<close> builds a configuration (\<open>startup_config\<close>), the server builds the
  registry from it (\<open>server_New\<close>), a request is routed by \<open>Match\<close> to an endpoint, possibly a new
  dynamic one, and handled there: it is admitted or refused, queued, released by the dispatcher and
  answered. Endpoints emit events into a sink; the fan-out passes them to the terminal interface
  and the hub; the hub passes them on to the subscribers, each the connection of a client, which
  feeds another terminal interface.

  \<^bold>\<open>State and steps.\<close> Structs are records and operations are functions from the old to the new state;
  what runs under one mutex is one step. Where goroutines interleave, a run is a list of actions
  and the statements are about every reachable state. Nondeterminism of the environment is an
  argument: the clock, \<open>rand.Intn\<close> (a draw reduced to the range), the slack of \<open>append\<close>, the order of
  a map iteration, which branch of a \<open>select\<close> is taken, the conversion of a number out of range
  (\<open>oor\<close>, with \<open>amd64\<close> as the instance).

  \<^bold>\<open>What the lemmas show.\<close> Queues: no operation loses or duplicates a ticket, the capacity holds, and
  each scheduler serves in its order, also in \<open>PopWhere\<close> with its aliasing in-place filters.
  Limiters: no window grants more than allowed, strict slots lie in distinct periods, the wait
  estimate is monotone through all roundings. Configuration: what is loaded is valid, \<open>main\<close> always
  has one to start with. Endpoints: in every interleaving a signal meets its ticket, no wake-up is
  lost, releases do not block, served requests never outnumber grants, window budgets hold.
  Registry: every path finds an endpoint, dynamic ones inherit from the nearest configured
  ancestor and are capped. Server: each request is answered once by one endpoint, with a reply
  whose status and body are stated, and dispatchers stop only after the last request. Attach: what
  a subscriber receives, the round trip of a connection and of every document, no leaked
  subscription. Interface: what rows count, that the view never panics, that an attached interface
  shows the server's own configurations and queues. Whole programs: the rows of the interface
  never show more than what happened, however events are lost, and exactly what happened once all
  is read and nothing was lost; the same behind the socket. Types: every integer stays in its 64
  bits. Findings are lemmas too: concrete runs in which the code does something else than its
  comments say or than it means to.

  \<^bold>\<open>Termination and fuel.\<close> No definition has fuel. The walks over paths (\<open>find_parent\<close>, \<open>walk_up\<close>,
  \<open>count_up\<close>) terminate by the length of the path, the heap loops by their index; everything else
  is structural. Loops that wait (\<open>Handle\<close> of a blocking endpoint, the dispatchers, the accept loop,
  the sliding window's polling) are steps or runs over a list of inputs.

  \<^bold>\<open>Parameters.\<close> Code that is not in the repository is an argument: yaml.v3 and the file system in \<open>Load\<close>,
  the flag parser in \<open>ParseFlags\<close>, \<^verbatim>\<open>golang.org/x/time/rate\<close> behind the token bucket (a type \<open>'tb\<close> with its
  constructor, \<open>Tokens\<close> and \<open>Wait\<close>), and lipgloss in the view. Bubble Tea is the messages it delivers.

  \<^bold>\<open>Not modelled.\<close> \<open>net/http\<close> beyond what it hands to the handler and the replies it is given; sockets
  below the line; the text of a JSON document (\<open>AttachHub\<close> has the Go values they encode, \<open>Json\<close> their
  trees; strings are taken to be valid UTF-8); the exits of \<open>main\<close> on a fatal error, which are error
  results, and the text of its own log messages, for which any text stands; the runtime of Bubble Tea
  beyond the messages it delivers. Clocks and the grid of tickers are ideal, and the sign of a zero is
  not kept in doubles.
\<close>

section \<open>From the configuration to the requests\<close>

lemma valid_base:
  assumes "NewRegistryWithOpts oor NewLimiter now cfgs [WithMaxDynamic capac] = Ok r0"
    and "cfg_at r0 p = Some c"
  shows "c \<in> set cfgs"
proof -
  have "cfg_at r0 = Map.empty ++ map_of (rev (List.map (\<lambda>c. (Path c, c)) cfgs))"
    using add_all_Ok[OF assms(1)[unfolded NewRegistryWithOpts_def]]
    by (simp add: WithMaxDynamic_def cfg_at_def[abs_def])
  then show ?thesis
    using map_of_SomeD[of "rev (List.map (\<lambda>c. (Path c, c)) cfgs)" p c] assms(2) by auto
qed

text \<open>
  C12. From start to request: whatever the configuration file and the flags were, a server that
  \<open>main\<close> starts answers no request with 404, and every endpoint it ever serves a path with,
  configured or dynamic, passes the validation of the configuration.
\<close>

theorem started_server_serves_every_path:
  assumes "startup_config ReadFile Unmarshal path port host = Ok c" and "is_i64 port"
    and "server_New oor NewLimiter now c = Ok s0" and "is_i64 (MaxDynamicEndpoints (Defaults c))"
    and "s_reach oor NewLimiter expired s0 s"
  shows "reqs s i \<noteq> RNotFound
    \<and> (\<forall>p ec. cfg_at (sreg s) p = Some ec \<longrightarrow> check_endpoint ec = None)"
proof -
  have cfg: "hasRoot (Endpoints c)" "validateEndpoints (Endpoints c) = None"
    using startup_config_valid[OF assms(2), of ReadFile Unmarshal path host] assms(1) by auto
  have cap: "is_i64 (dynamic_cap c)" using assms(4) by (auto simp: dynamic_cap_def is_i64_def)
  note new = server_registry[OF assms(3)]
  have "srv_reg_inv (cfg_at (sreg s0)) (length (eps (sreg s0))) (dynamic_cap c) s0"
    using New_reg_inv[OF new cfg(1) cap] server_New_Ok(2)[OF assms(3)] by (simp add: srv_reg_inv_def)
  then have inv: "srv_reg_inv (cfg_at (sreg s0)) (length (eps (sreg s0))) (dynamic_cap c) s"
    by (rule srv_reg_reach[OF assms(5)])
  have valid: "check_endpoint b = None" if "cfg_at (sreg s0) q = Some b" for q b
    using valid_base[OF new that] cfg(2) by (simp add: validateEndpoints_None)
  have "check_endpoint ec = None" if "cfg_at (sreg s) p = Some ec" for p ec
  proof -
    have "cfg_at (sreg s0) p = Some ec \<or> inherited (cfg_at (sreg s0)) p ec"
      using inv that by (auto simp: srv_reg_inv_def reg_inv_def)
    then show ?thesis using valid by (auto simp: inherited_def)
  qed
  then show ?thesis using inv by (simp add: srv_reg_inv_def)
qed

lemma default_server:
  "startup_config (\<lambda>_. Inl ''no such file'') (\<lambda>d::unit. Inr zero_config) ''rls.yml'' 0 '''' = Ok defaultConfig"
  by (simp add: startup_config_def flag_overrides_def loadConfig_def Load_def)

lemma default_server_New:
  "\<exists>s0. server_New amd64 demo_bucket 0 defaultConfig = Ok s0"
proof -
  have "is_ok (NewRegistryWithOpts amd64 demo_bucket 0 (Endpoints defaultConfig) (registry_options defaultConfig))"
    by code_simp
  then show ?thesis by (auto simp: is_ok_iff server_New_def)
qed

theorem started_server_serves_every_path_witness:
  "\<exists>s0 ec. server_New amd64 demo_bucket 0 defaultConfig = Ok s0 \<and> reqs s0 1 \<noteq> RNotFound
    \<and> cfg_at (sreg s0) ''/'' = Some ec \<and> check_endpoint ec = None"
proof -
  obtain s0 where s0: "server_New amd64 demo_bucket 0 defaultConfig = Ok s0" using default_server_New by blast
  have i: "is_i64 0" "is_i64 (MaxDynamicEndpoints (Defaults defaultConfig))" "is_i64 (dynamic_cap defaultConfig)"
    "hasRoot (Endpoints defaultConfig)" by code_simp+
  have "cfg_at (sreg s0) ''/'' \<noteq> None"
    using New_reg_inv[OF server_registry[OF s0] i(4,3)] by (simp add: reg_inv_def)
  then obtain ec where ec: "cfg_at (sreg s0) ''/'' = Some ec" by blast
  have "s_reach amd64 demo_bucket False s0 s0" by (simp add: s_reach_def)
  from started_server_serves_every_path[OF default_server i(1) s0 i(2) this, of 1] show ?thesis using s0 ec by blast
qed

end
